(* ===== verification/CackPrelude.thy ===== *)
theory CackPrelude
  imports Main "HOL-Library.Word" "HOL-Library.Multiset"
begin

text \<open>
  Shared vocabulary of the development: the outcomes a C function can have besides returning
  (\<open>fault\<close>), sequencing of operations that can have them (\<open>bindR\<close>), the ranges and
  conversions of the C integer types, NUL-terminated strings, and the general lemmas on sums over
  updated lists and on modular arithmetic that the components use.
\<close>

unbundle bit_operations_syntax

named_theorems res_simps \<open>unfolding of the sequencing of operations that may fault\<close>
named_theorems inv_intros \<open>preservation of the components' invariants\<close>

section \<open>Outcomes of C functions\<close>

text \<open>
  \<open>NullDeref\<close>: a null pointer is dereferenced (or handed to a library function that does so).
  \<open>DanglingDeref\<close>: freed memory is read. \<open>OutOfBounds\<close>: memory outside an array is read.
  \<open>SignedOverflow\<close>: a signed operation leaves the range of its type, which C leaves undefined.
  \<open>NoReturn\<close>: a loop of the code does not end.
\<close>

datatype fault = NullDeref | DanglingDeref | OutOfBounds | SignedOverflow | NoReturn

type_synonym 'a res = "fault + 'a"

definition bindR :: "'a res \<Rightarrow> ('a \<Rightarrow> 'b res) \<Rightarrow> 'b res" where
  "bindR m f = (case m of Inl e \<Rightarrow> Inl e | Inr x \<Rightarrow> f x)"

lemma bindR_Inl [simp]: "bindR (Inl e) f = Inl e"
  by (simp add: bindR_def)

lemma bindR_Inr [simp]: "bindR (Inr x) f = f x"
  by (simp add: bindR_def)

lemma bindR_assoc: "bindR (bindR m f) g = bindR m (\<lambda>x. bindR (f x) g)"
  by (cases m) simp_all

lemma bindR_eq_Inr: "bindR m f = Inr y \<longleftrightarrow> (\<exists>x. m = Inr x \<and> f x = Inr y)"
  by (cases m) auto

lemma bindR_InrE [elim!]:
  assumes "bindR m f = Inr y"
  obtains x where "m = Inr x" "f x = Inr y"
  using assms by (auto simp: bindR_eq_Inr)

lemma bindR_cong [fundef_cong]:
  "m = m' \<Longrightarrow> (\<And>x. m' = Inr x \<Longrightarrow> f x = f' x) \<Longrightarrow> bindR m f = bindR m' f'"
  by (cases m') auto

text \<open>A loop that may run forever is an option; its \<open>None\<close> becomes the fault \<open>NoReturn\<close>.\<close>

definition returns :: "'a option \<Rightarrow> 'a res" where
  "returns m = (case m of None \<Rightarrow> Inl NoReturn | Some x \<Rightarrow> Inr x)"

lemma returns_simps [simp]: "returns None = Inl NoReturn" "returns (Some x) = Inr x"
  by (simp_all add: returns_def)

lemma returns_eq_Inr [simp]: "returns m = Inr x \<longleftrightarrow> m = Some x"
  by (cases m) auto

text \<open>A pointer argument that the code dereferences: null is a fault.\<close>

definition deref :: "'a option \<Rightarrow> 'a res" where
  "deref p = (case p of None \<Rightarrow> Inl NullDeref | Some x \<Rightarrow> Inr x)"

lemma deref_simps [simp]: "deref None = Inl NullDeref" "deref (Some x) = Inr x"
  by (simp_all add: deref_def)

lemma deref_eq_Inr [simp]: "deref p = Inr x \<longleftrightarrow> p = Some x"
  by (cases p) auto

text \<open>
  \<open>res_ok E Q m\<close>: the operation \<open>m\<close> returns with a result that satisfies \<open>Q\<close>, or has one of
  the faults in \<open>E\<close>.
\<close>

definition res_ok :: "fault set \<Rightarrow> ('a \<Rightarrow> bool) \<Rightarrow> 'a res \<Rightarrow> bool" where
  "res_ok E Q m = (case m of Inl e \<Rightarrow> e \<in> E | Inr x \<Rightarrow> Q x)"

lemma res_ok_simps [simp]: "res_ok E Q (Inr x) = Q x" "res_ok E Q (Inl e) = (e \<in> E)"
  by (simp_all add: res_ok_def)

lemma res_ok_bind:
  "res_ok E R m \<Longrightarrow> (\<And>x. R x \<Longrightarrow> res_ok E Q (f x)) \<Longrightarrow> res_ok E Q (bindR m f)"
  by (cases m) auto

lemma res_ok_mono: "res_ok E R m \<Longrightarrow> (\<And>x. R x \<Longrightarrow> Q x) \<Longrightarrow> res_ok E Q m"
  by (cases m) auto

lemma res_ok_Inr: "res_ok E Q m \<Longrightarrow> m = Inr x \<Longrightarrow> Q x"
  by simp

lemma res_ok_total: "res_ok {} Q m \<Longrightarrow> \<exists>x. m = Inr x \<and> Q x"
  by (cases m) auto

section \<open>C integers\<close>

definition INT64_MIN :: int where "INT64_MIN = - 9223372036854775808"
definition INT64_MAX :: int where "INT64_MAX = 9223372036854775807"
definition INT32_MAX :: int where "INT32_MAX = 2147483647"

definition in_int64 :: "int \<Rightarrow> bool" where
  "in_int64 x \<longleftrightarrow> INT64_MIN \<le> x \<and> x \<le> INT64_MAX"

text \<open>Signed 64-bit arithmetic: defined exactly when the mathematical result fits.\<close>

definition int64 :: "int \<Rightarrow> int res" where
  "int64 x = (if in_int64 x then Inr x else Inl SignedOverflow)"

lemma int64_eq_Inr [simp]: "int64 x = Inr y \<longleftrightarrow> y = x \<and> in_int64 x"
  by (auto simp: int64_def)

lemma res_ok_int64: "SignedOverflow \<in> E \<Longrightarrow> (in_int64 x \<Longrightarrow> Q x) \<Longrightarrow> res_ok E Q (int64 x)"
  by (simp add: int64_def)

text \<open>The conversion \<open>(int)x\<close> of a wider integer: reduction modulo \<open>2^32\<close>.\<close>

definition to_int32 :: "int \<Rightarrow> int" where
  "to_int32 x = (x + 2147483648) mod 4294967296 - 2147483648"

lemma to_int32_id [simp]: "- 2147483648 \<le> x \<Longrightarrow> x \<le> INT32_MAX \<Longrightarrow> to_int32 x = x"
  by (simp add: to_int32_def INT32_MAX_def)

lemma to_int32_range: "- 2147483648 \<le> to_int32 x \<and> to_int32 x \<le> INT32_MAX"
  unfolding to_int32_def INT32_MAX_def
  using pos_mod_bound [of 4294967296 "x + 2147483648"] pos_mod_sign [of 4294967296 "x + 2147483648"]
  by linarith

text \<open>C division truncates towards zero.\<close>

definition c_div :: "int \<Rightarrow> int \<Rightarrow> int" where
  "c_div a b = sgn a * sgn b * (\<bar>a\<bar> div \<bar>b\<bar>)"

lemma c_div_nonneg [simp]: "0 \<le> a \<Longrightarrow> 0 < b \<Longrightarrow> c_div a b = a div b"
  by (cases "a = 0") (simp_all add: c_div_def sgn_if)

lemma c_div_neg: "a < 0 \<Longrightarrow> 0 < b \<Longrightarrow> c_div a b \<le> 0"
  by (simp add: c_div_def sgn_if pos_imp_zdiv_nonneg_iff)

section \<open>C strings\<close>

text \<open>
  A \<open>char *\<close> is \<open>None\<close> (NULL) or the bytes before the terminating NUL. Copying at most
  \<open>n\<close> bytes of memory with \<open>strlen\<close> first stops at an embedded NUL.
\<close>

type_synonym cstr = "string option"

definition NUL :: char where "NUL = CHR 0x00"
definition CR :: char where "CR = CHR 0x0D"
definition LF :: char where "LF = CHR 0x0A"

abbreviation CRLF :: string where "CRLF \<equiv> [CR, LF]"

definition cstr_ok :: "string \<Rightarrow> bool" where
  "cstr_ok s \<longleftrightarrow> NUL \<notin> set s"

section \<open>Growing a buffer by doubling\<close>

text \<open>
  \<^verbatim>\<open>while (len + extra > cap) cap *= 2;\<close> as it stands in \<open>resp_buf_ensure\<close> and
  \<open>client_queue_write\<close>. With \<open>cap = 0\<close> the loop would not end.
\<close>

partial_function (option) grow_cap :: "nat \<Rightarrow> nat \<Rightarrow> nat option" where
  "grow_cap need cap = (if need > cap then grow_cap need (cap * 2) else Some cap)"

lemma grow_cap_total:
  assumes "0 < cap"
  shows "\<exists>c. grow_cap need cap = Some c \<and> need \<le> c \<and> cap \<le> c \<and> (c = cap \<or> c < 2 * need)"
  using assms
proof (induction "need - cap" arbitrary: cap rule: less_induct)
  case less
  show ?case
  proof (cases "need > cap")
    case True
    with less.prems have "need - cap * 2 < need - cap" by linarith
    from less.hyps [OF this] less.prems obtain c where
      c: "grow_cap need (cap * 2) = Some c" "need \<le> c" "cap * 2 \<le> c" "c = cap * 2 \<or> c < 2 * need"
      by auto
    have "grow_cap need cap = Some c" using True c(1) by (simp add: grow_cap.simps [of need cap])
    with c True show ?thesis by auto
  next
    case False
    then show ?thesis by (auto simp: grow_cap.simps [of need cap])
  qed
qed

section \<open>Sums over updated lists\<close>

lemma sum_list_map_update:
  fixes f :: "'a \<Rightarrow> 'b::comm_monoid_add"
  shows "i < length xs \<Longrightarrow> sum_list (map f (xs[i := x])) + f (xs ! i) = sum_list (map f xs) + f x"
proof (induction xs arbitrary: i)
  case Nil
  then show ?case by simp
next
  case (Cons y ys)
  then show ?case by (cases i) (auto simp: ac_simps)
qed

lemma sum_indexed_update:
  fixes f :: "nat \<Rightarrow> 'a \<Rightarrow> nat"
  assumes "i < length xs"
  shows "(\<Sum>s<length xs. f s (xs[i := x] ! s)) + f i (xs ! i) = (\<Sum>s<length xs. f s (xs ! s)) + f i x"
proof -
  let ?I = "{..<length xs}"
  have i: "i \<in> ?I" "finite ?I" using assms by auto
  have "(\<Sum>s\<in>?I - {i}. f s (xs[i := x] ! s)) = (\<Sum>s\<in>?I - {i}. f s (xs ! s))"
    by (rule sum.cong) auto
  with i assms show ?thesis
    by (simp add: sum.remove [of ?I i "\<lambda>s. f s (xs[i := x] ! s)"] sum.remove [of ?I i "\<lambda>s. f s (xs ! s)"])
qed

section \<open>Positions on a ring of slots\<close>

lemma and_mask_mod: "(x::nat) AND (2 ^ n - 1) = x mod 2 ^ n"
  by (metis mask_eq_exp_minus_1 take_bit_eq_mask take_bit_eq_mod)

definition ring_dist :: "nat \<Rightarrow> nat \<Rightarrow> nat \<Rightarrow> nat" where
  "ring_dist c a b = (b + c - a mod c) mod c"

lemma ring_dist_less [simp]: "0 < c \<Longrightarrow> ring_dist c a b < c"
  by (simp add: ring_dist_def)

lemma ring_dist_add: "0 < c \<Longrightarrow> ring_dist c a ((a + i) mod c) = i mod c"
proof -
  assume c: "0 < c"
  have "((a + i) mod c + (c - a mod c)) mod c = (a + (i + (c - a mod c))) mod c"
    by (simp add: mod_add_left_eq add.assoc)
  also have "\<dots> = (a mod c + i + (c - a mod c)) mod c"
    by (simp add: mod_add_left_eq add.assoc)
  also have "a mod c + i + (c - a mod c) = i + c"
    using mod_less_divisor [OF c, of a] by linarith
  finally show ?thesis
    using mod_less_divisor [OF c, of a] by (simp add: ring_dist_def Nat.add_diff_assoc)
qed

lemma add_ring_dist: "b < c \<Longrightarrow> (a + ring_dist c a b) mod c = b"
proof -
  assume b: "b < c"
  then have le: "a mod c \<le> c" by (simp add: less_imp_le)
  have "(a + ring_dist c a b) mod c = (a mod c + (b + c - a mod c)) mod c"
    by (simp add: ring_dist_def mod_simps)
  also have "a mod c + (b + c - a mod c) = b + c" using le by simp
  finally show ?thesis using b by simp
qed

lemma ring_dist_0_iff: "p < c \<Longrightarrow> q < c \<Longrightarrow> ring_dist c p q = 0 \<longleftrightarrow> p = q"
  using add_ring_dist [of q c p] by (auto simp: ring_dist_def)

lemma ring_dist_Suc:
  assumes "p < c" "q < c" "p \<noteq> q"
  shows "ring_dist c (Suc p mod c) q < ring_dist c p q"
proof -
  let ?d = "ring_dist c p q"
  have "?d \<noteq> 0" using assms by (simp add: ring_dist_0_iff)
  then obtain d where d: "?d = Suc d" by (cases ?d) auto
  have dc: "?d < c" using assms by simp
  have q: "(p + Suc d) mod c = q" using add_ring_dist [of q c p] assms d by simp
  have "q = (Suc p mod c + d) mod c" using q by (simp add: mod_simps)
  then have "ring_dist c (Suc p mod c) q = d mod c"
    using ring_dist_add [of c "Suc p mod c" d] assms by simp
  with d dc show ?thesis by simp
qed

end
