(* ===== verification/Util.thy ===== *)
theory Util
  imports CackPrelude
begin

text \<open>
  \<open>src/util.c\<close> (string duplication, case-insensitive comparison, the clock) and the functions of
  the C library that the program calls on strings and numbers: \<open>strtoll\<close>, \<open>atoi\<close>,
  \<open>tolower\<close> and the decimal formats of \<open>snprintf\<close>. The C library is modelled for the "C"
  locale and an LP64 platform, where \<open>atoi\<close> is \<open>(int)strtol\<close>. A string argument is the
  list of its bytes before the terminating NUL.
\<close>

section \<open>String duplication (util.c)\<close>

definition imdb_strdup :: "cstr \<Rightarrow> cstr" where
  "imdb_strdup s = s"

text \<open>
  \<open>imdb_strndup s n\<close> on memory \<open>s\<close>: \<open>strlen\<close>, cut to \<open>n\<close>. The copy holds the bytes
  before the first NUL among the first \<open>n\<close>; memory beyond these does not matter.
\<close>

definition imdb_strndup :: "string \<Rightarrow> nat \<Rightarrow> string" where
  "imdb_strndup s n = takeWhile (\<lambda>c. c \<noteq> NUL) (take n s)"

lemma imdb_strndup_ok [simp]: "cstr_ok (imdb_strndup s n)"
  by (auto simp: imdb_strndup_def cstr_ok_def dest: set_takeWhileD)

lemma imdb_strndup_exact: "cstr_ok v \<Longrightarrow> imdb_strndup (v @ rest) (length v) = v"
  by (auto simp: imdb_strndup_def cstr_ok_def)

section \<open>Case-insensitive comparison (util.c)\<close>

definition c_tolower :: "char \<Rightarrow> int" where
  "c_tolower c = (let n = (of_char c :: int) in if 65 \<le> n \<and> n \<le> 90 then n + 32 else n)"

fun imdb_strcasecmp :: "string \<Rightarrow> string \<Rightarrow> int" where
  "imdb_strcasecmp (a # as) (b # bs) =
     (let ca = c_tolower a; cb = c_tolower b in
      if ca \<noteq> cb then ca - cb else imdb_strcasecmp as bs)"
| "imdb_strcasecmp (a # as) [] = c_tolower a - c_tolower NUL"
| "imdb_strcasecmp [] (b # bs) = c_tolower NUL - c_tolower b"
| "imdb_strcasecmp [] [] = c_tolower NUL - c_tolower NUL"

lemma c_tolower_NUL: "c_tolower c = c_tolower NUL \<longleftrightarrow> c = NUL"
proof
  assume "c_tolower c = c_tolower NUL"
  then have "(of_char c :: int) = 0"
    by (auto simp: c_tolower_def NUL_def Let_def split: if_splits)
  then have "(of_char c :: int) = of_char NUL" by (simp add: NUL_def)
  then show "c = NUL" by (simp only: of_char_eq_iff)
qed simp

lemma strcasecmp_eq_0:
  "cstr_ok s \<Longrightarrow> cstr_ok t \<Longrightarrow> imdb_strcasecmp s t = 0 \<longleftrightarrow> map c_tolower s = map c_tolower t"
  by (induction s t rule: imdb_strcasecmp.induct)
     (auto simp: cstr_ok_def Let_def c_tolower_NUL dest: sym)

section \<open>Reading decimal numbers (strtoll, atoi)\<close>

definition c_isspace :: "char \<Rightarrow> bool" where
  "c_isspace c \<longleftrightarrow> (let n = (of_char c :: nat) in n = 32 \<or> 9 \<le> n \<and> n \<le> 13)"

definition c_isdigit :: "char \<Rightarrow> bool" where
  "c_isdigit c \<longleftrightarrow> (let n = (of_char c :: nat) in 48 \<le> n \<and> n \<le> 57)"

definition digit_val :: "char \<Rightarrow> nat" where
  "digit_val c = of_char c - 48"

definition digits_val :: "string \<Rightarrow> nat" where
  "digits_val ds = foldl (\<lambda>acc c. acc * 10 + digit_val c) 0 ds"

text \<open>The optional sign of a number.\<close>

definition split_sign :: "string \<Rightarrow> bool \<times> string" where
  "split_sign s = (case s of [] \<Rightarrow> (False, [])
     | c # r \<Rightarrow> if c = CHR ''-'' then (True, r) else if c = CHR ''+'' then (False, r) else (False, s))"

text \<open>
  \<open>strtoll(s, &end, 10)\<close>: the value, the memory \<open>end\<close> points to, and whether \<open>errno\<close> is
  set (ERANGE, with the value saturated). Without digits nothing is converted and \<open>end\<close> is
  \<open>s\<close>.
\<close>

definition strtoll :: "string \<Rightarrow> int \<times> string \<times> bool" where
  "strtoll s =
     (let (neg, u) = split_sign (dropWhile c_isspace s);
          ds = takeWhile c_isdigit u;
          rest = dropWhile c_isdigit u
      in if ds = [] then (0, s, False)
         else let v = (if neg then - int (digits_val ds) else int (digits_val ds))
              in if v < INT64_MIN then (INT64_MIN, rest, True)
                 else if v > INT64_MAX then (INT64_MAX, rest, True)
                 else (v, rest, False))"

definition strtoll_val :: "string \<Rightarrow> int" where
  "strtoll_val s = fst (strtoll s)"

definition atoi :: "string \<Rightarrow> int" where
  "atoi s = to_int32 (strtoll_val s)"

section \<open>Printing decimal numbers (snprintf with \<open>%zu\<close>, \<open>%d\<close>, \<open>%lld\<close>)\<close>

definition digit_char :: "nat \<Rightarrow> char" where
  "digit_char d = char_of (48 + d)"

fun dec_nat :: "nat \<Rightarrow> string" where
  "dec_nat n = (if n < 10 then [digit_char n] else dec_nat (n div 10) @ [digit_char (n mod 10)])"

declare dec_nat.simps [simp del]

definition dec_int :: "int \<Rightarrow> string" where
  "dec_int x = (if x < 0 then CHR ''-'' # dec_nat (nat (- x)) else dec_nat (nat x))"

section \<open>What is printed reads back\<close>

lemma of_char_digit_char: "d < 10 \<Longrightarrow> (of_char (digit_char d) :: nat) = 48 + d"
  by (simp add: digit_char_def)

lemma digit_char_facts [simp]:
  assumes "d < 10"
  shows "c_isdigit (digit_char d)" "digit_val (digit_char d) = d"
  using of_char_digit_char [OF assms] assms by (simp_all add: c_isdigit_def digit_val_def)

lemma isdigit_neq:
  assumes "c_isdigit c"
  shows "c \<noteq> CHR ''-''" "c \<noteq> CHR ''+''" "\<not> c_isspace c" "c \<noteq> NUL" "c \<noteq> CR" "c \<noteq> LF"
  using assms by (auto simp: c_isdigit_def c_isspace_def NUL_def CR_def LF_def Let_def)

lemma digits_val_append: "digits_val (xs @ [c]) = digits_val xs * 10 + digit_val c"
  by (simp add: digits_val_def)

lemma dec_nat_props: "dec_nat n \<noteq> [] \<and> (\<forall>c \<in> set (dec_nat n). c_isdigit c) \<and> digits_val (dec_nat n) = n"
proof (induction n rule: dec_nat.induct)
  case (1 n)
  show ?case
  proof (cases "n < 10")
    case True
    then show ?thesis by (simp add: dec_nat.simps [of n] digits_val_def)
  next
    case False
    with 1 show ?thesis
      by (auto simp: dec_nat.simps [of n] digits_val_append)
  qed
qed

lemma dec_nat_nonempty [simp]: "dec_nat n \<noteq> []"
  and dec_nat_digits: "c \<in> set (dec_nat n) \<Longrightarrow> c_isdigit c"
  and digits_val_dec_nat [simp]: "digits_val (dec_nat n) = n"
  using dec_nat_props [of n] by auto

lemma takeWhile_dec_nat:
  assumes "rest = [] \<or> \<not> c_isdigit (hd rest)"
  shows "takeWhile c_isdigit (dec_nat n @ rest) = dec_nat n"
    and "dropWhile c_isdigit (dec_nat n @ rest) = rest"
proof -
  have "takeWhile c_isdigit rest = []" "dropWhile c_isdigit rest = rest"
    using assms by (cases rest; auto)+
  then show "takeWhile c_isdigit (dec_nat n @ rest) = dec_nat n"
    and "dropWhile c_isdigit (dec_nat n @ rest) = rest"
    by (auto simp: dec_nat_digits takeWhile_append dropWhile_append)
qed

lemma dec_nat_hd:
  obtains c cs where "dec_nat n = c # cs" "c_isdigit c"
  using dec_nat_digits [of _ n] by (cases "dec_nat n") auto

lemma strtoll_dec_int:
  assumes "in_int64 x" and "rest = [] \<or> \<not> c_isdigit (hd rest)"
  shows "strtoll (dec_int x @ rest) = (x, rest, False)"
proof (cases "x < 0")
  case True
  have "dropWhile c_isspace (dec_int x @ rest) = dec_int x @ rest"
    using True by (simp add: dec_int_def c_isspace_def)
  moreover have "split_sign (dec_int x @ rest) = (True, dec_nat (nat (- x)) @ rest)"
    using True by (simp add: dec_int_def split_sign_def)
  ultimately show ?thesis
    using assms True takeWhile_dec_nat [OF assms(2)]
    by (simp add: strtoll_def in_int64_def Let_def)
next
  case False
  obtain c cs where c: "dec_nat (nat x) = c # cs" "c_isdigit c" by (rule dec_nat_hd)
  have "dropWhile c_isspace (dec_int x @ rest) = dec_int x @ rest"
    using False c isdigit_neq [OF c(2)] by (simp add: dec_int_def)
  moreover have "split_sign (dec_int x @ rest) = (False, dec_nat (nat x) @ rest)"
    using False c isdigit_neq [OF c(2)] by (simp add: dec_int_def split_sign_def)
  ultimately show ?thesis
    using assms False takeWhile_dec_nat [OF assms(2)]
    by (simp add: strtoll_def in_int64_def Let_def)
qed

lemma strtoll_range: "in_int64 (strtoll_val s)"
  by (auto simp: strtoll_val_def strtoll_def in_int64_def INT64_MIN_def INT64_MAX_def Let_def
      split: prod.splits)

lemma dec_int_of_nat: "dec_int (int n) = dec_nat n"
  by (simp add: dec_int_def)

lemma atoi_dec_nat:
  assumes "int n \<le> INT32_MAX" and "rest = [] \<or> \<not> c_isdigit (hd rest)"
  shows "atoi (dec_nat n @ rest) = int n"
proof -
  have "in_int64 (int n)" using assms(1) by (simp add: in_int64_def INT32_MAX_def INT64_MIN_def INT64_MAX_def)
  from strtoll_dec_int [OF this assms(2)] have "strtoll_val (dec_nat n @ rest) = int n"
    by (simp add: strtoll_val_def dec_int_of_nat)
  then show ?thesis using assms(1) by (simp add: atoi_def)
qed

lemma dec_nat_ok [simp]: "cstr_ok (dec_nat n)"
  using dec_nat_digits [of NUL n] isdigit_neq(4) by (auto simp: cstr_ok_def)

lemma dec_int_ok [simp]: "cstr_ok (dec_int x)"
  using dec_nat_ok by (auto simp: dec_int_def cstr_ok_def NUL_def)

end
