(* ===== verification/DList.thy ===== *)
theory DList
  imports Util
begin

text \<open>
  \<open>src/list.c\<close>: the doubly linked list of strings, on an explicit heap. A node is a heap cell with
  its \<open>prev\<close> and \<open>next\<close> pointers; \<open>make_node\<close> takes a fresh address, \<open>imdb_free\<close>
  removes the cell, and reading a null or freed pointer is a fault. \<open>dll\<close> relates a list on the heap
  to the HOL list of its values; the interface \<open>deque\<close> states what the database relies on and is
  interpreted on the heap operations. The database model then works with the HOL lists.
\<close>

section \<open>Heap and data\<close>

type_synonym addr = nat

record list_node =
  prev :: "addr option"
  "next" :: "addr option"
  node_value :: cstr

record heap =
  cells :: "addr \<Rightarrow> list_node option"
  brk :: addr

record list_t =
  head :: "addr option"
  tail :: "addr option"
  length_of :: nat

definition load :: "heap \<Rightarrow> addr option \<Rightarrow> list_node res" where
  "load h p = (case p of None \<Rightarrow> Inl NullDeref
     | Some a \<Rightarrow> (case cells h a of None \<Rightarrow> Inl DanglingDeref | Some n \<Rightarrow> Inr n))"

definition store :: "heap \<Rightarrow> addr \<Rightarrow> list_node \<Rightarrow> heap" where
  "store h a n = h\<lparr>cells := (cells h)(a := Some n)\<rparr>"

definition free_node :: "heap \<Rightarrow> addr \<Rightarrow> heap" where
  "free_node h a = h\<lparr>cells := (cells h)(a := None)\<rparr>"

section \<open>Operations\<close>

definition list_create :: list_t where
  "list_create = \<lparr>head = None, tail = None, length_of = 0\<rparr>"

definition make_node :: "heap \<Rightarrow> cstr \<Rightarrow> heap \<times> addr" where
  "make_node h v =
     (h\<lparr>cells := (cells h)(brk h := Some \<lparr>prev = None, next = None, node_value = imdb_strdup v\<rparr>),
        brk := Suc (brk h)\<rparr>, brk h)"

definition list_lpush :: "heap \<times> list_t \<Rightarrow> cstr \<Rightarrow> (heap \<times> list_t) res" where
  "list_lpush s v =
     (let (h0, l) = s; (h, n) = make_node h0 v in
      bindR
        (case head l of
           Some old \<Rightarrow>
             bindR (load h (Some n)) (\<lambda>nn.
             let h1 = store h n (nn\<lparr>next := head l\<rparr>) in
             bindR (load h1 (head l)) (\<lambda>on.
             Inr (store h1 old (on\<lparr>prev := Some n\<rparr>), l\<lparr>head := Some n\<rparr>)))
         | None \<Rightarrow> Inr (h, l\<lparr>head := Some n, tail := Some n\<rparr>))
        (\<lambda>(h2, l2). Inr (h2, l2\<lparr>length_of := length_of l2 + 1\<rparr>)))"

definition list_rpush :: "heap \<times> list_t \<Rightarrow> cstr \<Rightarrow> (heap \<times> list_t) res" where
  "list_rpush s v =
     (let (h0, l) = s; (h, n) = make_node h0 v in
      bindR
        (case tail l of
           Some old \<Rightarrow>
             bindR (load h (Some n)) (\<lambda>nn.
             let h1 = store h n (nn\<lparr>prev := tail l\<rparr>) in
             bindR (load h1 (tail l)) (\<lambda>on.
             Inr (store h1 old (on\<lparr>next := Some n\<rparr>), l\<lparr>tail := Some n\<rparr>)))
         | None \<Rightarrow> Inr (h, l\<lparr>head := Some n, tail := Some n\<rparr>))
        (\<lambda>(h2, l2). Inr (h2, l2\<lparr>length_of := length_of l2 + 1\<rparr>)))"

text \<open>The outer option of a pop is the NULL of an empty list, the inner one a NULL value in a node.\<close>

definition list_lpop :: "heap \<times> list_t \<Rightarrow> ((heap \<times> list_t) \<times> cstr option) res" where
  "list_lpop s =
     (let (h, l) = s in
      case head l of
        None \<Rightarrow> Inr ((h, l), None)
      | Some n \<Rightarrow>
          bindR (load h (Some n)) (\<lambda>nn.
          let l1 = l\<lparr>head := next nn\<rparr> in
          bindR
            (case head l1 of
               Some a \<Rightarrow> bindR (load h (Some a)) (\<lambda>an. Inr (store h a (an\<lparr>prev := None\<rparr>), l1))
             | None \<Rightarrow> Inr (h, l1\<lparr>tail := None\<rparr>))
            (\<lambda>(h2, l2). Inr ((free_node h2 n, l2\<lparr>length_of := length_of l2 - 1\<rparr>), Some (node_value nn)))))"

definition list_rpop :: "heap \<times> list_t \<Rightarrow> ((heap \<times> list_t) \<times> cstr option) res" where
  "list_rpop s =
     (let (h, l) = s in
      case tail l of
        None \<Rightarrow> Inr ((h, l), None)
      | Some n \<Rightarrow>
          bindR (load h (Some n)) (\<lambda>nn.
          let l1 = l\<lparr>tail := prev nn\<rparr> in
          bindR
            (case tail l1 of
               Some a \<Rightarrow> bindR (load h (Some a)) (\<lambda>an. Inr (store h a (an\<lparr>next := None\<rparr>), l1))
             | None \<Rightarrow> Inr (h, l1\<lparr>head := None\<rparr>))
            (\<lambda>(h2, l2). Inr ((free_node h2 n, l2\<lparr>length_of := length_of l2 - 1\<rparr>), Some (node_value nn)))))"

definition list_length :: "list_t \<Rightarrow> nat" where
  "list_length l = length_of l"

text \<open>\<open>list_destroy\<close> frees the nodes from the head on; the fuel is the number of nodes visited.\<close>

fun destroy_nodes :: "nat \<Rightarrow> heap \<Rightarrow> addr option \<Rightarrow> heap res" where
  "destroy_nodes fuel h None = Inr h"
| "destroy_nodes 0 h (Some a) = Inl NoReturn"
| "destroy_nodes (Suc fuel) h (Some a) =
     bindR (load h (Some a)) (\<lambda>n. destroy_nodes fuel (free_node h a) (next n))"

definition list_destroy :: "heap \<times> list_t \<Rightarrow> heap res" where
  "list_destroy s = (let (h, l) = s in destroy_nodes (length_of l) h (head l))"

text \<open>The bounds of \<open>list_range\<close> after its index arithmetic on \<open>int\<close>: first index and count.\<close>

definition range_bounds :: "int \<Rightarrow> int \<Rightarrow> int \<Rightarrow> (nat \<times> nat) option" where
  "range_bounds len start stop =
     (let start1 = (if start < 0 then len + start else start);
          stop1 = (if stop < 0 then len + stop else stop);
          start2 = (if start1 < 0 then 0 else start1);
          stop2 = (if stop1 \<ge> len then len - 1 else stop1)
      in if start2 > stop2 \<or> start2 \<ge> len then None
         else Some (nat start2, nat (stop2 - start2 + 1)))"

fun skip_nodes :: "nat \<Rightarrow> heap \<Rightarrow> addr option \<Rightarrow> addr option res" where
  "skip_nodes 0 h p = Inr p"
| "skip_nodes (Suc i) h p = bindR (load h p) (\<lambda>n. skip_nodes i h (next n))"

fun collect_nodes :: "nat \<Rightarrow> heap \<Rightarrow> addr option \<Rightarrow> cstr list res" where
  "collect_nodes 0 h p = Inr []"
| "collect_nodes (Suc i) h p =
     bindR (load h p) (\<lambda>n. bindR (collect_nodes i h (next n)) (\<lambda>vs. Inr (node_value n # vs)))"

definition list_range :: "heap \<times> list_t \<Rightarrow> int \<Rightarrow> int \<Rightarrow> cstr list option res" where
  "list_range s start stop =
     (let (h, l) = s in
      case range_bounds (to_int32 (int (length_of l))) start stop of
        None \<Rightarrow> Inr None
      | Some (lo, n) \<Rightarrow>
          bindR (skip_nodes lo h (head l)) (\<lambda>p. bindR (collect_nodes n h p) (\<lambda>vs. Inr (Some vs))))"

section \<open>A list on the heap\<close>

definition ptr_at :: "addr list \<Rightarrow> nat \<Rightarrow> addr option" where
  "ptr_at as i = (if i < length as then Some (as ! i) else None)"

text \<open>Node \<open>i\<close> of a list with addresses \<open>as\<close> and values \<open>vs\<close>.\<close>

definition node_of :: "addr list \<Rightarrow> cstr list \<Rightarrow> nat \<Rightarrow> list_node" where
  "node_of as vs i = \<lparr>prev = (if i = 0 then None else Some (as ! (i - 1))), next = ptr_at as (Suc i),
                      node_value = vs ! i\<rparr>"

definition nodes_ok :: "heap \<Rightarrow> addr list \<Rightarrow> cstr list \<Rightarrow> bool" where
  "nodes_ok h as vs \<longleftrightarrow> length as = length vs \<and> distinct as \<and>
     (\<forall>i<length as. cells h (as ! i) = Some (node_of as vs i)) \<and> (\<forall>a \<in> set as. a < brk h)"

definition dll :: "heap \<times> list_t \<Rightarrow> cstr list \<Rightarrow> bool" where
  "dll s vs \<longleftrightarrow> (\<exists>as. nodes_ok (fst s) as vs \<and> length_of (snd s) = length vs \<and>
     head (snd s) = ptr_at as 0 \<and>
     tail (snd s) = (if as = [] then None else Some (last as)))"

lemma load_Some: "cells h a = Some n \<Longrightarrow> load h (Some a) = Inr n"
  by (simp add: load_def)

lemma dll_empty: "dll (h, list_create) []"
  by (auto simp: dll_def nodes_ok_def list_create_def ptr_at_def intro: exI [of _ "[]"])

lemma dllE:
  assumes "dll (h, l) vs"
  obtains as where "nodes_ok h as vs" "length_of l = length vs" "head l = ptr_at as 0"
    "tail l = (if as = [] then None else Some (last as))"
  using assms by (auto simp: dll_def)

lemma nodes_ok_inj:
  "nodes_ok h as vs \<Longrightarrow> i < length as \<Longrightarrow> j < length as \<Longrightarrow> as ! i = as ! j \<longleftrightarrow> i = j"
  by (simp add: nodes_ok_def nth_eq_iff_index_eq)

lemma nodes_ok_cell: "nodes_ok h as vs \<Longrightarrow> i < length as \<Longrightarrow> cells h (as ! i) = Some (node_of as vs i)"
  by (simp add: nodes_ok_def)

lemma dll_lpush:
  assumes "dll s vs"
  shows "\<exists>s'. list_lpush s v = Inr s' \<and> dll s' (v # vs)"
proof -
  obtain h l where s: "s = (h, l)" by (cases s)
  from assms [unfolded s] obtain as where ok: "nodes_ok h as vs" and len: "length_of l = length vs"
    and hd: "head l = ptr_at as 0" and tl: "tail l = (if as = [] then None else Some (last as))"
    by (rule dllE)
  let ?n = "brk h"
  have fresh: "?n \<notin> set as" using ok by (auto simp: nodes_ok_def)
  show ?thesis
  proof (cases as)
    case Nil
    with ok hd tl len s show ?thesis
      by (auto simp: list_lpush_def make_node_def imdb_strdup_def dll_def nodes_ok_def ptr_at_def node_of_def
          intro!: exI [of _ "[?n]"])
  next
    case (Cons a as')
    have a: "a \<noteq> ?n" "cells h a = Some (node_of as vs 0)"
      using ok fresh Cons by (auto simp: nodes_ok_def)
    let ?h' = "h\<lparr>cells := (cells h)(?n := Some \<lparr>prev = None, next = Some a, node_value = v\<rparr>,
                   a := Some (node_of as vs 0\<lparr>prev := Some ?n\<rparr>)), brk := Suc ?n\<rparr>"
    have run: "list_lpush s v = Inr (?h', l\<lparr>head := Some ?n, length_of := length_of l + 1\<rparr>)"
      using hd Cons a by (simp add: s list_lpush_def make_node_def imdb_strdup_def load_def store_def ptr_at_def)
    have "nodes_ok ?h' (?n # as) (v # vs)"
      unfolding nodes_ok_def
    proof (intro conjI allI impI)
      fix i assume i: "i < length (?n # as)"
      show "cells ?h' ((?n # as) ! i) = Some (node_of (?n # as) (v # vs) i)"
      proof (cases i)
        case 0
        with a Cons show ?thesis by (simp add: node_of_def ptr_at_def)
      next
        case (Suc j)
        with i have j: "j < length as" by simp
        then have c: "cells h (as ! j) = Some (node_of as vs j)" using ok by (simp add: nodes_ok_def)
        have ne: "as ! j \<noteq> ?n" using fresh j by (metis nth_mem)
        have d: "as ! j = a \<longleftrightarrow> j = 0"
          using nodes_ok_inj [OF ok j, of 0] Cons by simp
        show ?thesis
        proof (cases "j = 0")
          case True
          with Suc Cons ne show ?thesis by (simp add: node_of_def ptr_at_def)
        next
          case False
          with Suc c ne d show ?thesis by (auto simp: node_of_def ptr_at_def nth_Cons')
        qed
      qed
    qed (use ok fresh in \<open>auto simp: nodes_ok_def\<close>)
    with run len tl Cons show ?thesis
      by (auto simp: dll_def ptr_at_def intro!: exI [of _ "?n # as"])
  qed
qed

lemma dll_rpush:
  assumes "dll s vs"
  shows "\<exists>s'. list_rpush s v = Inr s' \<and> dll s' (vs @ [v])"
proof -
  obtain h l where s: "s = (h, l)" by (cases s)
  from assms [unfolded s] obtain as where ok: "nodes_ok h as vs" and len: "length_of l = length vs"
    and hd: "head l = ptr_at as 0" and tl: "tail l = (if as = [] then None else Some (last as))"
    by (rule dllE)
  let ?n = "brk h"
  have fresh: "?n \<notin> set as" using ok by (auto simp: nodes_ok_def)
  have lens: "length as = length vs" using ok by (simp add: nodes_ok_def)
  show ?thesis
  proof (cases "as = []")
    case True
    with ok hd tl len s show ?thesis
      by (auto simp: list_rpush_def make_node_def imdb_strdup_def dll_def nodes_ok_def ptr_at_def node_of_def
          intro!: exI [of _ "[?n]"])
  next
    case False
    define m where "m = length as - 1"
    have m: "m < length as" "length as = Suc m" "last as = as ! m"
      using False by (auto simp: m_def last_conv_nth)
    have "as ! m \<in> set as" using m(1) by (rule nth_mem)
    with fresh have a: "as ! m \<noteq> ?n" by metis
    have am: "cells h (as ! m) = Some (node_of as vs m)" using ok m(1) by (simp add: nodes_ok_def)
    let ?h' = "h\<lparr>cells := (cells h)(?n := Some \<lparr>prev = Some (as ! m), next = None, node_value = v\<rparr>,
                   as ! m := Some (node_of as vs m\<lparr>next := Some ?n\<rparr>)), brk := Suc ?n\<rparr>"
    have run: "list_rpush s v = Inr (?h', l\<lparr>tail := Some ?n, length_of := length_of l + 1\<rparr>)"
      using tl False a am m by (simp add: s list_rpush_def make_node_def imdb_strdup_def load_def store_def)
    have "nodes_ok ?h' (as @ [?n]) (vs @ [v])"
      unfolding nodes_ok_def
    proof (intro conjI allI impI)
      fix i assume i: "i < length (as @ [?n])"
      show "cells ?h' ((as @ [?n]) ! i) = Some (node_of (as @ [?n]) (vs @ [v]) i)"
      proof (cases "i = length as")
        case True
        then have im: "i = Suc m" and lv: "length vs = Suc m" using m(2) lens by simp_all
        show ?thesis using a m(2) by (simp add: im lv node_of_def ptr_at_def nth_append)
      next
        case False
        with i have j: "i < length as" by simp
        have c: "cells h (as ! i) = Some (node_of as vs i)" using ok j by (simp add: nodes_ok_def)
        have ne: "as ! i \<noteq> ?n" using fresh j by (metis nth_mem)
        have d: "as ! i = as ! m \<longleftrightarrow> i = m" using nodes_ok_inj [OF ok j m(1)] .
        show ?thesis
          using m j c ne d lens by (cases "i = m") (auto simp: node_of_def ptr_at_def nth_append)
      qed
    qed (use ok fresh in \<open>auto simp: nodes_ok_def\<close>)
    with run len hd False show ?thesis
      by (auto simp: dll_def ptr_at_def nth_append intro!: exI [of _ "as @ [?n]"])
  qed
qed

lemma nodes_ok_unlink_head:
  assumes ok: "nodes_ok h (a # b # as) (v # w # vs)"
  shows "nodes_ok (free_node (store h b (node_of (a # b # as) (v # w # vs) 1\<lparr>prev := None\<rparr>)) a) (b # as) (w # vs)"
    (is "nodes_ok ?h' _ _")
  unfolding nodes_ok_def
proof (intro conjI allI impI)
  fix i assume i: "i < length (b # as)"
  have c: "cells h ((b # as) ! i) = Some (node_of (a # b # as) (v # w # vs) (Suc i))"
    using ok i by (auto simp: nodes_ok_def dest: spec [of _ "Suc i"])
  have ne: "(b # as) ! i \<noteq> a" using nodes_ok_inj [OF ok, of "Suc i" 0] i by simp
  have d: "(b # as) ! i = b \<longleftrightarrow> i = 0" using nodes_ok_inj [OF ok, of "Suc i" 1] i by simp
  show "cells ?h' ((b # as) ! i) = Some (node_of (b # as) (w # vs) i)"
    using c ne d by (cases i) (auto simp: free_node_def store_def node_of_def ptr_at_def)
qed (use ok in \<open>auto simp: nodes_ok_def free_node_def store_def\<close>)

lemma dll_lpop:
  assumes "dll s (v # vs)"
  shows "\<exists>s'. list_lpop s = Inr (s', Some v) \<and> dll s' vs"
proof -
  obtain h l where s: "s = (h, l)" by (cases s)
  from assms [unfolded s] obtain as0 where ok0: "nodes_ok h as0 (v # vs)" and len: "length_of l = Suc (length vs)"
    and hd: "head l = ptr_at as0 0" and tl: "tail l = (if as0 = [] then None else Some (last as0))"
    by (rule dllE) auto
  then obtain a as where as0: "as0 = a # as" by (cases as0) (auto simp: nodes_ok_def)
  note ok = ok0 [unfolded as0]
  have a: "cells h a = Some (node_of (a # as) (v # vs) 0)" using ok by (auto simp: nodes_ok_def)
  show ?thesis
  proof (cases as)
    case Nil
    with ok have "vs = []" by (auto simp: nodes_ok_def)
    with Nil a hd len as0 s show ?thesis
      by (auto simp: list_lpop_def load_def ptr_at_def node_of_def dll_def nodes_ok_def free_node_def
          intro!: exI [of _ "[]"])
  next
    case (Cons b as')
    with ok obtain w vs' where vs: "vs = w # vs'" by (cases vs) (auto simp: nodes_ok_def)
    note ok2 = ok [unfolded Cons vs]
    have b: "cells h b = Some (node_of (a # b # as') (v # w # vs') 1)"
      using nodes_ok_cell [OF ok2, of 1] by simp
    have run: "list_lpop s = Inr ((free_node (store h b (node_of (a # b # as') (v # w # vs') 1\<lparr>prev := None\<rparr>)) a,
        l\<lparr>head := Some b, length_of := length_of l - 1\<rparr>), Some v)"
      using a b hd as0 Cons vs by (simp add: s list_lpop_def load_def ptr_at_def node_of_def)
    show ?thesis
      using run nodes_ok_unlink_head [OF ok2] len tl as0 Cons vs
      by (auto simp: dll_def ptr_at_def intro!: exI [of _ "b # as'"])
  qed
qed

lemma nodes_ok_unlink_last:
  assumes ok: "nodes_ok h (as @ [b, a]) (vs @ [w, v])"
  shows "nodes_ok (free_node (store h b (node_of (as @ [b, a]) (vs @ [w, v]) (length as)\<lparr>next := None\<rparr>)) a)
    (as @ [b]) (vs @ [w])" (is "nodes_ok ?h' _ _")
  unfolding nodes_ok_def
proof (intro conjI allI impI)
  fix i assume "i < length (as @ [b])"
  then have i: "i \<le> length as" by simp
  have lens: "length vs = length as" using ok by (simp add: nodes_ok_def)
  have same: "(as @ [b]) ! i = (as @ [b, a]) ! i" using i by (auto simp: nth_append)
  have c: "cells h ((as @ [b, a]) ! i) = Some (node_of (as @ [b, a]) (vs @ [w, v]) i)"
    using ok i by (auto simp: nodes_ok_def)
  have ne: "(as @ [b, a]) ! i \<noteq> a" using nodes_ok_inj [OF ok, of i "Suc (length as)"] i by (simp add: nth_append)
  have d: "(as @ [b, a]) ! i = b \<longleftrightarrow> i = length as" using nodes_ok_inj [OF ok, of i "length as"] i by simp
  show "cells ?h' ((as @ [b]) ! i) = Some (node_of (as @ [b]) (vs @ [w]) i)"
    unfolding same using c ne d i lens
    by (cases "i = length as") (auto simp: free_node_def store_def node_of_def ptr_at_def nth_append)
qed (use ok in \<open>auto simp: nodes_ok_def free_node_def store_def\<close>)

lemma dll_rpop:
  assumes "dll s (vs @ [v])"
  shows "\<exists>s'. list_rpop s = Inr (s', Some v) \<and> dll s' vs"
proof -
  obtain h l where s: "s = (h, l)" by (cases s)
  from assms [unfolded s] obtain as0 where ok0: "nodes_ok h as0 (vs @ [v])" and len: "length_of l = Suc (length vs)"
    and hd: "head l = ptr_at as0 0" and tl: "tail l = (if as0 = [] then None else Some (last as0))"
    by (rule dllE) auto
  then obtain a as where as0: "as0 = as @ [a]" by (cases as0 rule: rev_cases) (auto simp: nodes_ok_def)
  note ok = ok0 [unfolded as0]
  have lens: "length as = length vs" using ok by (simp add: nodes_ok_def)
  have a: "cells h a = Some (node_of (as @ [a]) (vs @ [v]) (length as))"
    using nodes_ok_cell [OF ok, of "length as"] by simp
  show ?thesis
  proof (cases as rule: rev_cases)
    case Nil
    with lens have "vs = []" by simp
    with Nil a tl len as0 s show ?thesis
      by (auto simp: list_rpop_def load_def ptr_at_def node_of_def dll_def nodes_ok_def free_node_def
          intro!: exI [of _ "[]"])
  next
    case (snoc as' b)
    with lens obtain vs' w where vs: "vs = vs' @ [w]" by (cases vs rule: rev_cases) auto
    have ok2: "nodes_ok h (as' @ [b, a]) (vs' @ [w, v])" using ok snoc vs by simp
    have len': "length vs' = length as'" using lens snoc vs by simp
    have b: "cells h b = Some (node_of (as' @ [b, a]) (vs' @ [w, v]) (length as'))"
      using nodes_ok_cell [OF ok2, of "length as'"] by simp
    have run: "list_rpop s = Inr ((free_node (store h b
        (node_of (as' @ [b, a]) (vs' @ [w, v]) (length as')\<lparr>next := None\<rparr>)) a,
        l\<lparr>tail := Some b, length_of := length_of l - 1\<rparr>), Some v)"
      using a b tl as0 snoc vs len' by (simp add: s list_rpop_def load_def ptr_at_def node_of_def nth_append)
    show ?thesis
      using run nodes_ok_unlink_last [OF ok2] len hd as0 snoc vs
      by (auto simp: dll_def ptr_at_def nth_append intro!: exI [of _ "as' @ [b]"])
  qed
qed

lemma dll_lpop_empty: "dll s [] \<Longrightarrow> list_lpop s = Inr (s, None)"
  by (cases s) (auto simp: dll_def nodes_ok_def list_lpop_def ptr_at_def)

lemma dll_rpop_empty: "dll s [] \<Longrightarrow> list_rpop s = Inr (s, None)"
  by (cases s) (auto simp: dll_def nodes_ok_def list_rpop_def)

section \<open>Ranges\<close>

lemma skip_nodes_ok:
  "nodes_ok h as vs \<Longrightarrow> i + k \<le> length as \<Longrightarrow> skip_nodes k h (ptr_at as i) = Inr (ptr_at as (i + k))"
proof (induction k arbitrary: i)
  case (Suc k)
  then have "cells h (as ! i) = Some (node_of as vs i)" "i < length as" by (auto simp: nodes_ok_def)
  then have "load h (ptr_at as i) = Inr (node_of as vs i)" by (simp add: load_def ptr_at_def)
  with Suc.IH [of "Suc i"] Suc.prems show ?case by (simp add: node_of_def)
qed simp

lemma collect_nodes_ok:
  "nodes_ok h as vs \<Longrightarrow> i + k \<le> length as \<Longrightarrow> collect_nodes k h (ptr_at as i) = Inr (take k (drop i vs))"
proof (induction k arbitrary: i)
  case (Suc k)
  then have i: "cells h (as ! i) = Some (node_of as vs i)" "i < length as" "length vs = length as"
    by (auto simp: nodes_ok_def)
  then have "load h (ptr_at as i) = Inr (node_of as vs i)" by (simp add: load_def ptr_at_def)
  with Suc.IH [of "Suc i"] Suc.prems i show ?case by (simp add: node_of_def Cons_nth_drop_Suc [symmetric])
qed simp

lemma range_bounds_within:
  "range_bounds (int n) start stop = Some (lo, k) \<Longrightarrow> lo + k \<le> n \<and> 0 < k"
  by (auto simp: range_bounds_def Let_def split: if_splits)

text \<open>The slice a range stands for.\<close>

definition vlist_range :: "cstr list \<Rightarrow> int \<Rightarrow> int \<Rightarrow> cstr list option" where
  "vlist_range vs start stop =
     (case range_bounds (to_int32 (int (length vs))) start stop of
        None \<Rightarrow> None | Some (lo, n) \<Rightarrow> Some (take n (drop lo vs)))"

lemma dll_range:
  assumes "dll s vs" and small: "int (length vs) \<le> INT32_MAX"
  shows "list_range s start stop = Inr (vlist_range vs start stop)"
proof -
  obtain h l where s: "s = (h, l)" by (cases s)
  from assms(1) [unfolded s] obtain as where ok: "nodes_ok h as vs" and len: "length_of l = length vs"
    and hd: "head l = ptr_at as 0" by (rule dllE)
  have lens: "length as = length vs" using ok by (simp add: nodes_ok_def)
  show ?thesis
  proof (cases "range_bounds (int (length vs)) start stop")
    case None
    with small len show ?thesis by (simp add: s list_range_def vlist_range_def)
  next
    case (Some p)
    obtain lo k where p: "p = (lo, k)" by (cases p)
    with Some range_bounds_within [of "length vs" start stop lo k] lens
    have "lo + k \<le> length as" by simp
    with skip_nodes_ok [OF ok, of 0 lo] collect_nodes_ok [OF ok, of lo k] Some p small len hd
    show ?thesis by (simp add: s list_range_def vlist_range_def)
  qed
qed

section \<open>Destruction\<close>

lemma destroy_nodes_ok:
  assumes "distinct as" and "\<forall>i<length as. \<exists>n. cells h (as ! i) = Some n \<and> next n = ptr_at as (Suc i)"
  shows "destroy_nodes (length as) h (ptr_at as 0) =
    Inr (h\<lparr>cells := (\<lambda>a. if a \<in> set as then None else cells h a)\<rparr>)"
  using assms
proof (induction as arbitrary: h)
  case Nil
  then show ?case by (simp add: ptr_at_def)
next
  case (Cons a as)
  let ?h' = "free_node h a"
  from Cons.prems(2) obtain n where n: "cells h a = Some n" "next n = ptr_at (a # as) (Suc 0)"
    by (auto dest: spec [of _ 0])
  have p: "ptr_at (a # as) 0 = Some a" "ptr_at (a # as) (Suc 0) = ptr_at as 0" by (simp_all add: ptr_at_def)
  have "\<exists>m. cells ?h' (as ! i) = Some m \<and> next m = ptr_at as (Suc i)" if i: "i < length as" for i
  proof -
    have "as ! i \<noteq> a" using Cons.prems(1) i by (auto simp: in_set_conv_nth)
    with Cons.prems(2) i show ?thesis
      by (auto dest!: spec [of _ "Suc i"] simp: free_node_def ptr_at_def)
  qed
  with Cons.IH [of ?h'] Cons.prems(1)
  have "destroy_nodes (length as) ?h' (ptr_at as 0) =
      Inr (?h'\<lparr>cells := (\<lambda>b. if b \<in> set as then None else cells ?h' b)\<rparr>)" by simp
  with n p show ?case by (auto simp: load_def free_node_def fun_eq_iff)
qed

lemma list_destroy_ok:
  assumes "dll (h, l) vs"
  shows "\<exists>as. nodes_ok h as vs \<and> head l = ptr_at as 0 \<and>
    list_destroy (h, l) = Inr (h\<lparr>cells := (\<lambda>a. if a \<in> set as then None else cells h a)\<rparr>)"
proof -
  from assms obtain as where ok: "nodes_ok h as vs" and len: "length_of l = length vs"
    and hd: "head l = ptr_at as 0" by (rule dllE)
  have lens: "length as = length vs" using ok by (simp add: nodes_ok_def)
  have "\<forall>i<length as. \<exists>n. cells h (as ! i) = Some n \<and> next n = ptr_at as (Suc i)"
    using nodes_ok_cell [OF ok] by (auto simp: node_of_def)
  with destroy_nodes_ok [of as h] ok len hd lens show ?thesis
    by (auto simp: list_destroy_def nodes_ok_def)
qed

section \<open>The interface of a deque\<close>

datatype list_op = LPush cstr | RPush cstr | LPop | RPop

text \<open>The operations on HOL lists that the database model uses.\<close>

fun vlist_step :: "cstr list \<Rightarrow> list_op \<Rightarrow> cstr list \<times> cstr option" where
  "vlist_step vs (LPush v) = (v # vs, None)"
| "vlist_step vs (RPush v) = (vs @ [v], None)"
| "vlist_step vs LPop = (case vs of [] \<Rightarrow> ([], None) | v # r \<Rightarrow> (r, Some v))"
| "vlist_step vs RPop = (if vs = [] then ([], None) else (butlast vs, Some (last vs)))"

fun vlist_run :: "cstr list \<Rightarrow> list_op list \<Rightarrow> cstr list \<times> cstr option list" where
  "vlist_run vs [] = (vs, [])"
| "vlist_run vs (x # xs) =
     (let (vs1, r) = vlist_step vs x; (vs2, rs) = vlist_run vs1 xs in (vs2, r # rs))"

fun deque_run :: "('s \<Rightarrow> list_op \<Rightarrow> ('s \<times> cstr option) res) \<Rightarrow> 's \<Rightarrow> list_op list \<Rightarrow> ('s \<times> cstr option list) res" where
  "deque_run step s [] = Inr (s, [])"
| "deque_run step s (x # xs) =
     bindR (step s x) (\<lambda>(s1, r). bindR (deque_run step s1 xs) (\<lambda>(s2, rs). Inr (s2, r # rs)))"

fun deque_step ::
    "('s \<Rightarrow> cstr \<Rightarrow> 's res) \<Rightarrow> ('s \<Rightarrow> cstr \<Rightarrow> 's res) \<Rightarrow> ('s \<Rightarrow> ('s \<times> cstr option) res) \<Rightarrow>
     ('s \<Rightarrow> ('s \<times> cstr option) res) \<Rightarrow> 's \<Rightarrow> list_op \<Rightarrow> ('s \<times> cstr option) res" where
  "deque_step lpush rpush lpop rpop s (LPush v) = bindR (lpush s v) (\<lambda>s'. Inr (s', None))"
| "deque_step lpush rpush lpop rpop s (RPush v) = bindR (rpush s v) (\<lambda>s'. Inr (s', None))"
| "deque_step lpush rpush lpop rpop s LPop = lpop s"
| "deque_step lpush rpush lpop rpop s RPop = rpop s"

locale deque =
  fixes rep :: "'s \<Rightarrow> cstr list \<Rightarrow> bool"
    and lpush :: "'s \<Rightarrow> cstr \<Rightarrow> 's res"
    and rpush :: "'s \<Rightarrow> cstr \<Rightarrow> 's res"
    and lpop :: "'s \<Rightarrow> ('s \<times> cstr option) res"
    and rpop :: "'s \<Rightarrow> ('s \<times> cstr option) res"
  assumes lpush_rep: "rep s vs \<Longrightarrow> \<exists>s'. lpush s v = Inr s' \<and> rep s' (v # vs)"
    and rpush_rep: "rep s vs \<Longrightarrow> \<exists>s'. rpush s v = Inr s' \<and> rep s' (vs @ [v])"
    and lpop_rep: "rep s (v # vs) \<Longrightarrow> \<exists>s'. lpop s = Inr (s', Some v) \<and> rep s' vs"
    and rpop_rep: "rep s (vs @ [v]) \<Longrightarrow> \<exists>s'. rpop s = Inr (s', Some v) \<and> rep s' vs"
    and lpop_empty: "rep s [] \<Longrightarrow> lpop s = Inr (s, None)"
    and rpop_empty: "rep s [] \<Longrightarrow> rpop s = Inr (s, None)"
begin

lemma step_refines:
  assumes "rep s vs"
  shows "\<exists>s'. deque_step lpush rpush lpop rpop s x = Inr (s', snd (vlist_step vs x)) \<and> rep s' (fst (vlist_step vs x))"
proof (cases x)
  case (LPush v)
  with lpush_rep [OF assms, of v] show ?thesis by auto
next
  case (RPush v)
  with rpush_rep [OF assms, of v] show ?thesis by auto
next
  case LPop
  with assms lpop_empty lpop_rep show ?thesis by (cases vs) auto
next
  case RPop
  with assms rpop_empty rpop_rep show ?thesis by (cases vs rule: rev_cases) auto
qed

lemma run_refines:
  "rep s vs \<Longrightarrow>
   \<exists>s'. deque_run (deque_step lpush rpush lpop rpop) s xs = Inr (s', snd (vlist_run vs xs)) \<and> rep s' (fst (vlist_run vs xs))"
proof (induction xs arbitrary: s vs)
  case Nil
  then show ?case by simp
next
  case (Cons x xs)
  from step_refines [OF Cons.prems, of x] obtain s1 where
    s1: "deque_step lpush rpush lpop rpop s x = Inr (s1, snd (vlist_step vs x))" "rep s1 (fst (vlist_step vs x))" by blast
  from Cons.IH [OF s1(2)] s1(1) show ?case by (auto simp: split_beta)
qed

end

definition heap_list_step :: "heap \<times> list_t \<Rightarrow> list_op \<Rightarrow> ((heap \<times> list_t) \<times> cstr option) res" where
  "heap_list_step = deque_step list_lpush list_rpush list_lpop list_rpop"

interpretation heap_list: deque dll list_lpush list_rpush list_lpop list_rpop
  by unfold_locales (rule dll_lpush dll_rpush dll_lpop dll_rpop dll_lpop_empty dll_rpop_empty; assumption)+

lemmas heap_list_run_refines = heap_list.run_refines [folded heap_list_step_def]

section \<open>Properties\<close>

text \<open>A list of two nodes, built by the operations.\<close>

definition two_nodes :: "heap \<times> list_t" where
  "two_nodes = (\<lparr>cells = [0 \<mapsto> \<lparr>prev = None, next = Some 1, node_value = Some ''x''\<rparr>,
                        1 \<mapsto> \<lparr>prev = Some 0, next = None, node_value = Some ''y''\<rparr>], brk = 2\<rparr>,
                \<lparr>head = Some 0, tail = Some 1, length_of = 2\<rparr>)"

lemma two_nodes_dll: "dll two_nodes [Some ''x'', Some ''y'']"
  by (auto simp: dll_def two_nodes_def nodes_ok_def ptr_at_def node_of_def less_Suc_eq intro!: exI [of _ "[0, 1]"])

text \<open>C18: any sequence of pushes and pops on the linked nodes runs without touching a null or freed
  pointer and answers what the same sequence answers on a list of values; head, tail, the links in both
  directions and the length stay consistent.\<close>

theorem heap_list_refines_deque:
  assumes "dll s vs"
  shows "\<exists>s'. deque_run heap_list_step s ops = Inr (s', snd (vlist_run vs ops)) \<and> dll s' (fst (vlist_run vs ops))"
  using assms by (rule heap_list_run_refines)

theorem heap_list_refines_deque_witness:
  "\<exists>s'. deque_run heap_list_step two_nodes [RPop, LPush None, RPop, RPop, LPop] =
      Inr (s', [Some (Some ''y''), None, Some (Some ''x''), Some None, None]) \<and> dll s' []"
  using heap_list_refines_deque [OF two_nodes_dll, of "[RPop, LPush None, RPop, RPop, LPop]"] by simp

text \<open>The index a range argument stands for: negative ones count from the end.\<close>

definition range_index :: "nat \<Rightarrow> int \<Rightarrow> int" where
  "range_index n i = (if i < 0 then int n + i else i)"

lemma filter_interval: "List.filter (\<lambda>i. lo \<le> i \<and> i < hi) [0..<n] = [lo..<min hi n]"
  by (induction n) (auto simp: min_def le_Suc_eq)

lemma map_nth_interval: "hi \<le> length vs \<Longrightarrow> map ((!) vs) [lo..<hi] = take (hi - lo) (drop lo vs)"
  by (rule nth_equalityI) auto

lemma vlist_range_slice:
  assumes "int (length vs) \<le> INT32_MAX"
  shows "vlist_range vs start stop =
    (let xs = map ((!) vs) (List.filter (\<lambda>i. range_index (length vs) start \<le> int i \<and>
                                             int i \<le> range_index (length vs) stop) [0..<length vs])
     in if xs = [] then None else Some xs)"
proof -
  let ?n = "length vs" and ?a = "range_index (length vs) start" and ?b = "range_index (length vs) stop"
  define lo where "lo = nat ?a"
  define hi where "hi = min (nat (?b + 1)) ?n"
  have "List.filter (\<lambda>i. ?a \<le> int i \<and> int i \<le> ?b) [0..<?n] = List.filter (\<lambda>i. lo \<le> i \<and> i < nat (?b + 1)) [0..<?n]"
    by (rule filter_cong) (auto simp: lo_def)
  then have slice: "map ((!) vs) (List.filter (\<lambda>i. ?a \<le> int i \<and> int i \<le> ?b) [0..<?n]) = take (hi - lo) (drop lo vs)"
    by (simp add: filter_interval map_nth_interval hi_def)
  have "range_bounds (int ?n) start stop = (if lo < hi then Some (lo, hi - lo) else None)"
    by (auto simp: range_bounds_def range_index_def lo_def hi_def Let_def min_def nat_diff_distrib split: if_splits)
  with slice assms show ?thesis
    by (auto simp: vlist_range_def Let_def hi_def)
qed

text \<open>C29: \<open>list_range\<close> never runs off the nodes, and an element is in its result exactly if its index lies
  between the two bounds, where negative bounds count from the end and bounds outside the list are cut;
  an empty range is NULL.\<close>

theorem list_range_slice:
  assumes "dll s vs" and "int (length vs) \<le> INT32_MAX"
  shows "list_range s start stop =
    Inr (let xs = map ((!) vs) (List.filter (\<lambda>i. range_index (length vs) start \<le> int i \<and>
                                             int i \<le> range_index (length vs) stop) [0..<length vs])
         in if xs = [] then None else Some xs)"
  using dll_range [OF assms] vlist_range_slice [OF assms(2)] by simp

theorem list_range_slice_witness:
  "list_range two_nodes (- 1) 7 = Inr (Some [Some ''y''])"
  using list_range_slice [OF two_nodes_dll, of "-1" 7] by (simp add: INT32_MAX_def range_index_def upt_rec)

text \<open>\<open>list_destroy\<close> frees each node of the list once and no other, and ends without reading a freed
  node.\<close>

theorem list_destroy_frees_nodes:
  assumes "dll (h, l) vs"
  shows "\<exists>as. nodes_ok h as vs \<and> head l = ptr_at as 0 \<and>
    list_destroy (h, l) = Inr (h\<lparr>cells := (\<lambda>a. if a \<in> set as then None else cells h a)\<rparr>)"
  using list_destroy_ok [OF assms] by blast

theorem list_destroy_frees_nodes_witness:
  "\<exists>as. nodes_ok (fst two_nodes) as [Some ''x'', Some ''y''] \<and> head (snd two_nodes) = ptr_at as 0 \<and>
    list_destroy (fst two_nodes, snd two_nodes) =
      Inr (fst two_nodes\<lparr>cells := (\<lambda>a. if a \<in> set as then None else cells (fst two_nodes) a)\<rparr>)"
  by (rule list_destroy_frees_nodes) (simp add: two_nodes_dll)

end
