(* ===== verification/Objects.thy ===== *)
theory Objects
  imports DList
begin

text \<open>
  \<open>src/object.c\<close>: the values of the database. A value is a string, a 64-bit integer or a list of
  strings; the tagged union of the code is a datatype. A string pointer can be NULL (\<open>None\<close>),
  because the command handlers pass on whatever \<open>get_arg\<close> returns. A list is the sequence of its
  values (theory \<open>DList\<close> relates it to the nodes on the heap). \<open>obj_free\<close> is in \<open>Database_Memory\<close>.
\<close>

datatype dbobj = OBJ_STRING cstr | OBJ_INT int | OBJ_LIST "cstr list"

definition obj_create_string :: "cstr \<Rightarrow> dbobj" where
  "obj_create_string str = OBJ_STRING (imdb_strdup str)"

definition obj_create_int :: "int \<Rightarrow> dbobj" where
  "obj_create_int num = OBJ_INT num"

definition obj_create_list :: dbobj where
  "obj_create_list = OBJ_LIST []"

definition obj_try_parse_int :: "cstr \<Rightarrow> int option" where
  "obj_try_parse_int str =
     (case str of
        None \<Rightarrow> None
      | Some s \<Rightarrow>
          if s = [] then None
          else (let (val, rest, erange) = strtoll s in if erange \<or> rest \<noteq> [] then None else Some val))"

definition obj_get_string :: "dbobj option \<Rightarrow> cstr" where
  "obj_get_string p = (case p of Some (OBJ_STRING s) \<Rightarrow> s | _ \<Rightarrow> None)"

text \<open>The object \<open>db_set\<close> stores for a value.\<close>

definition obj_of_value :: "cstr \<Rightarrow> dbobj" where
  "obj_of_value value =
     (case obj_try_parse_int value of Some num \<Rightarrow> obj_create_int num | None \<Rightarrow> obj_create_string value)"

section \<open>Well-formed objects\<close>

fun obj_ok :: "dbobj \<Rightarrow> bool" where
  "obj_ok (OBJ_STRING None) = False"
| "obj_ok (OBJ_STRING (Some s)) = cstr_ok s"
| "obj_ok (OBJ_INT n) = in_int64 n"
| "obj_ok (OBJ_LIST vs) = (\<forall>v \<in> set vs. \<exists>s. v = Some s \<and> cstr_ok s)"

lemma strtoll_components:
  "strtoll s = (v, rest, e) \<Longrightarrow> in_int64 v"
  using strtoll_range [of s] by (simp add: strtoll_val_def)

lemma try_parse_int_range: "obj_try_parse_int str = Some n \<Longrightarrow> in_int64 n"
  by (auto simp: obj_try_parse_int_def split: option.splits if_splits prod.splits dest: strtoll_components)

lemma try_parse_dec_int: "in_int64 n \<Longrightarrow> obj_try_parse_int (Some (dec_int n)) = Some n"
  using strtoll_dec_int [of n "[]"] by (auto simp: obj_try_parse_int_def dec_int_def)

lemma obj_of_value_ok: "cstr_ok v \<Longrightarrow> obj_ok (obj_of_value (Some v))"
  by (auto simp: obj_of_value_def obj_create_int_def obj_create_string_def imdb_strdup_def
      split: option.splits intro: try_parse_int_range)

end
