(* ===== verification/HashTable.thy ===== *)
theory HashTable
  imports Util
begin

text \<open>
  \<open>src/hashtable.c\<close>: the open-addressing table with Robin Hood probing and tombstones. This
  theory holds the data and the operations as the code has them; the theorems are in
  \<open>HashTable_Wf\<close> and \<open>HashTable_Map\<close>.

  A slot's \<open>occupied\<close> field (0 empty, 1 occupied, 2 tombstone) becomes a datatype; the
  fields of a free slot are never read. Values (\<open>void *\<close>) are a type parameter;
  \<open>free_fn\<close>, which only returns memory, is part of \<open>HashTable_Memory\<close>. \<open>size_t\<close> counters are
  natural numbers: they count slots, so they stay far below \<open>2^64\<close>. The probe loops, which have
  no exit condition in the code, are partial functions whose \<open>None\<close> means that they do not end.
\<close>

section \<open>Data\<close>

datatype 'v ht_entry = HtEmpty | HtOccupied string "32 word" 'v | HtTombstone

record 'v hashtable =
  entries :: "'v ht_entry list"
  capacity :: nat
  size_of :: nat
  tombstones :: nat

definition HT_INITIAL_CAP :: nat where "HT_INITIAL_CAP = 64"
definition HT_MIN_CAP :: nat where "HT_MIN_CAP = 64"

section \<open>Hashing and probing\<close>

text \<open>FNV-1a on 32-bit words; the multiplication wraps.\<close>

fun fnv_loop :: "32 word \<Rightarrow> string \<Rightarrow> 32 word" where
  "fnv_loop h [] = h"
| "fnv_loop h (c # cs) = fnv_loop ((h XOR of_char c) * 16777619) cs"

definition ht_hash :: "string \<Rightarrow> 32 word" where
  "ht_hash key = fnv_loop 2166136261 key"

definition probe_index :: "nat \<Rightarrow> 32 word \<Rightarrow> nat \<Rightarrow> nat" where
  "probe_index cap hash i = (unat hash + i) AND (cap - 1)"

definition probe_distance :: "nat \<Rightarrow> 32 word \<Rightarrow> nat \<Rightarrow> nat" where
  "probe_distance cap hash slot = (slot + cap - (unat hash AND (cap - 1))) AND (cap - 1)"

section \<open>Creating a table\<close>

definition empty_table :: "nat \<Rightarrow> 'v hashtable" where
  "empty_table cap = \<lparr>entries = replicate cap HtEmpty, capacity = cap, size_of = 0, tombstones = 0\<rparr>"

text \<open>The capacity is rounded up to a power of two by doubling from 1.\<close>

definition ht_create :: "nat \<Rightarrow> 'v hashtable option" where
  "ht_create initial_capacity =
     (let initial = (if initial_capacity < HT_INITIAL_CAP then HT_INITIAL_CAP else initial_capacity)
      in case grow_cap initial 1 of None \<Rightarrow> None | Some cap \<Rightarrow> Some (empty_table cap))"

section \<open>Lookup\<close>

text \<open>The result is the slot whose entry the code returns a pointer to, or NULL.\<close>

partial_function (option) ht_find_loop ::
    "'v ht_entry list \<Rightarrow> nat \<Rightarrow> string \<Rightarrow> 32 word \<Rightarrow> nat \<Rightarrow> nat option option" where
  "ht_find_loop es cap key h i =
     (let idx = probe_index cap h i in
      case es ! idx of
        HtEmpty \<Rightarrow> Some None
      | HtTombstone \<Rightarrow> ht_find_loop es cap key h (Suc i)
      | HtOccupied k eh v \<Rightarrow>
          if i > probe_distance cap eh idx then Some None
          else if eh = h \<and> k = key then Some (Some idx)
          else ht_find_loop es cap key h (Suc i))"

definition ht_find :: "'v hashtable \<Rightarrow> string \<Rightarrow> nat option option" where
  "ht_find ht key = ht_find_loop (entries ht) (capacity ht) key (ht_hash key) 0"

text \<open>The value of the entry a pointer refers to.\<close>

definition entry_value :: "'v hashtable \<Rightarrow> nat \<Rightarrow> 'v option" where
  "entry_value ht idx =
     (case entries ht ! idx of HtOccupied k eh v \<Rightarrow> Some v | _ \<Rightarrow> None)"

definition ht_get :: "'v hashtable \<Rightarrow> string \<Rightarrow> 'v option option" where
  "ht_get ht key =
     (case ht_find ht key of None \<Rightarrow> None
      | Some None \<Rightarrow> Some None
      | Some (Some idx) \<Rightarrow> Some (entry_value ht idx))"

definition ht_get_entry :: "'v hashtable \<Rightarrow> string \<Rightarrow> nat option option" where
  "ht_get_entry ht key = ht_find ht key"

definition ht_exists :: "'v hashtable \<Rightarrow> string \<Rightarrow> int option" where
  "ht_exists ht key =
     (case ht_find ht key of None \<Rightarrow> None | Some p \<Rightarrow> Some (if p \<noteq> None then 1 else 0))"

definition ht_size :: "'v hashtable \<Rightarrow> nat" where
  "ht_size ht = size_of ht"

text \<open>
  Writing through the value pointer of an entry, which the database does for counters, lists and
  expiry times.
\<close>

definition set_entry_value :: "'v hashtable \<Rightarrow> nat \<Rightarrow> 'v \<Rightarrow> 'v hashtable" where
  "set_entry_value ht idx w =
     (case entries ht ! idx of
        HtOccupied k eh v \<Rightarrow> ht\<lparr>entries := (entries ht)[idx := HtOccupied k eh w]\<rparr>
      | _ \<Rightarrow> ht)"

section \<open>Resizing\<close>

text \<open>
  The new slots hold no tombstone; the branch for one is there for totality only.
  The inner loop places one entry \<open>(k, h, v)\<close> in the new slots. It is the Robin Hood loop:
  when the entry in the way is closer to its home than the one in hand, the two are swapped, and the
  probe goes on with the other entry and the same counter \<open>j\<close>.
\<close>

partial_function (option) ht_resize_insert ::
    "nat \<Rightarrow> 'v ht_entry list \<Rightarrow> string \<Rightarrow> 32 word \<Rightarrow> 'v \<Rightarrow> nat \<Rightarrow> 'v ht_entry list option" where
  "ht_resize_insert cap es k h v j =
     (let idx = probe_index cap h j in
      case es ! idx of
        HtEmpty \<Rightarrow> Some (es[idx := HtOccupied k h v])
      | HtTombstone \<Rightarrow> ht_resize_insert cap es k h v (Suc j)
      | HtOccupied ek eh ev \<Rightarrow>
          if probe_distance cap h idx > probe_distance cap eh idx
          then ht_resize_insert cap (es[idx := HtOccupied k h v]) ek eh ev (Suc j)
          else ht_resize_insert cap es k h v (Suc j))"

fun ht_rehash :: "nat \<Rightarrow> 'v ht_entry list \<Rightarrow> 'v ht_entry list \<Rightarrow> nat \<Rightarrow> ('v ht_entry list \<times> nat) option" where
  "ht_rehash cap [] es n = Some (es, n)"
| "ht_rehash cap (HtOccupied k h v # old) es n =
     (case ht_resize_insert cap es k h v 0 of None \<Rightarrow> None
      | Some es' \<Rightarrow> ht_rehash cap old es' (Suc n))"
| "ht_rehash cap (_ # old) es n = ht_rehash cap old es n"

definition ht_resize :: "'v hashtable \<Rightarrow> nat \<Rightarrow> 'v hashtable option" where
  "ht_resize ht new_cap0 =
     (let new_cap = (if new_cap0 < HT_MIN_CAP then HT_MIN_CAP else new_cap0) in
      case ht_rehash new_cap (entries ht) (replicate new_cap HtEmpty) 0 of
        None \<Rightarrow> None
      | Some (es, n) \<Rightarrow> Some \<lparr>entries = es, capacity = new_cap, size_of = n, tombstones = 0\<rparr>)"

section \<open>Insertion\<close>

text \<open>
  The loop of \<open>ht_set\<close>. \<open>key\<close> is the argument, which every occupied slot is compared
  with; \<open>(nk, h, nv)\<close> is the entry in hand, which a swap replaces. The result carries the
  returned \<open>is_new\<close>.
\<close>

partial_function (option) ht_set_loop ::
    "string \<Rightarrow> 'v hashtable \<Rightarrow> string \<Rightarrow> 32 word \<Rightarrow> 'v \<Rightarrow> int \<Rightarrow> nat \<Rightarrow> ('v hashtable \<times> int) option" where
  "ht_set_loop key ht nk h nv is_new i =
     (let cap = capacity ht; es = entries ht; idx = probe_index cap h i in
      case es ! idx of
        HtEmpty \<Rightarrow>
          Some (ht\<lparr>entries := es[idx := HtOccupied nk h nv], size_of := size_of ht + 1\<rparr>, is_new)
      | HtTombstone \<Rightarrow>
          Some (ht\<lparr>entries := es[idx := HtOccupied nk h nv], size_of := size_of ht + 1,
                   tombstones := tombstones ht - 1\<rparr>, is_new)
      | HtOccupied ek eh ev \<Rightarrow>
          if eh = h \<and> ek = key
          then Some (ht\<lparr>entries := es[idx := HtOccupied ek eh nv]\<rparr>, 0)
          else if probe_distance cap h idx > probe_distance cap eh idx
          then ht_set_loop key (ht\<lparr>entries := es[idx := HtOccupied nk h nv]\<rparr>) ek eh ev 1 (Suc i)
          else ht_set_loop key ht nk h nv is_new (Suc i))"

text \<open>\<open>(size_t)(HT_LOAD_HIGH * 100)\<close> is 70 and \<open>(size_t)(HT_LOAD_LOW * 100)\<close> is 20.\<close>

definition load_high :: "'v hashtable \<Rightarrow> bool" where
  "load_high ht \<longleftrightarrow> (size_of ht + tombstones ht + 1) * 100 div capacity ht > 70"

definition load_low :: "'v hashtable \<Rightarrow> bool" where
  "load_low ht \<longleftrightarrow> capacity ht > HT_MIN_CAP \<and> size_of ht * 100 div capacity ht < 20"

definition ht_set :: "'v hashtable \<Rightarrow> string \<Rightarrow> 'v \<Rightarrow> ('v hashtable \<times> int) option" where
  "ht_set ht key v =
     (case (if load_high ht then ht_resize ht (capacity ht * 2) else Some ht) of
        None \<Rightarrow> None
      | Some ht1 \<Rightarrow> ht_set_loop key ht1 key (ht_hash key) v 1 0)"

section \<open>Deletion\<close>

definition bury :: "'v hashtable \<Rightarrow> nat \<Rightarrow> 'v hashtable" where
  "bury ht idx = ht\<lparr>entries := (entries ht)[idx := HtTombstone], size_of := size_of ht - 1,
                    tombstones := tombstones ht + 1\<rparr>"

definition ht_delete :: "'v hashtable \<Rightarrow> string \<Rightarrow> ('v hashtable \<times> int) option" where
  "ht_delete ht key =
     (case ht_find ht key of
        None \<Rightarrow> None
      | Some None \<Rightarrow> Some (ht, 0)
      | Some (Some idx) \<Rightarrow>
          let ht1 = bury ht idx in
          if load_low ht1
          then (case ht_resize ht1 (capacity ht1 div 2) of None \<Rightarrow> None | Some ht2 \<Rightarrow> Some (ht2, 1))
          else Some (ht1, 1))"

section \<open>Iteration\<close>

text \<open>One call of \<open>ht_iter_next\<close>: the advanced index and the slot found, if any.\<close>

function ht_iter_next :: "'v hashtable \<Rightarrow> nat \<Rightarrow> nat \<times> nat option" where
  "ht_iter_next ht index =
     (if index < capacity ht
      then (case entries ht ! index of
              HtOccupied k h v \<Rightarrow> (Suc index, Some index)
            | _ \<Rightarrow> ht_iter_next ht (Suc index))
      else (index, None))"
  by pat_completeness auto
termination
  by (relation "measure (\<lambda>(ht, index). capacity ht - index)") auto

declare ht_iter_next.simps [simp del]

declare ht_find_loop.simps [code] ht_resize_insert.simps [code] ht_set_loop.simps [code]

text \<open>Equations to evaluate the operations on concrete tables.\<close>

lemmas ht_eval = empty_table_def ht_set_def ht_delete_def ht_find_def ht_get_def entry_value_def
  load_high_def load_low_def HT_MIN_CAP_def bury_def ht_hash_def ht_set_loop.simps
  ht_find_loop.simps probe_index_def probe_distance_def

end
