(* ===== verification/HashTable_Wf.thy ===== *)
theory HashTable_Wf
  imports HashTable
begin

text \<open>
  Well-formedness of the hash table and total correctness of its operations: every probe loop ends,
  the counters stay exact, the load stays bounded and the stored hashes stay those of the keys; and
  what happens to the entries as a whole (\<open>ht_bag\<close>), whatever order the probing leaves them in.
\<close>

section \<open>Counting slots\<close>

fun occ :: "'v ht_entry \<Rightarrow> nat" where
  "occ (HtOccupied k h v) = 1"
| "occ _ = 0"

fun tomb :: "'v ht_entry \<Rightarrow> nat" where
  "tomb HtTombstone = 1"
| "tomb _ = 0"

fun entry_bag :: "'v ht_entry \<Rightarrow> (string \<times> 'v) multiset" where
  "entry_bag (HtOccupied k h v) = {#(k, v)#}"
| "entry_bag _ = {#}"

definition occs :: "'v ht_entry list \<Rightarrow> nat" where "occs es = sum_list (map occ es)"
definition tombs :: "'v ht_entry list \<Rightarrow> nat" where "tombs es = sum_list (map tomb es)"

definition slots_bag :: "'v ht_entry list \<Rightarrow> (string \<times> 'v) multiset" where
  "slots_bag es = sum_list (map entry_bag es)"

definition ht_bag :: "'v hashtable \<Rightarrow> (string \<times> 'v) multiset" where
  "ht_bag ht = slots_bag (entries ht)"

lemma occs_update: "i < length es \<Longrightarrow> occs (es[i := e]) + occ (es ! i) = occs es + occ e"
  unfolding occs_def by (rule sum_list_map_update)

lemma tombs_update: "i < length es \<Longrightarrow> tombs (es[i := e]) + tomb (es ! i) = tombs es + tomb e"
  unfolding tombs_def by (rule sum_list_map_update)

lemma bag_update: "i < length es \<Longrightarrow> slots_bag (es[i := e]) + entry_bag (es ! i) = slots_bag es + entry_bag e"
  unfolding slots_bag_def by (rule sum_list_map_update)

lemma counts_replicate [simp]:
  "occs (replicate n HtEmpty) = 0" "tombs (replicate n HtEmpty) = 0" "slots_bag (replicate n HtEmpty) = {#}"
  by (induction n) (simp_all add: occs_def tombs_def slots_bag_def)

lemma counts_Cons [simp]:
  "occs (e # es) = occ e + occs es" "tombs (e # es) = tomb e + tombs es"
  "slots_bag (e # es) = entry_bag e + slots_bag es"
  by (simp_all add: occs_def tombs_def slots_bag_def)

lemma counts_Nil [simp]: "occs [] = 0" "tombs [] = 0" "slots_bag [] = {#}"
  by (simp_all add: occs_def tombs_def slots_bag_def)

lemma occ_tomb_le: "occ e + tomb e \<le> 1"
  by (cases e) auto

lemma size_slots_bag: "size (slots_bag es) = occs es"
proof (induction es)
  case (Cons e es)
  then show ?case by (cases e) auto
qed simp

lemma occs_pos: "i < length es \<Longrightarrow> occ (es ! i) \<le> occs es"
proof (induction es arbitrary: i)
  case (Cons e es)
  then show ?case by (cases i) (auto simp: trans_le_add2)
qed simp

lemma free_slot:
  assumes "occs es < length es"
  obtains f where "f < length es" "occ (es ! f) = 0"
proof -
  have "\<exists>f<length es. occ (es ! f) = 0" using assms
  proof (induction es)
    case (Cons e es)
    show ?case
    proof (cases "occ e = 0")
      case True
      then show ?thesis by (intro exI [of _ 0]) simp
    next
      case False
      with Cons obtain f where "f < length es" "occ (es ! f) = 0" by auto
      then show ?thesis by (intro exI [of _ "Suc f"]) simp
    qed
  qed simp
  with that show ?thesis by blast
qed

lemma empty_slot:
  assumes "occs es + tombs es < length es"
  obtains f where "f < length es" "es ! f = HtEmpty"
proof -
  have "\<exists>f<length es. es ! f = HtEmpty" using assms
  proof (induction es)
    case (Cons e es)
    show ?case
    proof (cases e)
      case HtEmpty
      then show ?thesis by (intro exI [of _ 0]) simp
    next
      case HtOccupied
      with Cons obtain f where "f < length es" "es ! f = HtEmpty" by auto
      then show ?thesis by (intro exI [of _ "Suc f"]) simp
    next
      case HtTombstone
      with Cons obtain f where "f < length es" "es ! f = HtEmpty" by auto
      then show ?thesis by (intro exI [of _ "Suc f"]) simp
    qed
  qed simp
  with that show ?thesis by blast
qed

lemma in_slots_bag: "(k, v) \<in># slots_bag es \<longleftrightarrow> (\<exists>s<length es. \<exists>h. es ! s = HtOccupied k h v)"
proof (induction es)
  case (Cons e es)
  then show ?case by (cases e) (auto simp: less_Suc_eq_0_disj)
qed simp

section \<open>Well-formed slots\<close>

definition table_cap :: "nat \<Rightarrow> bool" where
  "table_cap cap \<longleftrightarrow> (\<exists>n\<ge>6. cap = 2 ^ n)"

lemma table_cap_pos: "table_cap cap \<Longrightarrow> 64 \<le> cap"
  unfolding table_cap_def using power_increasing [of 6 _ "2::nat"] by auto

lemma table_cap_gt0 [simp]: "table_cap cap \<Longrightarrow> 0 < cap"
  using table_cap_pos by fastforce

lemma table_cap_64 [simp]: "table_cap 64"
  unfolding table_cap_def by (rule exI [of _ 6]) simp

lemma table_cap_double: "table_cap cap \<Longrightarrow> table_cap (cap * 2)"
  unfolding table_cap_def by (metis Suc_leD Suc_le_mono le_SucI power_Suc2)

lemma table_cap_half: "table_cap cap \<Longrightarrow> cap > 64 \<Longrightarrow> table_cap (cap div 2) \<and> cap = 2 * (cap div 2)"
proof -
  assume "table_cap cap" and gt: "cap > 64"
  then obtain n where n: "6 \<le> n" "cap = 2 ^ n" by (auto simp: table_cap_def)
  with gt have "n \<noteq> 6" by auto
  with n obtain m where "n = Suc m" "6 \<le> m" by (cases n) auto
  with n show ?thesis by (auto simp: table_cap_def)
qed

lemma probe_index_ring: "table_cap cap \<Longrightarrow> probe_index cap h i = (unat h + i) mod cap"
  by (auto simp: table_cap_def probe_index_def and_mask_mod simp del: One_nat_def)

lemma probe_distance_ring: "table_cap cap \<Longrightarrow> probe_distance cap h s = ring_dist cap (unat h) s"
  by (auto simp: table_cap_def probe_distance_def ring_dist_def and_mask_mod simp del: One_nat_def)

lemma probe_index_less [simp]: "table_cap cap \<Longrightarrow> probe_index cap h i < cap"
  by (simp add: probe_index_ring)

lemma probe_distance_less [simp]: "table_cap cap \<Longrightarrow> probe_distance cap h s < cap"
  by (simp add: probe_distance_ring)

lemma probe_distance_index: "table_cap cap \<Longrightarrow> probe_distance cap h (probe_index cap h i) = i mod cap"
  by (simp add: probe_distance_ring probe_index_ring ring_dist_add)

lemma probe_index_distance: "table_cap cap \<Longrightarrow> s < cap \<Longrightarrow> probe_index cap h (probe_distance cap h s) = s"
  by (simp add: probe_distance_ring probe_index_ring add_ring_dist)

lemma probe_index_Suc: "table_cap cap \<Longrightarrow> probe_index cap h (Suc i) = Suc (probe_index cap h i) mod cap"
  by (simp add: probe_index_ring mod_simps)

definition slots_ok :: "nat \<Rightarrow> 'v ht_entry list \<Rightarrow> bool" where
  "slots_ok cap es \<longleftrightarrow> table_cap cap \<and> length es = cap \<and>
     (\<forall>k h v. HtOccupied k h v \<in> set es \<longrightarrow> h = ht_hash k)"

lemma slots_okD:
  assumes "slots_ok cap es"
  shows "table_cap cap" "length es = cap"
    and "s < cap \<Longrightarrow> es ! s = HtOccupied k h v \<Longrightarrow> h = ht_hash k"
  using assms by (auto simp: slots_ok_def) (metis nth_mem)

lemma slots_ok_update:
  assumes "slots_ok cap es" and "h = ht_hash k"
  shows "slots_ok cap (es[i := HtOccupied k h v])"
  using assms set_update_subset_insert [of es i "HtOccupied k h v"] by (fastforce simp: slots_ok_def)

lemma slots_ok_tomb: "slots_ok cap es \<Longrightarrow> slots_ok cap (es[i := HtTombstone])"
  using set_update_subset_insert [of es i "HtTombstone"] by (fastforce simp: slots_ok_def)

lemma slots_ok_empty: "table_cap cap \<Longrightarrow> slots_ok cap (replicate cap HtEmpty)"
  by (auto simp: slots_ok_def)

definition load_ok :: "'v hashtable \<Rightarrow> bool" where
  "load_ok ht \<longleftrightarrow> (size_of ht + tombstones ht) * 100 div capacity ht \<le> 70"

lemma load_ok_entries [simp]: "load_ok (ht\<lparr>entries := es\<rparr>) = load_ok ht"
  by (simp add: load_ok_def)

definition wf_ht :: "'v hashtable \<Rightarrow> bool" where
  "wf_ht ht \<longleftrightarrow> slots_ok (capacity ht) (entries ht) \<and> size_of ht = occs (entries ht) \<and>
     tombstones ht = tombs (entries ht) \<and> load_ok ht"

lemma wf_htD:
  assumes "wf_ht ht"
  shows "slots_ok (capacity ht) (entries ht)" "table_cap (capacity ht)"
    "length (entries ht) = capacity ht"
    "size_of ht = occs (entries ht)" "tombstones ht = tombs (entries ht)"
  using assms by (auto simp: wf_ht_def slots_ok_def)

lemma load_bound: "0 < (c::nat) \<Longrightarrow> n * 100 div c \<le> 70 \<Longrightarrow> n < c"
proof (rule ccontr)
  assume c: "0 < c" and l: "n * 100 div c \<le> 70" and "\<not> n < c"
  then have "100 * c div c \<le> n * 100 div c" by (intro div_le_mono) simp
  with c l show False by simp
qed

lemma wf_ht_room:
  assumes "wf_ht ht"
  shows "size_of ht + tombstones ht < capacity ht"
proof -
  have "(size_of ht + tombstones ht) * 100 div capacity ht \<le> 70"
    using assms unfolding wf_ht_def load_ok_def by blast
  with table_cap_gt0 [OF wf_htD(2) [OF assms]] show ?thesis by (rule load_bound)
qed

lemma wf_ht_empty_slot:
  assumes "wf_ht ht"
  obtains f where "f < capacity ht" "entries ht ! f = HtEmpty"
proof -
  have "size_of ht + tombstones ht < capacity ht" using assms by (rule wf_ht_room)
  then have "occs (entries ht) + tombs (entries ht) < length (entries ht)"
    using wf_htD [OF assms] by simp
  then obtain f where "f < length (entries ht)" "entries ht ! f = HtEmpty"
    by (rule empty_slot)
  with wf_htD(3) [OF assms] that show ?thesis by simp
qed

section \<open>Lookup ends, and finds only what is there\<close>

lemma ht_find_loop_total:
  assumes "slots_ok cap es" and "f < cap" and "es ! f = HtEmpty"
  shows "\<exists>r. ht_find_loop es cap key h i = Some r \<and>
           (\<forall>s. r = Some s \<longrightarrow> s < cap \<and> (\<exists>v. es ! s = HtOccupied key h v))"
proof (induction "ring_dist cap (probe_index cap h i) f" arbitrary: i rule: less_induct)
  case less
  let ?idx = "probe_index cap h i"
  have cap: "table_cap cap" using assms(1) by (rule slots_okD)
  have step: "es ! ?idx \<noteq> HtEmpty \<Longrightarrow>
      ring_dist cap (probe_index cap h (Suc i)) f < ring_dist cap ?idx f"
    using assms cap by (subst probe_index_Suc) (auto intro!: ring_dist_Suc)
  show ?case
  proof (cases "es ! ?idx")
    case HtEmpty
    then show ?thesis by (simp add: ht_find_loop.simps [of es cap key h i])
  next
    case (HtOccupied k eh v)
    with less [OF step] cap show ?thesis
      by (auto simp: ht_find_loop.simps [of es cap key h i] Let_def)
  next
    case HtTombstone
    with less [OF step] show ?thesis
      by (auto simp: ht_find_loop.simps [of es cap key h i] Let_def)
  qed
qed

lemma ht_find_total:
  assumes "wf_ht ht"
  obtains r where "ht_find ht key = Some r"
    and "\<And>s. r = Some s \<Longrightarrow> s < capacity ht \<and> (\<exists>v. entries ht ! s = HtOccupied key (ht_hash key) v)"
proof -
  obtain f where "f < capacity ht" "entries ht ! f = HtEmpty"
    using assms by (rule wf_ht_empty_slot)
  from ht_find_loop_total [OF wf_htD(1) [OF assms] this] that show ?thesis
    unfolding ht_find_def by blast
qed

lemma ht_find_SomeD:
  assumes "wf_ht ht" "ht_find ht key = Some (Some s)"
  shows "s < capacity ht" "\<exists>v. entries ht ! s = HtOccupied key (ht_hash key) v"
  using assms ht_find_total [OF assms(1), of key] by (metis option.inject)+

section \<open>The Robin Hood loops end\<close>

text \<open>
  The sum of all probe distances grows with every swap and is bounded, and between two swaps
  the probe walks over neighbouring slots, of which one is free.
\<close>

fun entry_dist :: "nat \<Rightarrow> nat \<Rightarrow> 'v ht_entry \<Rightarrow> nat" where
  "entry_dist cap s (HtOccupied k h v) = probe_distance cap h s"
| "entry_dist cap s _ = 0"

definition total_dist :: "nat \<Rightarrow> 'v ht_entry list \<Rightarrow> nat" where
  "total_dist cap es = (\<Sum>s<length es. entry_dist cap s (es ! s))"

lemma total_dist_le:
  assumes "slots_ok cap es"
  shows "total_dist cap es \<le> cap * cap"
proof -
  have "entry_dist cap s e \<le> cap" for s and e :: "'a ht_entry"
    using slots_okD(1) [OF assms] by (cases e) (auto intro: less_imp_le)
  then have "total_dist cap es \<le> (\<Sum>s<length es. cap)"
    unfolding total_dist_def by (intro sum_mono) simp
  with slots_okD(2) [OF assms] show ?thesis by simp
qed

definition rh_measure :: "nat \<Rightarrow> 'v ht_entry list \<Rightarrow> nat \<Rightarrow> nat \<Rightarrow> nat" where
  "rh_measure cap es idx f = (cap * cap - total_dist cap es) * cap + ring_dist cap idx f"

lemma rh_measure_walk:
  assumes "slots_ok cap es" "f < cap" "occ (es ! f) = 0" "occ (es ! probe_index cap h i) = 1"
  shows "rh_measure cap es (probe_index cap h (Suc i)) f < rh_measure cap es (probe_index cap h i) f"
  using assms slots_okD(1) [OF assms(1)]
  by (auto simp: rh_measure_def probe_index_Suc intro!: ring_dist_Suc)

lemma rh_measure_swap:
  assumes ok: "slots_ok cap es" and h: "h = ht_hash nk"
    and e: "es ! idx = HtOccupied ek eh ev" and idx: "idx < cap"
    and d: "probe_distance cap h idx > probe_distance cap eh idx"
  shows "rh_measure cap (es[idx := HtOccupied nk h nv]) idx' f < rh_measure cap es idx f"
proof -
  let ?es' = "es[idx := HtOccupied nk h nv]"
  have cap: "table_cap cap" "length es = cap" using slots_okD [OF ok] by auto
  have "total_dist cap ?es' + probe_distance cap eh idx = total_dist cap es + probe_distance cap h idx"
    using sum_indexed_update [of idx es "entry_dist cap" "HtOccupied nk h nv"] e idx cap
    by (simp add: total_dist_def)
  with d have "total_dist cap es < total_dist cap ?es'" by linarith
  moreover have "total_dist cap ?es' \<le> cap * cap"
    by (rule total_dist_le) (rule slots_ok_update [OF ok h])
  ultimately have "Suc (cap * cap - total_dist cap ?es') \<le> cap * cap - total_dist cap es" by linarith
  then have "Suc (cap * cap - total_dist cap ?es') * cap \<le> (cap * cap - total_dist cap es) * cap"
    by (rule mult_le_mono1)
  moreover have "ring_dist cap idx' f < cap" using cap by simp
  ultimately show ?thesis by (simp add: rh_measure_def)
qed

text \<open>A free slot stays free while the loop only replaces occupied slots.\<close>

lemma free_slot_kept: "occ (es ! f) = 0 \<Longrightarrow> occ (es ! idx) = 1 \<Longrightarrow> occ (es[idx := e] ! f) = 0"
  by (metis nth_list_update_neq zero_neq_one)

section \<open>Insertion\<close>

text \<open>What one insertion does to the entries, by its return value.\<close>

definition inserted ::
    "string \<Rightarrow> (string \<times> 'v) multiset \<Rightarrow> string \<times> 'v \<Rightarrow> (string \<times> 'v) multiset \<Rightarrow> int \<Rightarrow> bool" where
  "inserted key B kv B' r \<longleftrightarrow>
     r = 1 \<and> B' = add_mset kv B \<or>
     r = 0 \<and> (\<exists>ck cv w. ht_hash ck = ht_hash key \<and> {#(ck, cv), (key, w)#} \<subseteq># add_mset kv B \<and>
                B' + {#(ck, cv), (key, w)#} = B + {#kv, (key, cv)#})"

lemma inserted_swap:
  assumes "inserted key B1 kv1 B' r" and "B1 + {#kv1#} = B + {#kv#}"
  shows "inserted key B kv B' r"
proof -
  have eq: "add_mset kv1 B1 = add_mset kv B" using assms(2) by simp
  have "add_mset kv1 (add_mset x B1) = add_mset kv (add_mset x B)" for x
    using eq by (simp add: add_mset_commute [of _ x])
  with assms(1) eq show ?thesis by (simp add: inserted_def)
qed

text \<open>A key without an entry of the same hash is added.\<close>

lemma inserted_fresh:
  assumes ins: "inserted key B (key, v) B' r" and fresh: "\<And>k x. (k, x) \<in># B \<Longrightarrow> ht_hash k \<noteq> ht_hash key"
  shows "r = 1" "B' = add_mset (key, v) B"
proof -
  have False if ck: "ht_hash ck = ht_hash key" and sub: "{#(ck, cv), (key, w)#} \<subseteq># add_mset (key, v) B" for ck cv w
  proof -
    have "(ck, cv) \<in># add_mset (key, v) B" using mset_subset_eqD [OF sub, of "(ck, cv)"] by simp
    with fresh [of ck cv] ck have "(ck, cv) = (key, v)" by auto
    with sub have "(key, w) \<in># B" by (simp add: add_mset_commute)
    with fresh show False by blast
  qed
  with ins show "r = 1" "B' = add_mset (key, v) B" unfolding inserted_def by blast+
qed

text \<open>When no other stored key has the hash of the key, at most the bindings of the key itself change.\<close>

lemma inserted_apart:
  assumes ins: "inserted key B (key, v) B' r" and apart: "\<forall>(k, x) \<in># B. ht_hash k = ht_hash key \<longrightarrow> k = key"
  shows "r = 1 \<and> B' = add_mset (key, v) B \<or>
    r = 0 \<and> (\<exists>u. (key, u) \<in># B) \<and> (\<exists>w. add_mset (key, w) B' = add_mset (key, v) B)"
  using ins unfolding inserted_def
proof (elim disjE conjE exE)
  fix ck cv w
  assume r: "r = 0" and h: "ht_hash ck = ht_hash key" and sub: "{#(ck, cv), (key, w)#} \<subseteq># add_mset (key, v) B"
    and eq: "B' + {#(ck, cv), (key, w)#} = B + {#(key, v), (key, cv)#}"
  have "(ck, cv) \<in># B' + {#(ck, cv), (key, w)#}" by simp
  then have "ck = key" unfolding eq using apart h by auto
  with eq have "add_mset (key, w) B' = add_mset (key, v) B" by (simp add: add_mset_commute)
  moreover have "\<exists>u. (key, u) \<in># B"
  proof (cases "(key, w) \<in># B")
    case False
    have "(key, w) \<in># add_mset (key, v) B" using mset_subset_eqD [OF sub, of "(key, w)"] by simp
    with False have "w = v" by simp
    with sub have "(key, cv) \<in># B" unfolding \<open>ck = key\<close> by (simp add: add_mset_commute)
    then show ?thesis by blast
  qed blast
  ultimately show ?thesis using r by blast
qed simp

lemma inserted_keys:
  assumes ins: "inserted key B (key, v) B' r" and apart: "\<forall>(k, x) \<in># B. ht_hash k = ht_hash key \<longrightarrow> k = key"
  shows "set_mset B' \<subseteq> insert (key, v) (set_mset B)" "fst ` set_mset B' = insert key (fst ` set_mset B)"
proof -
  have "set_mset B' \<subseteq> insert (key, v) (set_mset B) \<and> fst ` set_mset B' = insert key (fst ` set_mset B)"
    using inserted_apart [OF assms]
  proof (elim disjE conjE exE)
    fix u w assume u: "(key, u) \<in># B" and eq: "add_mset (key, w) B' = add_mset (key, v) B"
    have "image_mset fst B' = image_mset fst B" using arg_cong [OF eq, of "image_mset fst"] by simp
    then have "fst ` set_mset B' = fst ` set_mset B" by (metis set_image_mset)
    moreover have "insert key (fst ` set_mset B) = fst ` set_mset B" using u by force
    moreover have "set_mset B' \<subseteq> insert (key, v) (set_mset B)"
      using arg_cong [OF eq, of set_mset] by auto
    ultimately show ?thesis by simp
  qed auto
  then show "set_mset B' \<subseteq> insert (key, v) (set_mset B)" "fst ` set_mset B' = insert key (fst ` set_mset B)" by auto
qed

definition counters_ok :: "'v hashtable \<Rightarrow> bool" where
  "counters_ok ht \<longleftrightarrow> size_of ht = occs (entries ht) \<and> tombstones ht = tombs (entries ht)"

definition set_post ::
    "string \<Rightarrow> 'v hashtable \<Rightarrow> string \<times> 'v \<Rightarrow> 'v hashtable \<Rightarrow> int \<Rightarrow> bool" where
  "set_post key ht kv ht' r \<longleftrightarrow>
     slots_ok (capacity ht') (entries ht') \<and> capacity ht' = capacity ht \<and> counters_ok ht' \<and>
     size_of ht' = size_of ht + nat r \<and> tombstones ht' \<le> tombstones ht \<and>
     inserted key (ht_bag ht) kv (ht_bag ht') r"

lemma set_post_fill:
  assumes ok: "slots_ok (capacity ht) (entries ht)" "counters_ok ht"
    and idx: "idx < capacity ht" and free: "entries ht ! idx = e" "occ e = 0" and h: "h = ht_hash nk"
    and ht': "ht' = ht\<lparr>entries := (entries ht)[idx := HtOccupied nk h nv], size_of := size_of ht + 1,
                       tombstones := tombstones ht - tomb e\<rparr>"
  shows "set_post key ht (nk, nv) ht' 1"
proof -
  let ?x = "HtOccupied nk h nv"
  have len: "idx < length (entries ht)" using slots_okD(2) [OF ok(1)] idx by simp
  have e: "entry_bag e = {#}" using free(2) by (cases e) auto
  show ?thesis
    using occs_update [OF len, of ?x] tombs_update [OF len, of ?x] bag_update [OF len, of ?x] free e ok h
      slots_ok_update [OF ok(1) h, of idx nv]
    by (auto simp: set_post_def inserted_def counters_ok_def ht_bag_def ht')
qed

lemma set_post_update:
  assumes ok: "slots_ok (capacity ht) (entries ht)" "counters_ok ht"
    and idx: "idx < capacity ht" and e: "entries ht ! idx = HtOccupied key h ev" and h: "h = ht_hash nk"
    and ht': "ht' = ht\<lparr>entries := (entries ht)[idx := HtOccupied key h nv]\<rparr>"
  shows "set_post key ht (nk, nv) ht' 0"
proof -
  let ?x = "HtOccupied key h nv"
  have len: "idx < length (entries ht)" using slots_okD(2) [OF ok(1)] idx by simp
  have hk: "h = ht_hash key" by (rule slots_okD(3) [OF ok(1) idx e])
  have "ht_bag ht' + {#(nk, nv), (key, ev)#} = ht_bag ht + {#(nk, nv), (key, nv)#}"
    using bag_update [OF len, of ?x] e by (simp add: ht_bag_def ht')
  moreover have "(key, ev) \<in># ht_bag ht" using e len by (auto simp: ht_bag_def in_slots_bag)
  then have "{#(nk, nv), (key, ev)#} \<subseteq># add_mset (nk, nv) (ht_bag ht)" by simp
  ultimately have "inserted key (ht_bag ht) (nk, nv) (ht_bag ht') 0"
    using h hk unfolding inserted_def by metis
  then show ?thesis
    using occs_update [OF len, of ?x] tombs_update [OF len, of ?x] e ok slots_ok_update [OF ok(1) hk, of idx nv]
    by (auto simp: set_post_def counters_ok_def ht')
qed

lemma set_post_swap:
  assumes ok: "slots_ok (capacity ht) (entries ht)" "counters_ok ht"
    and idx: "idx < capacity ht" and e: "entries ht ! idx = HtOccupied ek eh ev" and h: "h = ht_hash nk"
    and ht1: "ht1 = ht\<lparr>entries := (entries ht)[idx := HtOccupied nk h nv]\<rparr>"
  shows "slots_ok (capacity ht1) (entries ht1)" "counters_ok ht1" "eh = ht_hash ek"
    and "set_post key ht1 (ek, ev) ht' r \<Longrightarrow> set_post key ht (nk, nv) ht' r"
proof -
  let ?x = "HtOccupied nk h nv"
  have len: "idx < length (entries ht)" using slots_okD(2) [OF ok(1)] idx by simp
  have bag: "ht_bag ht1 + {#(ek, ev)#} = ht_bag ht + {#(nk, nv)#}"
    using bag_update [OF len, of ?x] e by (simp add: ht_bag_def ht1)
  show "slots_ok (capacity ht1) (entries ht1)" "eh = ht_hash ek"
    using slots_ok_update [OF ok(1) h] slots_okD(3) [OF ok(1) idx e] by (auto simp: ht1)
  show "counters_ok ht1"
    using occs_update [OF len, of ?x] tombs_update [OF len, of ?x] e ok(2) by (simp add: counters_ok_def ht1)
  show "set_post key ht1 (ek, ev) ht' r \<Longrightarrow> set_post key ht (nk, nv) ht' r"
    using inserted_swap [OF _ bag] by (auto simp: set_post_def ht1)
qed

lemma ht_set_loop_total:
  assumes "slots_ok (capacity ht) (entries ht)" "counters_ok ht"
    and "f < capacity ht" "occ (entries ht ! f) = 0" and "h = ht_hash nk"
  shows "\<exists>ht' r. ht_set_loop key ht nk h nv 1 i = Some (ht', r) \<and> set_post key ht (nk, nv) ht' r"
  using assms
proof (induction "rh_measure (capacity ht) (entries ht) (probe_index (capacity ht) h i) f"
    arbitrary: ht nk h nv i rule: less_induct)
  case less
  let ?idx = "probe_index (capacity ht) h i"
  note ok = less.prems(1,2) and f = less.prems(3,4) and h = less.prems(5)
  have idx: "?idx < capacity ht" using slots_okD(1) [OF ok(1)] by simp
  note unfold = ht_set_loop.simps [of key ht nk h nv 1 i] Let_def
  show ?case
  proof (cases "entries ht ! ?idx")
    case HtEmpty
    with set_post_fill [OF ok idx HtEmpty _ h refl] show ?thesis by (simp add: unfold)
  next
    case HtTombstone
    with set_post_fill [OF ok idx HtTombstone _ h refl] show ?thesis by (simp add: unfold)
  next
    case (HtOccupied ek eh ev)
    let ?ht1 = "ht\<lparr>entries := (entries ht)[?idx := HtOccupied nk h nv]\<rparr>"
    consider (match) "eh = h" "ek = key"
      | (swap) "\<not> (eh = h \<and> ek = key)" "probe_distance (capacity ht) h ?idx > probe_distance (capacity ht) eh ?idx"
      | (walk) "\<not> (eh = h \<and> ek = key)" "\<not> probe_distance (capacity ht) h ?idx > probe_distance (capacity ht) eh ?idx"
      by blast
    then show ?thesis
    proof cases
      case match
      with set_post_update [OF ok idx _ h refl] HtOccupied show ?thesis by (simp add: unfold)
    next
      case swap
      note sw = set_post_swap [OF ok idx HtOccupied h refl]
      have "\<exists>ht' r. ht_set_loop key ?ht1 ek eh ev 1 (Suc i) = Some (ht', r) \<and> set_post key ?ht1 (ek, ev) ht' r"
        using rh_measure_swap [OF ok(1) h HtOccupied idx swap(2)] f free_slot_kept [OF f(2)] HtOccupied sw(1-3)
        by (intro less.hyps) auto
      with sw(4) swap HtOccupied show ?thesis by (auto simp: unfold)
    next
      case walk
      have "\<exists>ht' r. ht_set_loop key ht nk h nv 1 (Suc i) = Some (ht', r) \<and> set_post key ht (nk, nv) ht' r"
        using rh_measure_walk [OF ok(1) f] HtOccupied less.prems by (intro less.hyps) auto
      with walk HtOccupied show ?thesis by (auto simp: unfold)
    qed
  qed
qed

section \<open>Resizing\<close>

lemma ht_resize_insert_total:
  assumes "slots_ok cap es" "tombs es = 0" "f < cap" "occ (es ! f) = 0" "h = ht_hash k"
  shows "\<exists>es'. ht_resize_insert cap es k h v j = Some es' \<and> slots_ok cap es' \<and> tombs es' = 0 \<and>
           occs es' = Suc (occs es) \<and> slots_bag es' = add_mset (k, v) (slots_bag es)"
  using assms
proof (induction "rh_measure cap es (probe_index cap h j) f" arbitrary: es k h v j rule: less_induct)
  case less
  let ?idx = "probe_index cap h j"
  let ?x = "HtOccupied k h v"
  note ok = less.prems(1,2) and f = less.prems(3,4) and h = less.prems(5)
  have idx: "?idx < cap" and len: "?idx < length es" using slots_okD(1,2) [OF ok(1)] by auto
  note unfold = ht_resize_insert.simps [of cap es k h v j] Let_def
  note upd = occs_update [OF len, of ?x] tombs_update [OF len, of ?x] bag_update [OF len, of ?x]
    slots_ok_update [OF ok(1) h, of ?idx v]
  show ?case
  proof (cases "es ! ?idx")
    case HtEmpty
    with upd ok show ?thesis by (simp add: unfold)
  next
    case HtTombstone
    have "tomb (es ! ?idx) = 0" using ok(2) nth_mem [OF len] by (auto simp: tombs_def sum_list_eq_0_iff)
    with HtTombstone have False by simp
    then show ?thesis ..
  next
    case (HtOccupied ek eh ev)
    show ?thesis
    proof (cases "probe_distance cap h ?idx > probe_distance cap eh ?idx")
      case True
      have "\<exists>es'. ht_resize_insert cap (es[?idx := ?x]) ek eh ev (Suc j) = Some es' \<and> slots_ok cap es' \<and>
          tombs es' = 0 \<and> occs es' = Suc (occs (es[?idx := ?x])) \<and>
          slots_bag es' = add_mset (ek, ev) (slots_bag (es[?idx := ?x]))"
        using rh_measure_swap [OF ok(1) h HtOccupied idx True] upd ok f free_slot_kept [OF f(2)] HtOccupied
          slots_okD(3) [OF ok(1) idx HtOccupied]
        by (intro less.hyps) auto
      with True HtOccupied upd show ?thesis by (auto simp: unfold)
    next
      case False
      have "\<exists>es'. ht_resize_insert cap es k h v (Suc j) = Some es' \<and> slots_ok cap es' \<and>
          tombs es' = 0 \<and> occs es' = Suc (occs es) \<and> slots_bag es' = add_mset (k, v) (slots_bag es)"
        using rh_measure_walk [OF ok(1) f] HtOccupied less.prems by (intro less.hyps) auto
      with False HtOccupied show ?thesis by (auto simp: unfold)
    qed
  qed
qed

lemma ht_rehash_total:
  assumes "slots_ok cap es" "tombs es = 0" "occs es + occs old < cap"
    and "\<forall>k h v. HtOccupied k h v \<in> set old \<longrightarrow> h = ht_hash k"
  shows "\<exists>es'. ht_rehash cap old es n = Some (es', n + occs old) \<and> slots_ok cap es' \<and> tombs es' = 0 \<and>
           occs es' = occs es + occs old \<and> slots_bag es' = slots_bag es + slots_bag old"
  using assms
proof (induction old arbitrary: es n)
  case Nil
  then show ?case by simp
next
  case (Cons e old)
  show ?case
  proof (cases e)
    case (HtOccupied k h v)
    note len = slots_okD(2) [OF Cons.prems(1)]
    have h: "h = ht_hash k" using Cons.prems(4) HtOccupied by auto
    have "occs es < length es" using Cons.prems(3) len by simp
    then obtain f where f: "f < length es" "occ (es ! f) = 0" by (rule free_slot)
    from ht_resize_insert_total [OF Cons.prems(1,2) _ f(2) h, of v 0] f len
    obtain es1 where es1: "ht_resize_insert cap es k h v 0 = Some es1" "slots_ok cap es1" "tombs es1 = 0"
      "occs es1 = Suc (occs es)" "slots_bag es1 = add_mset (k, v) (slots_bag es)" by blast
    have "occs es1 + occs old < cap" using Cons.prems(3) es1(4) HtOccupied by simp
    moreover have "\<forall>k h v. HtOccupied k h v \<in> set old \<longrightarrow> h = ht_hash k" using Cons.prems(4) by simp
    ultimately show ?thesis
      using Cons.IH [OF es1(2,3), of "Suc n"] es1 HtOccupied by auto
  qed (use Cons in auto)
qed

lemma ht_resize_total:
  assumes ok: "slots_ok (capacity ht) (entries ht)" and n: "table_cap n" and room: "occs (entries ht) < n"
  shows "\<exists>ht'. ht_resize ht n = Some ht' \<and> slots_ok n (entries ht') \<and> capacity ht' = n \<and> counters_ok ht' \<and>
           size_of ht' = occs (entries ht) \<and> tombstones ht' = 0 \<and> ht_bag ht' = ht_bag ht"
proof -
  have "\<not> n < HT_MIN_CAP" using table_cap_pos [OF n] by (simp add: HT_MIN_CAP_def)
  moreover have "\<exists>es'. ht_rehash n (entries ht) (replicate n HtEmpty) 0 = Some (es', occs (entries ht)) \<and>
      slots_ok n es' \<and> tombs es' = 0 \<and> occs es' = occs (entries ht) \<and> slots_bag es' = slots_bag (entries ht)"
    using ht_rehash_total [OF slots_ok_empty [OF n], of "entries ht" 0] room ok
    by (auto simp: slots_ok_def)
  ultimately show ?thesis by (auto simp: ht_resize_def counters_ok_def ht_bag_def)
qed

section \<open>The operations on well-formed tables\<close>

lemma wf_empty_table: "table_cap cap \<Longrightarrow> wf_ht (empty_table cap)"
  by (simp add: wf_ht_def load_ok_def empty_table_def slots_ok_empty)

lemma ht_bag_empty_table [simp]: "ht_bag (empty_table cap) = {#}"
  by (simp add: ht_bag_def empty_table_def)

lemma ht_create_64: "ht_create 64 = Some (empty_table 64)"
  by (simp add: ht_create_def HT_INITIAL_CAP_def grow_cap.simps)

lemma wf_htI:
  assumes "slots_ok (capacity ht) (entries ht)" "counters_ok ht"
    and "(size_of ht + tombstones ht) * 100 div capacity ht \<le> 70"
  shows "wf_ht ht"
  using assms unfolding wf_ht_def counters_ok_def load_ok_def by blast

lemma wf_ht_counters: "wf_ht ht \<Longrightarrow> counters_ok ht"
  by (simp add: wf_ht_def counters_ok_def)

text \<open>Before the loop: the table, possibly doubled, has a slot to spare.\<close>

definition grown :: "'v hashtable \<Rightarrow> 'v hashtable option" where
  "grown ht = (if load_high ht then ht_resize ht (capacity ht * 2) else Some ht)"

lemma grown_total:
  assumes "wf_ht ht"
  shows "\<exists>ht1. grown ht = Some ht1 \<and> slots_ok (capacity ht1) (entries ht1) \<and> counters_ok ht1 \<and>
    size_of ht1 = size_of ht \<and> ht_bag ht1 = ht_bag ht \<and>
    (size_of ht1 + tombstones ht1 + 1) * 100 div capacity ht1 \<le> 70"
proof (cases "load_high ht")
  case True
  note wf = wf_htD [OF assms] and room = wf_ht_room [OF assms]
  have "occs (entries ht) < capacity ht * 2" using wf room by simp
  from ht_resize_total [OF wf(1) table_cap_double [OF wf(2)] this] obtain ht1 where
    ht1: "ht_resize ht (capacity ht * 2) = Some ht1" "slots_ok (capacity ht * 2) (entries ht1)"
      "capacity ht1 = capacity ht * 2" "counters_ok ht1" "size_of ht1 = occs (entries ht)"
      "tombstones ht1 = 0" "ht_bag ht1 = ht_bag ht" by blast
  have "(size_of ht + 1) * 100 \<le> 50 * (capacity ht * 2)" using room by simp
  then have "(size_of ht + 1) * 100 div (capacity ht * 2) \<le> 50 * (capacity ht * 2) div (capacity ht * 2)"
    by (rule div_le_mono)
  also have "\<dots> = 50" using table_cap_gt0 [OF wf(2)] by simp
  finally have "(size_of ht1 + tombstones ht1 + 1) * 100 div capacity ht1 \<le> 70"
    using ht1(3,5,6) wf(4) by simp
  moreover have "grown ht = Some ht1" using True ht1(1) by (simp add: grown_def)
  ultimately show ?thesis using ht1 wf(4) by (intro exI [of _ ht1]) simp
next
  case False
  with assms wf_ht_counters [OF assms] show ?thesis
    by (intro exI [of _ ht]) (auto simp: grown_def load_high_def wf_ht_def)
qed

lemma ht_set_grown:
  "ht_set ht key v = (case grown ht of None \<Rightarrow> None
     | Some ht1 \<Rightarrow> ht_set_loop key ht1 key (ht_hash key) v 1 0)"
  by (simp add: ht_set_def grown_def)

lemma ht_set_spec:
  assumes "wf_ht ht"
  shows "\<exists>ht' r. ht_set ht k v = Some (ht', r) \<and> wf_ht ht' \<and> size_of ht' = size_of ht + nat r \<and>
           inserted k (ht_bag ht) (k, v) (ht_bag ht') r"
proof -
  obtain ht1 where g: "grown ht = Some ht1" and ok: "slots_ok (capacity ht1) (entries ht1)" "counters_ok ht1"
    and same: "size_of ht1 = size_of ht" "ht_bag ht1 = ht_bag ht"
    and load: "(size_of ht1 + tombstones ht1 + 1) * 100 div capacity ht1 \<le> 70"
    using grown_total [OF assms] by blast
  have "size_of ht1 + tombstones ht1 + 1 < capacity ht1"
    using table_cap_gt0 [OF slots_okD(1) [OF ok(1)]] load by (rule load_bound)
  then have "occs (entries ht1) < length (entries ht1)"
    using ok(2) slots_okD(2) [OF ok(1)] by (simp add: counters_ok_def)
  then obtain f where f: "f < length (entries ht1)" "occ (entries ht1 ! f) = 0" by (rule free_slot)
  then have "f < capacity ht1" using slots_okD(2) [OF ok(1)] by simp
  from ht_set_loop_total [OF ok this f(2) refl] obtain ht' r where
    loop: "ht_set_loop k ht1 k (ht_hash k) v 1 0 = Some (ht', r)" and post: "set_post k ht1 (k, v) ht' r"
    by blast
  have r: "nat r \<le> 1" using post by (auto simp: set_post_def inserted_def)
  have "(size_of ht' + tombstones ht') * 100 div capacity ht'
      \<le> (size_of ht1 + tombstones ht1 + 1) * 100 div capacity ht'"
    using post r by (intro div_le_mono mult_le_mono1) (simp add: set_post_def)
  with load post have "(size_of ht' + tombstones ht') * 100 div capacity ht' \<le> 70"
    unfolding set_post_def by (metis order_trans)
  with post have "wf_ht ht'" by (intro wf_htI) (auto simp: set_post_def)
  then show ?thesis using g loop post same by (simp add: ht_set_grown set_post_def)
qed

lemma grown_wf:
  assumes "wf_ht ht" "grown ht = Some ht1"
  shows "wf_ht ht1" "ht_bag ht1 = ht_bag ht"
proof -
  have ok: "slots_ok (capacity ht1) (entries ht1)" "counters_ok ht1" "ht_bag ht1 = ht_bag ht"
    and load: "(size_of ht1 + tombstones ht1 + 1) * 100 div capacity ht1 \<le> 70"
    using grown_total [OF assms(1)] assms(2) by auto
  have "(size_of ht1 + tombstones ht1) * 100 div capacity ht1 \<le> (size_of ht1 + tombstones ht1 + 1) * 100 div capacity ht1"
    by (intro div_le_mono) simp
  with ok load show "wf_ht ht1" "ht_bag ht1 = ht_bag ht" by (auto intro: wf_htI)
qed

text \<open>
  When the lookup finds the key, the insertion walks the same slots without a swap: it either reaches the
  slot that the lookup found and writes the value there, or meets a tombstone on the way and fills it.
  In both cases the lookup finds the new value afterwards.
\<close>

definition refill :: "'v hashtable \<Rightarrow> nat \<Rightarrow> string \<Rightarrow> 'v \<Rightarrow> 'v hashtable" where
  "refill ht t key v = ht\<lparr>entries := (entries ht)[t := HtOccupied key (ht_hash key) v], size_of := size_of ht + 1,
     tombstones := tombstones ht - 1\<rparr>"

definition set_found :: "'v hashtable \<Rightarrow> string \<Rightarrow> 'v \<Rightarrow> nat \<Rightarrow> nat \<Rightarrow> 'v hashtable \<times> int \<Rightarrow> bool" where
  "set_found ht key v s i = (\<lambda>(ht', r). capacity ht' = capacity ht \<and>
     (r = 0 \<and> ht' = set_entry_value ht s v \<and> ht_find_loop (entries ht') (capacity ht) key (ht_hash key) i = Some (Some s) \<or>
      r = 1 \<and> (\<exists>t<capacity ht. entries ht ! t = HtTombstone \<and> ht' = refill ht t key v \<and>
        ht_find_loop (entries ht') (capacity ht) key (ht_hash key) i = Some (Some t))))"

lemma set_loop_found:
  assumes "ht_find_loop es cap key h i = Some p"
  shows "p = Some s \<Longrightarrow> h = ht_hash key \<Longrightarrow> es = entries ht \<Longrightarrow> cap = capacity ht \<Longrightarrow>
    table_cap (capacity ht) \<Longrightarrow> length (entries ht) = capacity ht \<Longrightarrow> entries ht ! s = HtOccupied key (ht_hash key) w \<Longrightarrow>
    s < capacity ht \<Longrightarrow> i \<le> probe_distance (capacity ht) h s \<Longrightarrow>
    \<exists>x. ht_set_loop key ht key h v 1 i = Some x \<and> set_found ht key v s i x"
  using assms
proof (induction rule: ht_find_loop.raw_induct [rotated 1, consumes 1, case_names step])
  case (step find es cap key h i p)
  note p = step.prems(1) and h = step.prems(2) and es = step.prems(3,4) and cap = step.prems(5,6) and s = step.prems(7,8)
    and i = step.prems(9)
  let ?idx = "probe_index (capacity ht) h i"
  note run = step.hyps [unfolded Let_def es p]
  note unfold = ht_set_loop.simps [of key ht key h v 1 i] Let_def
  have "i < capacity ht" by (rule le_less_trans [OF i]) (use cap in simp)
  then have idx: "?idx < capacity ht" "probe_distance (capacity ht) h ?idx = i"
    using cap by (simp_all add: probe_distance_index)
  show ?case
  proof (cases "entries ht ! ?idx")
    case HtEmpty
    with run show ?thesis by simp
  next
    case HtTombstone
    have "ht_find_loop ((entries ht)[?idx := HtOccupied key h v]) (capacity ht) key h i = Some (Some ?idx)"
      using idx cap by (simp add: ht_find_loop.simps [of _ _ _ _ i])
    then have "set_found ht key v s i (refill ht ?idx key v, 1)"
      unfolding set_found_def using HtTombstone idx(1) h by (auto simp: refill_def)
    moreover have "ht_set_loop key ht key h v 1 i = Some (refill ht ?idx key v, 1)"
      unfolding unfold using HtTombstone by (simp add: refill_def h [symmetric])
    ultimately show ?thesis by blast
  next
    case (HtOccupied ek eh ev)
    with run have pass: "i \<le> probe_distance (capacity ht) eh ?idx" by (auto split: if_splits)
    show ?thesis
    proof (cases "eh = h \<and> ek = key")
      case True
      with HtOccupied run pass have at: "s = ?idx" by simp
      have "ht_find_loop ((entries ht)[s := HtOccupied key h v]) (capacity ht) key h i = Some (Some s)"
        using idx pass True cap at by (simp add: ht_find_loop.simps [of _ _ _ _ i])
      then have "set_found ht key v s i (set_entry_value ht s v, 0)"
        using HtOccupied True at h by (simp add: set_found_def set_entry_value_def)
      moreover have "ht_set_loop key ht key h v 1 i = Some (set_entry_value ht s v, 0)"
        unfolding unfold using HtOccupied True at by (simp add: set_entry_value_def)
      ultimately show ?thesis by blast
    next
      case False
      with HtOccupied run pass have "find (entries ht) (capacity ht) key h (Suc i) = Some (Some s)" by simp
      moreover have other: "?idx \<noteq> s" using s HtOccupied False h by auto
      then have "i \<noteq> probe_distance (capacity ht) h s" using s(2) cap probe_index_distance by metis
      with i have "Suc i \<le> probe_distance (capacity ht) h s" by simp
      ultimately obtain x where
        x: "ht_set_loop key ht key h v 1 (Suc i) = Some x" "set_found ht key v s (Suc i) x"
        using step.IH [OF _ refl h refl refl cap s] by blast
      have skip: "ht_find_loop ((entries ht)[t := HtOccupied key (ht_hash key) v]) (capacity ht) key (ht_hash key) i =
          ht_find_loop ((entries ht)[t := HtOccupied key (ht_hash key) v]) (capacity ht) key (ht_hash key) (Suc i)" if "t \<noteq> ?idx" for t
        using that HtOccupied False pass by (subst ht_find_loop.simps) (auto simp: h)
      have "set_found ht key v s i x"
      proof (cases x)
        case (Pair ht' r)
        have "entries (set_entry_value ht s v) = (entries ht)[s := HtOccupied key (ht_hash key) v]"
          using s by (simp add: set_entry_value_def)
        moreover have "t \<noteq> ?idx" if "entries ht ! t = HtTombstone" for t using that HtOccupied by auto
        ultimately show ?thesis
          using x(2) skip [OF other [symmetric]] skip unfolding Pair set_found_def by (fastforce simp: refill_def)
      qed
      moreover have "ht_set_loop key ht key h v 1 i = Some x"
        unfolding unfold using HtOccupied False pass idx x(1) by auto
      ultimately show ?thesis by blast
    qed
  qed
qed

lemma bury_facts:
  assumes wf: "wf_ht ht" and s: "s < capacity ht" "entries ht ! s = HtOccupied k h v"
  shows "wf_ht (bury ht s)" "add_mset (k, v) (ht_bag (bury ht s)) = ht_bag ht"
    "capacity (bury ht s) = capacity ht" "size_of ht = Suc (size_of (bury ht s))"
proof -
  have len: "s < length (entries ht)" using wf_htD(3) [OF wf] s by simp
  have occ: "occ (entries ht ! s) \<le> occs (entries ht)" by (rule occs_pos [OF len])
  note upd = occs_update [OF len, of HtTombstone] tombs_update [OF len, of HtTombstone]
    bag_update [OF len, of HtTombstone]
  have cap: "capacity (bury ht s) = capacity ht" by (simp add: bury_def)
  show size: "size_of ht = Suc (size_of (bury ht s))"
    using occ s wf_htD(4) [OF wf] by (simp add: bury_def)
  have counters: "counters_ok (bury ht s)"
    using upd s wf_htD(4,5) [OF wf] by (auto simp: bury_def counters_ok_def)
  have sum: "size_of (bury ht s) + tombstones (bury ht s) = size_of ht + tombstones ht"
    using size by (simp add: bury_def)
  have "load_ok ht" using wf by (simp add: wf_ht_def)
  then have "load_ok (bury ht s)" unfolding load_ok_def sum cap .
  moreover have "slots_ok (capacity (bury ht s)) (entries (bury ht s))"
    using slots_ok_tomb [OF wf_htD(1) [OF wf]] by (simp add: bury_def)
  ultimately show "wf_ht (bury ht s)" using counters by (simp add: wf_ht_def counters_ok_def)
  show "add_mset (k, v) (ht_bag (bury ht s)) = ht_bag ht"
    using upd s by (simp add: ht_bag_def bury_def)
  show "capacity (bury ht s) = capacity ht" by (rule cap)
qed

lemma shrink_total:
  assumes wf: "wf_ht ht" and low: "load_low ht"
  shows "\<exists>ht'. ht_resize ht (capacity ht div 2) = Some ht' \<and> wf_ht ht' \<and> ht_bag ht' = ht_bag ht \<and>
           size_of ht' = size_of ht"
proof -
  let ?c = "capacity ht div 2"
  have c: "table_cap ?c" "capacity ht = 2 * ?c"
    using low table_cap_half [OF wf_htD(2) [OF wf]] by (auto simp: load_low_def HT_MIN_CAP_def)
  have "size_of ht * 100 div capacity ht < 20" using low by (simp add: load_low_def)
  then have "size_of ht * 100 < 20 * capacity ht"
    using table_cap_gt0 [OF wf_htD(2) [OF wf]] by (simp only: div_less_iff_less_mult)
  with c(2) have few: "size_of ht * 100 < 40 * ?c" by linarith
  then have "occs (entries ht) < ?c" using wf_htD(4) [OF wf] by simp
  from ht_resize_total [OF wf_htD(1) [OF wf] c(1) this] obtain ht' where
    ht': "ht_resize ht ?c = Some ht'" "slots_ok ?c (entries ht')" "capacity ht' = ?c" "counters_ok ht'"
      "size_of ht' = occs (entries ht)" "tombstones ht' = 0" "ht_bag ht' = ht_bag ht" by blast
  have "size_of ht * 100 div ?c \<le> 40 * ?c div ?c" using few by (intro div_le_mono) simp
  also have "\<dots> = 40" using table_cap_gt0 [OF c(1)] by simp
  finally have "wf_ht ht'"
    using ht' wf_htD(4) [OF wf] by (intro wf_htI) auto
  then show ?thesis using ht' wf_htD(4) [OF wf] by auto
qed

lemma ht_delete_spec:
  assumes wf: "wf_ht ht"
  shows "\<exists>ht' r. ht_delete ht k = Some (ht', r) \<and> wf_ht ht' \<and>
     (r = 0 \<and> ht' = ht \<and> ht_find ht k = Some None \<or>
      r = 1 \<and> size_of ht = Suc (size_of ht') \<and> (\<exists>v. add_mset (k, v) (ht_bag ht') = ht_bag ht))"
proof -
  obtain p where p: "ht_find ht k = Some p"
    and at: "\<And>s. p = Some s \<Longrightarrow> s < capacity ht \<and> (\<exists>v. entries ht ! s = HtOccupied k (ht_hash k) v)"
    using ht_find_total [OF wf, of k] by blast
  show ?thesis
  proof (cases p)
    case None
    with p wf show ?thesis by (simp add: ht_delete_def)
  next
    case (Some s)
    with at obtain v where s: "s < capacity ht" "entries ht ! s = HtOccupied k (ht_hash k) v" by blast
    note b = bury_facts [OF wf s]
    show ?thesis
    proof (cases "load_low (bury ht s)")
      case True
      from shrink_total [OF b(1) True] obtain ht' where
        "ht_resize (bury ht s) (capacity (bury ht s) div 2) = Some ht'" "wf_ht ht'"
        "ht_bag ht' = ht_bag (bury ht s)" "size_of ht' = size_of (bury ht s)" by blast
      with b True p Some show ?thesis by (auto simp: ht_delete_def Let_def)
    next
      case False
      with b p Some show ?thesis by (auto simp: ht_delete_def Let_def)
    qed
  qed
qed

lemma set_entry_value_wf:
  assumes wf: "wf_ht ht" and s: "s < capacity ht" "entries ht ! s = HtOccupied k h v"
  shows "wf_ht (set_entry_value ht s w)" "add_mset (k, v) (ht_bag (set_entry_value ht s w)) = add_mset (k, w) (ht_bag ht)"
proof -
  let ?x = "HtOccupied k h w"
  have len: "s < length (entries ht)" using wf_htD(3) [OF wf] s by simp
  have h: "h = ht_hash k" using slots_okD(3) [OF wf_htD(1) [OF wf] s] .
  show "wf_ht (set_entry_value ht s w)"
    using occs_update [OF len, of ?x] tombs_update [OF len, of ?x] s wf slots_ok_update [OF wf_htD(1) [OF wf] h]
    by (simp add: wf_ht_def set_entry_value_def)
  show "add_mset (k, v) (ht_bag (set_entry_value ht s w)) = add_mset (k, w) (ht_bag ht)"
    using bag_update [OF len, of ?x] s by (simp add: ht_bag_def set_entry_value_def)
qed

lemma ht_set_found:
  assumes wf: "wf_ht ht" and g: "grown ht = Some ht1" and get: "ht_get ht1 key = Some (Some w)"
    and set: "ht_set ht key v = Some (ht', r)"
  shows "ht_get ht' key = Some (Some v)"
    and "r = 0 \<Longrightarrow> ht_bag ht' = add_mset (key, v) (ht_bag ht - {#(key, w)#}) \<and> (key, w) \<in># ht_bag ht"
proof -
  note wf1 = grown_wf(1) [OF wf g] and bag1 = grown_wf(2) [OF wf g]
  from get obtain s where f: "ht_find ht1 key = Some (Some s)" "entry_value ht1 s = Some w"
    by (auto simp: ht_get_def split: option.splits)
  with ht_find_SomeD [OF wf1 f(1)] have s: "s < capacity ht1" "entries ht1 ! s = HtOccupied key (ht_hash key) w"
    by (auto simp: entry_value_def)
  from set_loop_found [OF f(1) [unfolded ht_find_def] refl refl refl refl _ _ s(2,1), of v] wf_htD(2,3) [OF wf1] obtain x where
    x: "ht_set_loop key ht1 key (ht_hash key) v 1 0 = Some x" "set_found ht1 key v s 0 x" by auto
  with set g have "x = (ht', r)" by (simp add: ht_set_grown)
  with x(2) have found: "set_found ht1 key v s 0 (ht', r)" by simp
  have len: "length (entries ht1) = capacity ht1" by (rule wf_htD(3) [OF wf1])
  from found len s show "ht_get ht' key = Some (Some v)"
    by (auto simp: set_found_def ht_get_def ht_find_def entry_value_def set_entry_value_def refill_def)
  assume "r = 0"
  with found have "ht' = set_entry_value ht1 s v" by (simp add: set_found_def)
  with set_entry_value_wf(2) [OF wf1 s, of v] bag1 have eq: "add_mset (key, w) (ht_bag ht') = add_mset (key, v) (ht_bag ht)"
    by simp
  have "(key, w) \<in># ht_bag ht1" using s len by (auto simp: ht_bag_def in_slots_bag)
  then have mem: "(key, w) \<in># ht_bag ht" using bag1 by simp
  have "ht_bag ht' = add_mset (key, v) (ht_bag ht) - {#(key, w)#}" unfolding eq [symmetric] by simp
  with mem show "ht_bag ht' = add_mset (key, v) (ht_bag ht - {#(key, w)#}) \<and> (key, w) \<in># ht_bag ht"
    by (simp add: multiset_eq_iff)
qed

end
