(* ===== verification/HashTable_Map.thy ===== *)
theory HashTable_Map
  imports HashTable_Wf
begin

text \<open>
  The hash table as a map. The early exit of \<open>ht_find\<close> ("Robin Hood guarantee") is right only on
  tables where no probe path is cut (\<open>good\<close>). Lookup, in-place update and deletion respect this;
  an insertion does when its own probe path is clean (\<open>clean_probe\<close>). The contract is the locale
  \<open>kv_table\<close>, interpreted on the operations of \<open>hashtable.c\<close>.
\<close>

section \<open>Tables without cut probe paths\<close>

text \<open>At step \<open>j\<close> of its probe, a lookup goes past slot \<open>p\<close>.\<close>

definition passable :: "nat \<Rightarrow> 'v ht_entry list \<Rightarrow> nat \<Rightarrow> nat \<Rightarrow> bool" where
  "passable cap es j p =
     (case es ! p of HtEmpty \<Rightarrow> False | HtTombstone \<Rightarrow> True
      | HtOccupied k h v \<Rightarrow> j \<le> probe_distance cap h p)"

definition path_open :: "nat \<Rightarrow> 'v ht_entry list \<Rightarrow> nat \<Rightarrow> bool" where
  "path_open cap es s =
     (case es ! s of
        HtOccupied k h v \<Rightarrow> (\<forall>j<probe_distance cap h s. passable cap es j (probe_index cap h j))
      | _ \<Rightarrow> True)"

fun same_key :: "'v ht_entry \<Rightarrow> 'v ht_entry \<Rightarrow> bool" where
  "same_key (HtOccupied k h v) (HtOccupied k' h' v') = (k = k')"
| "same_key _ _ = False"

definition keys_once :: "'v ht_entry list \<Rightarrow> bool" where
  "keys_once es \<longleftrightarrow> (\<forall>s<length es. \<forall>t<length es. same_key (es ! s) (es ! t) \<longrightarrow> s = t)"

definition good :: "'v hashtable \<Rightarrow> bool" where
  "good ht \<longleftrightarrow> wf_ht ht \<and> keys_once (entries ht) \<and> (\<forall>s<capacity ht. path_open (capacity ht) (entries ht) s)"

text \<open>The map a table stands for.\<close>

fun holds :: "string \<Rightarrow> 'v ht_entry \<Rightarrow> bool" where
  "holds key (HtOccupied k h v) = (k = key)"
| "holds key _ = False"

definition ht_map :: "'v hashtable \<Rightarrow> string \<Rightarrow> 'v option" where
  "ht_map ht key =
     (case List.find (\<lambda>s. holds key (entries ht ! s)) [0..<length (entries ht)] of
        None \<Rightarrow> None | Some s \<Rightarrow> entry_value ht s)"

lemma holds_iff: "holds key e \<longleftrightarrow> (\<exists>h v. e = HtOccupied key h v)"
  by (cases e) auto

lemma keys_onceD:
  "keys_once es \<Longrightarrow> s < length es \<Longrightarrow> t < length es \<Longrightarrow> es ! s = HtOccupied k h v \<Longrightarrow>
   es ! t = HtOccupied k h' v' \<Longrightarrow> s = t"
  unfolding keys_once_def by fastforce

lemma ht_map_Some:
  assumes "keys_once (entries ht)"
  shows "ht_map ht key = Some v \<longleftrightarrow> (\<exists>s<length (entries ht). \<exists>h. entries ht ! s = HtOccupied key h v)"
proof (cases "List.find (\<lambda>s. holds key (entries ht ! s)) [0..<length (entries ht)]")
  case None
  then have "\<not> (\<exists>s<length (entries ht). holds key (entries ht ! s))" by (auto simp: find_None_iff)
  with None show ?thesis by (auto simp: ht_map_def)
next
  case (Some s)
  then have s: "s < length (entries ht)" "holds key (entries ht ! s)"
    by (auto simp: find_Some_iff)
  then obtain h v' where e: "entries ht ! s = HtOccupied key h v'" by (auto simp: holds_iff)
  with Some have "ht_map ht key = Some v'" by (simp add: ht_map_def entry_value_def)
  with keys_onceD [OF assms s(1) _ e] s(1) e show ?thesis by auto
qed

lemma ht_map_bag: "keys_once (entries ht) \<Longrightarrow> ht_map ht key = Some v \<longleftrightarrow> (key, v) \<in># ht_bag ht"
  by (auto simp: ht_map_Some ht_bag_def in_slots_bag)

lemma ht_map_eqI:
  assumes "keys_once (entries ht)" "keys_once (entries ht')" "ht_bag ht' = ht_bag ht"
  shows "ht_map ht' = ht_map ht"
proof
  fix k
  have "ht_map ht' k = Some v \<longleftrightarrow> ht_map ht k = Some v" for v
    using assms by (simp add: ht_map_bag)
  then show "ht_map ht' k = ht_map ht k" by (cases "ht_map ht k"; cases "ht_map ht' k") auto
qed

lemma goodD:
  assumes "good ht"
  shows "wf_ht ht" "keys_once (entries ht)" "table_cap (capacity ht)" "length (entries ht) = capacity ht"
    "slots_ok (capacity ht) (entries ht)"
  using assms wf_htD [of ht] by (auto simp: good_def)

lemma good_path:
  assumes "good ht" "s < capacity ht" "entries ht ! s = HtOccupied k h v" "j < probe_distance (capacity ht) h s"
  shows "passable (capacity ht) (entries ht) j (probe_index (capacity ht) h j)"
  using assms by (auto simp: good_def path_open_def)

lemma good_empty_table: "table_cap cap \<Longrightarrow> good (empty_table cap)"
  by (auto simp: good_def wf_empty_table keys_once_def path_open_def) (simp_all add: empty_table_def)

lemma ht_map_empty_table: "ht_map (empty_table cap :: 'v hashtable) = Map.empty"
proof
  fix k
  let ?t = "empty_table cap :: 'v hashtable"
  have "keys_once (entries ?t)"
    by (simp add: keys_once_def empty_table_def)
  from ht_map_bag [OF this, of k] show "ht_map ?t k = None"
    by (cases "ht_map ?t k") auto
qed

section \<open>Lookup on good tables\<close>

lemma probe_index_inj:
  assumes "table_cap cap" "i < cap" "j < cap" "probe_index cap h i = probe_index cap h j"
  shows "i = j"
proof -
  have "i mod cap = j mod cap"
    using probe_distance_index [OF assms(1), of h i] probe_distance_index [OF assms(1), of h j] assms(4)
    by metis
  with assms(2,3) show ?thesis by simp
qed

lemma ht_find_present:
  assumes g: "good ht" and s: "s < capacity ht" "entries ht ! s = HtOccupied key h v"
    and i: "i \<le> probe_distance (capacity ht) h s"
  shows "ht_find_loop (entries ht) (capacity ht) key h i = Some (Some s)"
  using i
proof (induction "probe_distance (capacity ht) h s - i" arbitrary: i)
  case 0
  then have "i = probe_distance (capacity ht) h s" by simp
  with s goodD(3) [OF g] show ?case
    by (subst ht_find_loop.simps) (simp add: probe_index_distance)
next
  case (Suc d)
  let ?c = "capacity ht" and ?es = "entries ht"
  have i: "i < probe_distance ?c h s" using Suc.hyps(2) by simp
  have dc: "probe_distance ?c h s < ?c" using goodD(3) [OF g] by simp
  have pass: "passable ?c ?es i (probe_index ?c h i)" by (rule good_path [OF g s i])
  have "probe_index ?c h i \<noteq> s"
    using probe_index_inj [OF goodD(3) [OF g], of i "probe_distance ?c h s" h] i dc
      probe_index_distance [OF goodD(3) [OF g] s(1)] by auto
  moreover have "s = probe_index ?c h i" if "?es ! probe_index ?c h i = HtOccupied key h v'" for v'
    by (rule keys_onceD [OF goodD(2) [OF g] _ _ s(2) that]) (use s(1) goodD(3,4) [OF g] in simp_all)
  ultimately have other: "?es ! probe_index ?c h i \<noteq> HtOccupied key h v'" for v' by blast
  have "ht_find_loop ?es ?c key h (Suc i) = Some (Some s)"
    using Suc.hyps i by simp
  with pass other show ?case
    by (auto simp: ht_find_loop.simps [of _ _ _ _ i] passable_def Let_def split: ht_entry.splits)
qed

lemma ht_find_good:
  assumes g: "good ht"
  obtains p where "ht_find ht key = Some p"
    and "\<And>s. p = Some s \<longleftrightarrow> s < capacity ht \<and> (\<exists>v. entries ht ! s = HtOccupied key (ht_hash key) v)"
proof -
  obtain p where p: "ht_find ht key = Some p"
    and at: "\<And>s. p = Some s \<Longrightarrow> s < capacity ht \<and> (\<exists>v. entries ht ! s = HtOccupied key (ht_hash key) v)"
    using ht_find_total [OF goodD(1) [OF g], of key] by blast
  have "p = Some s" if "s < capacity ht" "entries ht ! s = HtOccupied key (ht_hash key) v" for s v
    using ht_find_present [OF g that] p by (simp add: ht_find_def)
  with p at that show ?thesis by blast
qed

lemma ht_map_None_iff:
  assumes g: "good ht"
  shows "ht_find ht key = Some None \<longleftrightarrow> ht_map ht key = None"
proof -
  obtain p where p: "ht_find ht key = Some p"
    and at: "\<And>s. p = Some s \<longleftrightarrow> s < capacity ht \<and> (\<exists>v. entries ht ! s = HtOccupied key (ht_hash key) v)"
    using ht_find_good [OF g, of key] by blast
  have "(\<exists>v. ht_map ht key = Some v) \<longleftrightarrow> (\<exists>s. p = Some s)"
    using at ht_map_Some [OF goodD(2) [OF g]] goodD(4) [OF g] slots_okD(3) [OF goodD(5) [OF g]]
    by metis
  with p show ?thesis by auto
qed

lemma ht_find_map:
  assumes g: "good ht" and f: "ht_find ht key = Some (Some s)"
  shows "entry_value ht s = ht_map ht key" "ht_map ht key \<noteq> None" "s < capacity ht"
    "entries ht ! s = HtOccupied key (ht_hash key) (the (ht_map ht key))"
proof -
  from ht_find_SomeD [OF goodD(1) [OF g] f] obtain v where
    s: "s < capacity ht" "entries ht ! s = HtOccupied key (ht_hash key) v" by blast
  with ht_map_Some [OF goodD(2) [OF g]] goodD(4) [OF g] have "ht_map ht key = Some v" by auto
  with s show "entry_value ht s = ht_map ht key" "ht_map ht key \<noteq> None" "s < capacity ht"
    "entries ht ! s = HtOccupied key (ht_hash key) (the (ht_map ht key))"
    by (auto simp: entry_value_def)
qed

lemma ht_get_map:
  assumes g: "good ht"
  shows "ht_get ht key = Some (ht_map ht key)"
proof -
  obtain p where p: "ht_find ht key = Some p" using ht_find_total [OF goodD(1) [OF g]] by blast
  show ?thesis
  proof (cases p)
    case None
    with p ht_map_None_iff [OF g, of key] show ?thesis by (simp add: ht_get_def)
  next
    case (Some s)
    with p ht_find_map [OF g, of key s] show ?thesis by (simp add: ht_get_def)
  qed
qed

section \<open>Updates that keep a table good\<close>

lemma path_open_mono:
  assumes "path_open cap es s" "es ! s = HtOccupied k h v" "es' ! s = HtOccupied k' h v'"
    and "\<And>j p. p < cap \<Longrightarrow> passable cap es j p \<Longrightarrow> passable cap es' j p" and "table_cap cap"
  shows "path_open cap es' s"
  using assms by (auto simp: path_open_def)

lemma keys_once_update:
  assumes once: "keys_once es" and s: "s < length es"
    and new: "\<And>t. t < length es \<Longrightarrow> t \<noteq> s \<Longrightarrow> \<not> same_key e (es ! t)"
  shows "keys_once (es[s := e])"
proof -
  have sym: "same_key a b \<Longrightarrow> same_key b a" for a b :: "'a ht_entry"
    by (cases a; cases b) auto
  show ?thesis unfolding keys_once_def
  proof (intro allI impI)
    fix a b assume ab: "a < length (es[s := e])" "b < length (es[s := e])" "same_key (es[s := e] ! a) (es[s := e] ! b)"
    consider "a = s" "b = s" | "a = s" "b \<noteq> s" | "a \<noteq> s" "b = s" | "a \<noteq> s" "b \<noteq> s" by blast
    then show "a = b"
    proof cases
      case 2
      with ab s new [of b] show ?thesis by simp
    next
      case 3
      with ab s sym have "same_key e (es ! a)" by simp
      with 3 ab new [of a] show ?thesis by simp
    next
      case 4
      with ab once show ?thesis by (simp add: keys_once_def)
    qed simp
  qed
qed

lemma key_elsewhere:
  assumes "keys_once es" "s < length es" "es ! s = HtOccupied key h v" "t < length es" "t \<noteq> s"
  shows "\<not> same_key (HtOccupied key h' w) (es ! t)"
proof (cases "es ! t")
  case (HtOccupied k h2 v2)
  then show ?thesis using keys_onceD [OF assms(1,2,4,3), of h2 v2] assms(5) by auto
qed simp_all

lemma option_eqI: "(\<And>u. a = Some u \<longleftrightarrow> b = Some u) \<Longrightarrow> a = b"
  by (cases a; cases b) auto

lemma ht_map_replace:
  assumes once: "keys_once (entries ht)" "keys_once es'" and es': "es' = (entries ht)[s := e]"
    and s: "s < length (entries ht)" and ht': "entries ht' = es'"
    and old: "entries ht ! s = HtOccupied key h0 v0 \<or> occ (entries ht ! s) = 0 \<and> (\<exists>v. e = HtOccupied key h v)"
    and e: "occ e = 0 \<or> (\<exists>v. e = HtOccupied key h v)"
  shows "ht_map ht' = (ht_map ht)(key := (case e of HtOccupied k h v \<Rightarrow> Some v | _ \<Rightarrow> None))"
proof
  fix k
  note at' = ht_map_Some [of ht', unfolded ht', OF once(2)] and at = ht_map_Some [OF once(1)]
  show "ht_map ht' k = ((ht_map ht)(key := (case e of HtOccupied k h v \<Rightarrow> Some v | _ \<Rightarrow> None))) k"
  proof (rule option_eqI)
    fix u
    show "ht_map ht' k = Some u \<longleftrightarrow>
        ((ht_map ht)(key := (case e of HtOccupied k h v \<Rightarrow> Some v | _ \<Rightarrow> None))) k = Some u"
    proof (cases "k = key")
      case False
      have "(\<exists>h. es' ! t = HtOccupied k h u) \<longleftrightarrow> (\<exists>h. entries ht ! t = HtOccupied k h u)"
        if "t < length (entries ht)" for t
        using False old e s that by (cases "t = s") (auto simp: es')
      then have "(\<exists>t<length (entries ht). \<exists>h. es' ! t = HtOccupied k h u) \<longleftrightarrow>
          (\<exists>t<length (entries ht). \<exists>h. entries ht ! t = HtOccupied k h u)" by blast
      with False show ?thesis by (simp add: at at' es')
    next
      case True
      show ?thesis
      proof (cases "\<exists>v. e = HtOccupied key h v")
        case e_occ: True
        then obtain v where v: "e = HtOccupied key h v" by blast
        have "es' ! s = HtOccupied key h v" "s < length es'" using v s by (simp_all add: es')
        then have "ht_map ht' key = Some v" by (auto simp: at')
        with True v show ?thesis by simp
      next
        case e_free: False
        with e have e0: "occ e = 0" by blast
        have gone: "es' ! t \<noteq> HtOccupied key h' u" if "t < length es'" for t h'
          using key_elsewhere [OF once(1) s, of key h0 v0 t h' u] old e_free e0 that s
          by (cases "t = s") (auto simp: es')
        have "(case e of HtOccupied k h v \<Rightarrow> Some v | _ \<Rightarrow> None) = None" using e0 by (cases e) auto
        with True gone show ?thesis by (auto simp: at')
      qed
    qed
  qed
qed

lemma good_set_entry_value:
  assumes g: "good ht" and s: "s < capacity ht" "entries ht ! s = HtOccupied key h v"
  shows "good (set_entry_value ht s w)" "ht_map (set_entry_value ht s w) = (ht_map ht)(key \<mapsto> w)"
proof -
  let ?ht' = "set_entry_value ht s w"
  let ?es' = "(entries ht)[s := HtOccupied key h w]"
  have ht': "?ht' = ht\<lparr>entries := ?es'\<rparr>" using s by (simp add: set_entry_value_def)
  have len: "s < length (entries ht)" using s goodD(4) [OF g] by simp
  have once: "keys_once ?es'"
    by (rule keys_once_update [OF goodD(2) [OF g] len]) (rule key_elsewhere [OF goodD(2) [OF g] len s(2)])
  have pass: "passable (capacity ht) ?es' j p = passable (capacity ht) (entries ht) j p" for j p
    using s len by (cases "p = s") (auto simp: passable_def)
  have "path_open (capacity ht) ?es' t" if t: "t < capacity ht" for t
  proof -
    have "path_open (capacity ht) (entries ht) t" using g t by (simp add: good_def)
    then show ?thesis using s len pass by (cases "t = s") (auto simp: path_open_def split: ht_entry.splits)
  qed
  with once set_entry_value_wf(1) [OF goodD(1) [OF g] s, of w] show "good ?ht'"
    by (simp add: good_def ht')
  show "ht_map ?ht' = (ht_map ht)(key \<mapsto> w)"
    using ht_map_replace [OF goodD(2) [OF g] once refl len, of ?ht' key h v h] s by (simp add: ht')
qed

lemma good_bury:
  assumes g: "good ht" and s: "s < capacity ht" "entries ht ! s = HtOccupied key h v"
  shows "good (bury ht s)" "ht_map (bury ht s) = (ht_map ht)(key := None)"
proof -
  let ?es' = "(entries ht)[s := HtTombstone]"
  have len: "s < length (entries ht)" using s goodD(4) [OF g] by simp
  have once: "keys_once ?es'"
    by (rule keys_once_update [OF goodD(2) [OF g] len]) simp
  have pass: "passable (capacity ht) (entries ht) j p \<Longrightarrow> passable (capacity ht) ?es' j p" for j p
    using s len by (cases "p = s") (auto simp: passable_def)
  have "path_open (capacity ht) ?es' t" if t: "t < capacity ht" for t
  proof -
    have "path_open (capacity ht) (entries ht) t" using g t by (simp add: good_def)
    then show ?thesis using s len pass by (cases "t = s") (auto simp: path_open_def split: ht_entry.splits)
  qed
  with once bury_facts(1) [OF goodD(1) [OF g] s] show "good (bury ht s)"
    by (simp add: good_def bury_def)
  show "ht_map (bury ht s) = (ht_map ht)(key := None)"
    using ht_map_replace [OF goodD(2) [OF g] once refl len, of "bury ht s" key h v h] s by (simp add: bury_def)
qed

section \<open>Insertion along a clean probe path\<close>

text \<open>
  Every slot the probe goes past is occupied, by another key, at least as far from its home as the
  probe is from its own (so nothing is swapped), and the probe ends at an empty slot or at the key's
  own entry (so no tombstone is reused).
\<close>

definition clean_step :: "nat \<Rightarrow> 'v ht_entry list \<Rightarrow> string \<Rightarrow> nat \<Rightarrow> bool" where
  "clean_step cap es key i =
     (let p = probe_index cap (ht_hash key) i in
      case es ! p of HtOccupied k h v \<Rightarrow> k \<noteq> key \<and> i \<le> probe_distance cap h p | _ \<Rightarrow> False)"

definition clean_end :: "nat \<Rightarrow> 'v ht_entry list \<Rightarrow> string \<Rightarrow> nat \<Rightarrow> bool" where
  "clean_end cap es key n =
     (case es ! probe_index cap (ht_hash key) n of
        HtEmpty \<Rightarrow> True | HtOccupied k h v \<Rightarrow> k = key | HtTombstone \<Rightarrow> False)"

definition clean_probe :: "'v hashtable \<Rightarrow> string \<Rightarrow> bool" where
  "clean_probe ht key \<longleftrightarrow>
     (\<exists>n<capacity ht. (\<forall>i<n. clean_step (capacity ht) (entries ht) key i) \<and>
        clean_end (capacity ht) (entries ht) key n)"

definition fill_slot :: "'v hashtable \<Rightarrow> nat \<Rightarrow> string \<Rightarrow> 'v \<Rightarrow> 'v hashtable" where
  "fill_slot ht s key v =
     ht\<lparr>entries := (entries ht)[s := HtOccupied key (ht_hash key) v], size_of := size_of ht + 1\<rparr>"

lemma clean_loop:
  assumes ok: "slots_ok (capacity ht) (entries ht)" and n: "n < capacity ht"
    and steps: "\<forall>i<n. clean_step (capacity ht) (entries ht) key i"
    and fin: "clean_end (capacity ht) (entries ht) key n" and i: "i \<le> n"
  defines "s \<equiv> probe_index (capacity ht) (ht_hash key) n"
  shows "ht_set_loop key ht key (ht_hash key) v 1 i =
     Some (case entries ht ! s of HtEmpty \<Rightarrow> (fill_slot ht s key v, 1) | _ \<Rightarrow> (set_entry_value ht s v, 0))"
  using i
proof (induction "n - i" arbitrary: i)
  case 0
  then have i: "i = n" by simp
  have s: "s < length (entries ht)" using slots_okD(1,2) [OF ok] by (simp add: s_def)
  note unfold = ht_set_loop.simps [of key ht key "ht_hash key" v 1 n] Let_def s_def [symmetric]
  show ?case
  proof (cases "entries ht ! s")
    case HtEmpty
    then show ?thesis unfolding i by (simp add: unfold fill_slot_def)
  next
    case (HtOccupied k eh ev)
    with fin have k: "k = key" by (simp add: clean_end_def s_def)
    have "eh = ht_hash key" using slots_okD(2,3) [OF ok] s HtOccupied k by metis
    with HtOccupied k show ?thesis unfolding i by (simp add: unfold set_entry_value_def)
  next
    case HtTombstone
    with fin show ?thesis by (simp add: clean_end_def s_def)
  qed
next
  case (Suc d)
  then have "i < n" by simp
  with steps have "clean_step (capacity ht) (entries ht) key i" by blast
  then obtain k h w where
    step: "entries ht ! probe_index (capacity ht) (ht_hash key) i = HtOccupied k h w" "k \<noteq> key"
      "i \<le> probe_distance (capacity ht) h (probe_index (capacity ht) (ht_hash key) i)"
    by (auto simp: clean_step_def Let_def split: ht_entry.splits)
  have "probe_distance (capacity ht) (ht_hash key) (probe_index (capacity ht) (ht_hash key) i) = i"
    using \<open>i < n\<close> n slots_okD(1) [OF ok] by (simp add: probe_distance_index)
  moreover have "ht_set_loop key ht key (ht_hash key) v 1 (Suc i) =
      Some (case entries ht ! s of HtEmpty \<Rightarrow> (fill_slot ht s key v, 1) | _ \<Rightarrow> (set_entry_value ht s v, 0))"
    using Suc by simp
  ultimately show ?case using step
    by (simp add: ht_set_loop.simps [of key ht key "ht_hash key" v 1 i] Let_def)
qed

lemma good_fill_slot:
  assumes g: "good ht" and n: "n < capacity ht"
    and steps: "\<forall>i<n. clean_step (capacity ht) (entries ht) key i"
    and e: "entries ht ! probe_index (capacity ht) (ht_hash key) n = HtEmpty"
    and wf: "wf_ht (fill_slot ht (probe_index (capacity ht) (ht_hash key) n) key v)"
  shows "good (fill_slot ht (probe_index (capacity ht) (ht_hash key) n) key v)"
    and "ht_map (fill_slot ht (probe_index (capacity ht) (ht_hash key) n) key v) = (ht_map ht)(key \<mapsto> v)"
    and "ht_map ht key = None"
proof -
  let ?c = "capacity ht" and ?h = "ht_hash key"
  let ?s = "probe_index ?c ?h n"
  let ?es' = "(entries ht)[?s := HtOccupied key ?h v]"
  note cap = goodD(3) [OF g]
  have s: "?s < length (entries ht)" using goodD(4) [OF g] cap by simp
  have absent: "entries ht ! t \<noteq> HtOccupied key h u" if t: "t < length (entries ht)" for t h u
  proof
    assume at: "entries ht ! t = HtOccupied key h u"
    then have h: "h = ?h" using slots_okD(2,3) [OF goodD(5) [OF g]] t by metis
    let ?d = "probe_distance ?c ?h t"
    have pt: "probe_index ?c ?h ?d = t" using probe_index_distance [OF cap] t goodD(4) [OF g] by simp
    consider "?d < n" | "?d = n" | "n < ?d" by linarith
    then show False
    proof cases
      case 1
      with steps have "clean_step ?c (entries ht) key ?d" by blast
      with at pt show False by (simp add: clean_step_def Let_def)
    next
      case 2
      with pt at e show False by simp
    next
      case 3
      with good_path [OF g _ at [unfolded h], of n] t goodD(4) [OF g] e show False
        by (simp add: passable_def)
    qed
  qed
  have once: "keys_once ?es'"
  proof (rule keys_once_update [OF goodD(2) [OF g] s])
    fix t assume "t < length (entries ht)" "t \<noteq> ?s"
    with absent [of t] show "\<not> same_key (HtOccupied key ?h v) (entries ht ! t)"
      by (cases "entries ht ! t") auto
  qed
  have pass: "passable ?c (entries ht) j p \<Longrightarrow> passable ?c ?es' j p" for j p
    using e s by (cases "p = ?s") (auto simp: passable_def)
  have new: "passable ?c ?es' j (probe_index ?c ?h j)" if j: "j < n" for j
  proof -
    have "clean_step ?c (entries ht) key j" using steps j by blast
    then have "passable ?c (entries ht) j (probe_index ?c ?h j)"
      by (auto simp: clean_step_def Let_def passable_def split: ht_entry.splits)
    then show ?thesis by (rule pass)
  qed
  have "path_open ?c ?es' t" if t: "t < ?c" for t
  proof (cases "t = ?s")
    case True
    with new s probe_distance_index [OF cap, of ?h n] n show ?thesis by (simp add: path_open_def)
  next
    case False
    have "path_open ?c (entries ht) t" using g t by (simp add: good_def)
    with False pass show ?thesis by (auto simp: path_open_def split: ht_entry.splits)
  qed
  with once wf show "good (fill_slot ht ?s key v)" by (simp add: good_def fill_slot_def)
  show "ht_map (fill_slot ht ?s key v) = (ht_map ht)(key \<mapsto> v)"
    using ht_map_replace [OF goodD(2) [OF g] once refl s, of "fill_slot ht ?s key v" key _ _ ?h] e
    by (simp add: fill_slot_def)
  have "ht_map ht key \<noteq> Some u" for u using ht_map_Some [OF goodD(2) [OF g]] absent by blast
  then show "ht_map ht key = None" by (cases "ht_map ht key") auto
qed

text \<open>An insertion is safe if growing the table, where it happens, leaves it good, and the probe is clean.\<close>

definition set_ok :: "'v hashtable \<Rightarrow> string \<Rightarrow> bool" where
  "set_ok ht key = (case grown ht of None \<Rightarrow> False | Some ht1 \<Rightarrow> good ht1 \<and> clean_probe ht1 key)"

definition del_ok :: "'v hashtable \<Rightarrow> string \<Rightarrow> bool" where
  "del_ok ht key = (case ht_delete ht key of None \<Rightarrow> False | Some (ht', r) \<Rightarrow> good ht')"

lemma ht_set_map:
  assumes g: "good ht" and ok: "set_ok ht key"
  shows "\<exists>ht'. ht_set ht key v = Some (ht', if ht_map ht key = None then 1 else 0) \<and> good ht' \<and>
           ht_map ht' = (ht_map ht)(key \<mapsto> v)"
proof -
  from ok obtain ht1 where g1: "grown ht = Some ht1" "good ht1" and "clean_probe ht1 key"
    by (auto simp: set_ok_def split: option.splits)
  then obtain n where n: "n < capacity ht1" and steps: "\<forall>i<n. clean_step (capacity ht1) (entries ht1) key i"
    and fin: "clean_end (capacity ht1) (entries ht1) key n" by (auto simp: clean_probe_def)
  have "ht_bag ht1 = ht_bag ht" using grown_total [OF goodD(1) [OF g]] g1(1) by auto
  then have m: "ht_map ht1 = ht_map ht" by (rule ht_map_eqI [OF goodD(2) [OF g] goodD(2) [OF g1(2)]])
  let ?s = "probe_index (capacity ht1) (ht_hash key) n"
  have run: "ht_set ht key v = Some (case entries ht1 ! ?s of HtEmpty \<Rightarrow> (fill_slot ht1 ?s key v, 1)
      | _ \<Rightarrow> (set_entry_value ht1 ?s v, 0))"
    using clean_loop [OF goodD(5) [OF g1(2)] n steps fin le0] g1(1) by (simp add: ht_set_grown)
  show ?thesis
  proof (cases "entries ht1 ! ?s")
    case HtEmpty
    with run have set: "ht_set ht key v = Some (fill_slot ht1 ?s key v, 1)" by simp
    then have "wf_ht (fill_slot ht1 ?s key v)" using ht_set_spec [OF goodD(1) [OF g], of key v] by auto
    from good_fill_slot [OF g1(2) n steps HtEmpty this] set m show ?thesis by auto
  next
    case (HtOccupied k h w)
    with fin have k: "k = key" by (simp add: clean_end_def)
    have s: "?s < capacity ht1" using goodD(3) [OF g1(2)] by simp
    have at: "entries ht1 ! ?s = HtOccupied key h w" using HtOccupied k by simp
    have "ht_map ht1 key = Some w"
      using ht_map_Some [OF goodD(2) [OF g1(2)]] s at goodD(4) [OF g1(2)] by auto
    with good_set_entry_value [OF g1(2) s at, of v] run HtOccupied m show ?thesis by auto
  next
    case HtTombstone
    with fin show ?thesis by (simp add: clean_end_def)
  qed
qed

lemma ht_delete_map:
  assumes g: "good ht" and ok: "del_ok ht key"
  shows "\<exists>ht'. ht_delete ht key = Some (ht', if ht_map ht key = None then 0 else 1) \<and> good ht' \<and>
           ht_map ht' = (ht_map ht)(key := None)"
proof -
  obtain p where p: "ht_find ht key = Some p" using ht_find_total [OF goodD(1) [OF g]] by blast
  show ?thesis
  proof (cases p)
    case None
    with p ht_map_None_iff [OF g, of key] have "ht_map ht key = None" by simp
    moreover from this have "(ht_map ht)(key := None) = ht_map ht" by auto
    ultimately show ?thesis using p None g by (simp add: ht_delete_def)
  next
    case (Some s)
    with p have f: "ht_find ht key = Some (Some s)" by simp
    note at = ht_find_map [OF g f]
    note b = good_bury [OF g at(3,4)]
    show ?thesis
    proof (cases "load_low (bury ht s)")
      case True
      from shrink_total [OF goodD(1) [OF b(1)] True] obtain ht' where
        ht': "ht_resize (bury ht s) (capacity (bury ht s) div 2) = Some ht'" "ht_bag ht' = ht_bag (bury ht s)"
        by blast
      with f True have del: "ht_delete ht key = Some (ht', 1)" by (simp add: ht_delete_def Let_def)
      with ok have g': "good ht'" by (simp add: del_ok_def)
      have "ht_map ht' = ht_map (bury ht s)"
        by (rule ht_map_eqI [OF goodD(2) [OF b(1)] goodD(2) [OF g'] ht'(2)])
      with del g' b(2) at(2) show ?thesis by auto
    next
      case False
      with f b at(2) show ?thesis by (auto simp: ht_delete_def Let_def)
    qed
  qed
qed

text \<open>Without a growth a clean probe is enough, and a deletion that does not shrink the table is safe; a
  table of the smallest capacity is never shrunk.\<close>

lemma set_ok_no_growth: "good ht \<Longrightarrow> \<not> load_high ht \<Longrightarrow> clean_probe ht key \<Longrightarrow> set_ok ht key"
  by (simp add: set_ok_def grown_def)

lemma del_ok_no_shrink:
  assumes g: "good ht" and "capacity ht \<le> 64 \<or> 20 \<le> (size_of ht - 1) * 100 div capacity ht"
  shows "del_ok ht key"
proof -
  obtain p where p: "ht_find ht key = Some p" using ht_find_total [OF goodD(1) [OF g]] by blast
  show ?thesis
  proof (cases p)
    case None
    with p g show ?thesis by (simp add: del_ok_def ht_delete_def)
  next
    case (Some s)
    with p have f: "ht_find ht key = Some (Some s)" by simp
    have "\<not> load_low (bury ht s)" using assms(2) by (auto simp: load_low_def HT_MIN_CAP_def bury_def)
    with f good_bury(1) [OF g ht_find_map(3,4) [OF g f]] show ?thesis
      by (simp add: del_ok_def ht_delete_def Let_def)
  qed
qed

lemma del_ok_small: "good ht \<Longrightarrow> capacity ht = 64 \<Longrightarrow> del_ok ht key"
  by (rule del_ok_no_shrink) simp_all

section \<open>The contract of a key-value table\<close>

locale kv_table =
  fixes invar :: "'t \<Rightarrow> bool"
    and lookup :: "'t \<Rightarrow> string \<Rightarrow> 'v option"
    and get :: "'t \<Rightarrow> string \<Rightarrow> 'v option option"
    and put :: "'t \<Rightarrow> string \<Rightarrow> 'v \<Rightarrow> ('t \<times> int) option"
    and del :: "'t \<Rightarrow> string \<Rightarrow> ('t \<times> int) option"
    and put_safe :: "'t \<Rightarrow> string \<Rightarrow> bool"
    and del_safe :: "'t \<Rightarrow> string \<Rightarrow> bool"
  assumes get_lookup: "invar t \<Longrightarrow> get t k = Some (lookup t k)"
    and put_lookup: "invar t \<Longrightarrow> put_safe t k \<Longrightarrow>
      \<exists>t'. put t k v = Some (t', if lookup t k = None then 1 else 0) \<and> invar t' \<and> lookup t' = (lookup t)(k \<mapsto> v)"
    and del_lookup: "invar t \<Longrightarrow> del_safe t k \<Longrightarrow>
      \<exists>t'. del t k = Some (t', if lookup t k = None then 0 else 1) \<and> invar t' \<and> lookup t' = (lookup t)(k := None)"
begin

lemma get_put:
  assumes "invar t" "put_safe t k" "put t k v = Some (t', r)"
  shows "get t' k' = (if k' = k then Some (Some v) else get t k')"
proof -
  from put_lookup [OF assms(1,2), of v] assms(3) have "invar t'" "lookup t' = (lookup t)(k \<mapsto> v)" by auto
  then show ?thesis using get_lookup [of t' k'] get_lookup [OF assms(1), of k'] by simp
qed

lemma get_del:
  assumes "invar t" "del_safe t k" "del t k = Some (t', r)"
  shows "get t' k' = (if k' = k then Some None else get t k')"
proof -
  from del_lookup [OF assms(1,2)] assms(3) have "invar t'" "lookup t' = (lookup t)(k := None)" by auto
  then show ?thesis using get_lookup [of t' k'] get_lookup [OF assms(1), of k'] by simp
qed

lemma put_reports:
  assumes "invar t" "put_safe t k" "put t k v = Some (t', r)"
  shows "r = 1 \<longleftrightarrow> get t k = Some None"
  using put_lookup [OF assms(1,2), of v] assms(3) get_lookup [OF assms(1), of k] by auto

lemma del_reports:
  assumes "invar t" "del_safe t k" "del t k = Some (t', r)"
  shows "r = 0 \<longleftrightarrow> get t k = Some None"
  using del_lookup [OF assms(1,2)] assms(3) get_lookup [OF assms(1), of k] by auto

end

text \<open>A table whose client also holds pointers to entries and writes through them.\<close>

locale kv_table_ptr = kv_table +
  fixes find :: "'a \<Rightarrow> string \<Rightarrow> nat option option"
    and peek :: "'a \<Rightarrow> nat \<Rightarrow> 'b option"
    and poke :: "'a \<Rightarrow> nat \<Rightarrow> 'b \<Rightarrow> 'a"
  assumes find_lookup: "invar t \<Longrightarrow>
      (\<exists>p. find t k = Some (Some p) \<and> peek t p = lookup t k \<and> lookup t k \<noteq> None) \<or>
      find t k = Some None \<and> lookup t k = None"
    and poke_lookup: "invar t \<Longrightarrow> find t k = Some (Some p) \<Longrightarrow>
      invar (poke t p w) \<and> lookup (poke t p w) = (lookup t)(k \<mapsto> w)"
begin

lemma get_poke:
  assumes "invar t" "find t k = Some (Some p)"
  shows "get (poke t p w) k' = (if k' = k then Some (Some w) else get t k')"
  using poke_lookup [OF assms, of w] get_lookup [of "poke t p w" k'] get_lookup [OF assms(1), of k'] by simp

end

interpretation tbl: kv_table_ptr good ht_map ht_get ht_set ht_delete set_ok del_ok ht_find entry_value set_entry_value
proof unfold_locales
  fix ht :: "'a hashtable" and k p w
  assume g: "good ht"
  show "ht_get ht k = Some (ht_map ht k)" by (rule ht_get_map [OF g])
  obtain q where q: "ht_find ht k = Some q" using ht_find_total [OF goodD(1) [OF g]] by blast
  show "(\<exists>p. ht_find ht k = Some (Some p) \<and> entry_value ht p = ht_map ht k \<and> ht_map ht k \<noteq> None) \<or>
      ht_find ht k = Some None \<and> ht_map ht k = None"
    using q ht_find_map(1,2) [OF g, of k] ht_map_None_iff [OF g, of k] by (cases q) auto
  show "good (set_entry_value ht p w) \<and> ht_map (set_entry_value ht p w) = (ht_map ht)(k \<mapsto> w)"
    if "ht_find ht k = Some (Some p)"
    using good_set_entry_value [OF g ht_find_map(3,4) [OF g that]] by blast
qed (rule ht_set_map ht_delete_map; assumption)+

end
