(* ===== verification/Database.thy ===== *)
theory Database
  imports Objects HashTable_Map
begin

text \<open>
  \<open>src/db.c\<close>: entries with expiry times in the hash table, and the operations the commands call.
  The pointer to an entry is the slot that holds it; the code only uses it until the next operation
  on the table. \<open>clk n\<close> is the n-th reading of the clock (\<open>imdb_mstime\<close>), and
  \<open>db_ticks\<close> counts the readings, so that two readings in one operation may differ. A key
  argument may be NULL, which \<open>ht_hash\<close> dereferences.
\<close>

section \<open>Data\<close>

record db_entry =
  obj :: dbobj
  expire :: int

record database =
  db_ht :: "db_entry hashtable"
  last_expire_sweep :: int
  db_ticks :: nat

type_synonym clock = "nat \<Rightarrow> int"

definition EXPIRE_SWEEP_INTERVAL :: int where "EXPIRE_SWEEP_INTERVAL = 100"
definition EXPIRE_SWEEP_SAMPLES :: nat where "EXPIRE_SWEEP_SAMPLES = 20"

definition imdb_mstime :: "clock \<Rightarrow> database \<Rightarrow> int \<times> database" where
  "imdb_mstime clk db = (clk (db_ticks db), db\<lparr>db_ticks := Suc (db_ticks db)\<rparr>)"

definition db_create :: "clock \<Rightarrow> database res" where
  "db_create clk =
     bindR (returns (ht_create 64)) (\<lambda>ht.
     Inr \<lparr>db_ht = ht, last_expire_sweep = clk 0, db_ticks = 1\<rparr>)"

section \<open>Entries\<close>

definition entry_at :: "database \<Rightarrow> nat \<Rightarrow> db_entry res" where
  "entry_at db idx = deref (entry_value (db_ht db) idx)"

definition write_entry :: "database \<Rightarrow> nat \<Rightarrow> db_entry \<Rightarrow> database" where
  "write_entry db idx e = db\<lparr>db_ht := set_entry_value (db_ht db) idx e\<rparr>"

definition ht_put :: "database \<Rightarrow> string \<Rightarrow> db_entry \<Rightarrow> database res" where
  "ht_put db key e = bindR (returns (ht_set (db_ht db) key e)) (\<lambda>(ht, r). Inr (db\<lparr>db_ht := ht\<rparr>))"

definition ht_remove :: "database \<Rightarrow> string \<Rightarrow> (database \<times> int) res" where
  "ht_remove db key = bindR (returns (ht_delete (db_ht db) key)) (\<lambda>(ht, r). Inr (db\<lparr>db_ht := ht\<rparr>, r))"

definition entry_ptr :: "database \<Rightarrow> string \<Rightarrow> nat option res" where
  "entry_ptr db key = returns (ht_find (db_ht db) key)"

definition check_expired :: "clock \<Rightarrow> database \<Rightarrow> string \<Rightarrow> (database \<times> bool) res" where
  "check_expired clk db key =
     bindR (returns (ht_get_entry (db_ht db) key)) (\<lambda>he.
     case he of
       None \<Rightarrow> Inr (db, False)
     | Some idx \<Rightarrow>
         bindR (entry_at db idx) (\<lambda>entry.
         if expire entry \<ge> 0
         then (let (now, db1) = imdb_mstime clk db in
               if now > expire entry
               then bindR (ht_remove db1 key) (\<lambda>(db2, r). Inr (db2, True))
               else Inr (db1, False))
         else Inr (db, False)))"

definition db_get_entry :: "clock \<Rightarrow> database \<Rightarrow> string \<Rightarrow> (database \<times> nat option) res" where
  "db_get_entry clk db key =
     bindR (check_expired clk db key) (\<lambda>(db1, gone).
     if gone then Inr (db1, None)
     else bindR (entry_ptr db1 key) (\<lambda>p. Inr (db1, p)))"

section \<open>String and integer operations\<close>

definition db_set :: "database \<Rightarrow> cstr \<Rightarrow> cstr \<Rightarrow> (database \<times> int) res" where
  "db_set db key0 value =
     (let entry = \<lparr>obj = obj_of_value value, expire = -1\<rparr> in
      bindR (deref key0) (\<lambda>key. bindR (ht_put db key entry) (\<lambda>db1. Inr (db1, 1))))"

definition db_get :: "clock \<Rightarrow> database \<Rightarrow> cstr \<Rightarrow> (database \<times> dbobj option) res" where
  "db_get clk db key0 =
     bindR (deref key0) (\<lambda>key.
     bindR (db_get_entry clk db key) (\<lambda>(db1, p).
     case p of
       None \<Rightarrow> Inr (db1, None)
     | Some idx \<Rightarrow> bindR (entry_at db1 idx) (\<lambda>entry. Inr (db1, Some (obj entry)))))"

definition db_del :: "clock \<Rightarrow> database \<Rightarrow> cstr \<Rightarrow> (database \<times> int) res" where
  "db_del clk db key0 =
     bindR (deref key0) (\<lambda>key.
     bindR (check_expired clk db key) (\<lambda>(db1, gone). ht_remove db1 key))"

definition db_exists :: "clock \<Rightarrow> database \<Rightarrow> cstr \<Rightarrow> (database \<times> int) res" where
  "db_exists clk db key0 =
     bindR (deref key0) (\<lambda>key.
     bindR (check_expired clk db key) (\<lambda>(db1, gone).
     if gone then Inr (db1, 0)
     else bindR (returns (ht_exists (db_ht db1) key)) (\<lambda>r. Inr (db1, r))))"

definition db_incr :: "clock \<Rightarrow> database \<Rightarrow> cstr \<Rightarrow> int \<Rightarrow> (database \<times> int) res" where
  "db_incr clk db key0 delta =
     bindR (deref key0) (\<lambda>key.
     bindR (check_expired clk db key) (\<lambda>(db1, gone).
     if gone
     then bindR (ht_put db1 key \<lparr>obj = obj_create_int delta, expire = -1\<rparr>) (\<lambda>db2. Inr (db2, delta))
     else
       bindR (entry_ptr db1 key) (\<lambda>p.
       case p of
         None \<Rightarrow>
           bindR (ht_put db1 key \<lparr>obj = obj_create_int delta, expire = -1\<rparr>) (\<lambda>db2. Inr (db2, delta))
       | Some idx \<Rightarrow>
           bindR (entry_at db1 idx) (\<lambda>entry.
           case obj entry of
             OBJ_INT num \<Rightarrow>
               bindR (int64 (num + delta)) (\<lambda>n. Inr (write_entry db1 idx (entry\<lparr>obj := OBJ_INT n\<rparr>), n))
           | OBJ_STRING str \<Rightarrow>
               (case obj_try_parse_int str of
                  Some num \<Rightarrow>
                    bindR (int64 (num + delta)) (\<lambda>n.
                    Inr (write_entry db1 idx (entry\<lparr>obj := obj_create_int n\<rparr>), n))
                | None \<Rightarrow> Inr (db1, INT64_MIN))
           | OBJ_LIST vs \<Rightarrow> Inr (db1, INT64_MIN)))))"

section \<open>List operations\<close>

text \<open>
  The entry for a key and the slot it is in. A new entry (slot \<open>None\<close>) is handed to \<open>ht_set\<close> by
  \<open>get_or_create_list\<close>, which only moves the pointer to it; the push then writes through the
  pointer. The model of \<open>db_lpush\<close> and \<open>db_rpush\<close> stores the entry once, behind the push and with the pushed contents
  (\<open>save_entry\<close>); nothing reads the table in between.
\<close>

definition get_or_create_list :: "clock \<Rightarrow> database \<Rightarrow> string \<Rightarrow> (database \<times> nat option \<times> db_entry) res" where
  "get_or_create_list clk db key =
     bindR (check_expired clk db key) (\<lambda>(db1, gone).
     bindR (entry_ptr db1 key) (\<lambda>p.
     case p of
       Some idx \<Rightarrow> bindR (entry_at db1 idx) (\<lambda>entry. Inr (db1, Some idx, entry))
     | None \<Rightarrow> Inr (db1, None, \<lparr>obj = obj_create_list, expire = -1\<rparr>)))"

definition save_entry :: "database \<Rightarrow> string \<Rightarrow> nat option \<Rightarrow> db_entry \<Rightarrow> database res" where
  "save_entry db key slot e =
     (case slot of Some idx \<Rightarrow> Inr (write_entry db idx e) | None \<Rightarrow> ht_put db key e)"

definition db_lpush :: "clock \<Rightarrow> database \<Rightarrow> cstr \<Rightarrow> cstr \<Rightarrow> (database \<times> int) res" where
  "db_lpush clk db key0 value =
     bindR (deref key0) (\<lambda>key.
     bindR (get_or_create_list clk db key) (\<lambda>(db1, slot, entry).
     case obj entry of
       OBJ_LIST vs \<Rightarrow>
         bindR (save_entry db1 key slot (entry\<lparr>obj := OBJ_LIST (value # vs)\<rparr>)) (\<lambda>db2.
         Inr (db2, to_int32 (int (length (value # vs)))))
     | _ \<Rightarrow> Inr (db1, -1)))"

definition db_rpush :: "clock \<Rightarrow> database \<Rightarrow> cstr \<Rightarrow> cstr \<Rightarrow> (database \<times> int) res" where
  "db_rpush clk db key0 value =
     bindR (deref key0) (\<lambda>key.
     bindR (get_or_create_list clk db key) (\<lambda>(db1, slot, entry).
     case obj entry of
       OBJ_LIST vs \<Rightarrow>
         bindR (save_entry db1 key slot (entry\<lparr>obj := OBJ_LIST (vs @ [value])\<rparr>)) (\<lambda>db2.
         Inr (db2, to_int32 (int (length (vs @ [value])))))
     | _ \<Rightarrow> Inr (db1, -1)))"

text \<open>
  \<open>db_lpop\<close> and \<open>db_rpop\<close>, given the operation of the list. The result is a \<open>char *\<close>: NULL
  both for an empty list and for a NULL value. The key is deleted when the list is empty afterwards.
\<close>

definition db_pop :: "list_op \<Rightarrow> clock \<Rightarrow> database \<Rightarrow> cstr \<Rightarrow> (database \<times> cstr) res" where
  "db_pop which clk db key0 =
     bindR (deref key0) (\<lambda>key.
     bindR (check_expired clk db key) (\<lambda>(db1, gone).
     if gone then Inr (db1, None)
     else
       bindR (entry_ptr db1 key) (\<lambda>p.
       case p of
         None \<Rightarrow> Inr (db1, None)
       | Some idx \<Rightarrow>
           bindR (entry_at db1 idx) (\<lambda>entry.
           case obj entry of
             OBJ_LIST vs \<Rightarrow>
               (let (vs', r) = vlist_step vs which;
                    val = (case r of None \<Rightarrow> None | Some v \<Rightarrow> v);
                    db2 = write_entry db1 idx (entry\<lparr>obj := OBJ_LIST vs'\<rparr>)
                in if length vs' = 0
                   then bindR (ht_remove db2 key) (\<lambda>(db3, d). Inr (db3, val))
                   else Inr (db2, val))
           | _ \<Rightarrow> Inr (db1, None)))))"

definition db_lpop :: "clock \<Rightarrow> database \<Rightarrow> cstr \<Rightarrow> (database \<times> cstr) res" where
  "db_lpop = db_pop LPop"

definition db_rpop :: "clock \<Rightarrow> database \<Rightarrow> cstr \<Rightarrow> (database \<times> cstr) res" where
  "db_rpop = db_pop RPop"

definition db_llen :: "clock \<Rightarrow> database \<Rightarrow> cstr \<Rightarrow> (database \<times> int) res" where
  "db_llen clk db key0 =
     bindR (deref key0) (\<lambda>key.
     bindR (check_expired clk db key) (\<lambda>(db1, gone).
     if gone then Inr (db1, 0)
     else
       bindR (entry_ptr db1 key) (\<lambda>p.
       case p of
         None \<Rightarrow> Inr (db1, 0)
       | Some idx \<Rightarrow>
           bindR (entry_at db1 idx) (\<lambda>entry.
           case obj entry of
             OBJ_LIST vs \<Rightarrow> Inr (db1, int (length vs))
           | _ \<Rightarrow> Inr (db1, -1)))))"

text \<open>The array \<open>db_lrange\<close> returns, NULL when there is none (\<open>count\<close> is then 0).\<close>

definition db_lrange :: "clock \<Rightarrow> database \<Rightarrow> cstr \<Rightarrow> int \<Rightarrow> int \<Rightarrow> (database \<times> cstr list option) res" where
  "db_lrange clk db key0 start stop =
     bindR (deref key0) (\<lambda>key.
     bindR (check_expired clk db key) (\<lambda>(db1, gone).
     if gone then Inr (db1, None)
     else
       bindR (entry_ptr db1 key) (\<lambda>p.
       case p of
         None \<Rightarrow> Inr (db1, None)
       | Some idx \<Rightarrow>
           bindR (entry_at db1 idx) (\<lambda>entry.
           case obj entry of
             OBJ_LIST vs \<Rightarrow> Inr (db1, vlist_range vs start stop)
           | _ \<Rightarrow> Inr (db1, None)))))"

section \<open>Expiry operations\<close>

definition db_expire :: "clock \<Rightarrow> database \<Rightarrow> cstr \<Rightarrow> int \<Rightarrow> (database \<times> int) res" where
  "db_expire clk db key0 seconds =
     bindR (deref key0) (\<lambda>key.
     bindR (db_get_entry clk db key) (\<lambda>(db1, p).
     case p of
       None \<Rightarrow> Inr (db1, 0)
     | Some idx \<Rightarrow>
         bindR (entry_at db1 idx) (\<lambda>entry.
         let (now, db2) = imdb_mstime clk db1 in
         bindR (int64 (seconds * 1000)) (\<lambda>ms.
         bindR (int64 (now + ms)) (\<lambda>at.
         Inr (write_entry db2 idx (entry\<lparr>expire := at\<rparr>), 1))))))"

definition db_ttl :: "clock \<Rightarrow> database \<Rightarrow> cstr \<Rightarrow> (database \<times> int) res" where
  "db_ttl clk db key0 =
     bindR (deref key0) (\<lambda>key.
     bindR (db_get_entry clk db key) (\<lambda>(db1, p).
     case p of
       None \<Rightarrow> Inr (db1, -2)
     | Some idx \<Rightarrow>
         bindR (entry_at db1 idx) (\<lambda>entry.
         if expire entry < 0 then Inr (db1, -1)
         else
           (let (now, db2) = imdb_mstime clk db1 in
            bindR (int64 (expire entry - now)) (\<lambda>left.
            let remaining = c_div left 1000 in
            Inr (db2, if remaining > 0 then remaining else 0))))))"

definition db_persist :: "clock \<Rightarrow> database \<Rightarrow> cstr \<Rightarrow> (database \<times> int) res" where
  "db_persist clk db key0 =
     bindR (deref key0) (\<lambda>key.
     bindR (db_get_entry clk db key) (\<lambda>(db1, p).
     case p of
       None \<Rightarrow> Inr (db1, 0)
     | Some idx \<Rightarrow>
         bindR (entry_at db1 idx) (\<lambda>entry.
         if expire entry < 0 then Inr (db1, 0)
         else Inr (write_entry db1 idx (entry\<lparr>expire := -1\<rparr>), 1))))"

section \<open>Whole database\<close>

definition db_size :: "database \<Rightarrow> nat" where
  "db_size db = ht_size (db_ht db)"

definition db_flush :: "database \<Rightarrow> database res" where
  "db_flush db = bindR (returns (ht_create 64)) (\<lambda>ht. Inr (db\<lparr>db_ht := ht\<rparr>))"

text \<open>
  The sweep looks at \<open>EXPIRE_SWEEP_SAMPLES - checked\<close> more entries; a deletion restarts the
  iterator.
\<close>

fun sweep_loop :: "nat \<Rightarrow> int \<Rightarrow> database \<Rightarrow> nat \<Rightarrow> database res" where
  "sweep_loop 0 now db index = Inr db"
| "sweep_loop (Suc left) now db index =
     (case ht_iter_next (db_ht db) index of
        (index', None) \<Rightarrow> Inr db
      | (index', Some s) \<Rightarrow>
          (case entries (db_ht db) ! s of
             HtOccupied key h entry \<Rightarrow>
               if expire entry \<ge> 0 \<and> now > expire entry
               then bindR (ht_remove db key) (\<lambda>(db1, r). sweep_loop left now db1 0)
               else sweep_loop left now db index'
           | _ \<Rightarrow> Inr db))"

definition db_expire_sweep :: "clock \<Rightarrow> database \<Rightarrow> database res" where
  "db_expire_sweep clk db =
     (let (now, db1) = imdb_mstime clk db in
      bindR (int64 (now - last_expire_sweep db1)) (\<lambda>elapsed.
      if elapsed < EXPIRE_SWEEP_INTERVAL then Inr db1
      else
        (let db2 = db1\<lparr>last_expire_sweep := now\<rparr> in
         if ht_size (db_ht db2) = 0 then Inr db2
         else sweep_loop EXPIRE_SWEEP_SAMPLES now db2 0)))"

end
