(* ===== verification/Database_Inv.thy ===== *)
theory Database_Inv
  imports Database
begin

text \<open>
  The type invariant of the database: the table is well formed, keys and strings are proper C
  strings, integers and expiry times are 64-bit and no stored string is NULL. Every operation of
  \<open>db.c\<close> called with proper strings keeps it, and the only thing that can go wrong in one is a
  signed overflow.
\<close>

section \<open>Tables whose values satisfy a predicate\<close>

definition ht_all :: "('v \<Rightarrow> bool) \<Rightarrow> 'v hashtable \<Rightarrow> bool" where
  "ht_all P ht \<longleftrightarrow> wf_ht ht \<and> (\<forall>k v. (k, v) \<in># ht_bag ht \<longrightarrow> cstr_ok k \<and> P v)"

lemma inserted_members:
  assumes "inserted key B (key, v) B' r" "(k, x) \<in># B'"
  shows "(k = key \<or> (\<exists>y. (k, y) \<in># B)) \<and> (x = v \<or> (\<exists>k'. (k', x) \<in># B))"
  using assms(1) unfolding inserted_def
proof (elim disjE conjE exE)
  assume "B' = add_mset (key, v) B"
  with assms(2) show ?thesis by auto
next
  fix ck cv w assume eq: "B' + {#(ck, cv), (key, w)#} = B + {#(key, v), (key, cv)#}"
  show ?thesis
  proof (cases "ck = key")
    case True
    with eq have "B' + {#(key, w)#} = B + {#(key, v)#}" by (simp add: add_mset_commute)
    then have "B' \<subseteq># B + {#(key, v)#}" by (metis mset_subset_eq_add_left)
    then have "(k, x) \<in># B + {#(key, v)#}" using assms(2) by (rule mset_subset_eqD)
    then show ?thesis by auto
  next
    case False
    have "(ck, cv) \<in># B' + {#(ck, cv), (key, w)#}" by simp
    then have cv: "(ck, cv) \<in># B" using False unfolding eq by auto
    have "(k, x) \<in># B' + {#(ck, cv), (key, w)#}" using assms(2) by simp
    then have "(k, x) \<in># B \<or> k = key \<and> (x = v \<or> x = cv)" unfolding eq by auto
    with cv show ?thesis by auto
  qed
qed

lemma ht_all_set:
  assumes "ht_all P ht" "cstr_ok key" "P v"
  shows "\<exists>ht' r. ht_set ht key v = Some (ht', r) \<and> ht_all P ht'"
proof -
  obtain ht' r where set: "ht_set ht key v = Some (ht', r)" "wf_ht ht'" "inserted key (ht_bag ht) (key, v) (ht_bag ht') r"
    using ht_set_spec [of ht key v] assms(1) by (auto simp: ht_all_def)
  have "cstr_ok k \<and> P x" if "(k, x) \<in># ht_bag ht'" for k x
    using inserted_members [OF set(3) that] assms by (auto simp: ht_all_def)
  with set show ?thesis by (auto simp: ht_all_def)
qed

lemma ht_all_delete:
  assumes "ht_all P ht"
  shows "\<exists>ht' r. ht_delete ht key = Some (ht', r) \<and> ht_all P ht' \<and> 0 \<le> r \<and> r \<le> 1"
proof -
  obtain ht' r where del: "ht_delete ht key = Some (ht', r)" "wf_ht ht'"
    and bag: "r = 0 \<and> ht' = ht \<or> r = 1 \<and> (\<exists>v. add_mset (key, v) (ht_bag ht') = ht_bag ht)"
    using ht_delete_spec [of ht key] assms unfolding ht_all_def by blast
  then have "ht_bag ht' \<subseteq># ht_bag ht" by (metis subset_mset.order_refl mset_subset_eq_add_mset_cancel mset_subset_eq_insertD subset_mset.less_imp_le)
  then have "(k, x) \<in># ht_bag ht" if "(k, x) \<in># ht_bag ht'" for k x
    by (rule mset_subset_eqD) (rule that)
  with assms have "cstr_ok k \<and> P x" if "(k, x) \<in># ht_bag ht'" for k x
    using that unfolding ht_all_def by blast
  with del bag show ?thesis by (auto simp: ht_all_def)
qed

lemma ht_all_find:
  assumes "ht_all P ht"
  shows "\<exists>p. ht_find ht key = Some p \<and> (\<forall>s. p = Some s \<longrightarrow> s < capacity ht \<and>
           (\<exists>v. entries ht ! s = HtOccupied key (ht_hash key) v \<and> P v))"
proof -
  have wf: "wf_ht ht" using assms by (simp add: ht_all_def)
  obtain p where p: "ht_find ht key = Some p"
    and at: "\<And>s. p = Some s \<Longrightarrow> s < capacity ht \<and> (\<exists>v. entries ht ! s = HtOccupied key (ht_hash key) v)"
    using ht_find_total [OF wf, of key] by blast
  have "P v" if "s < capacity ht" "entries ht ! s = HtOccupied key (ht_hash key) v" for s v
  proof -
    have "(key, v) \<in># ht_bag ht" using that wf_htD(3) [OF wf] by (auto simp: ht_bag_def in_slots_bag)
    with assms show ?thesis by (auto simp: ht_all_def)
  qed
  with p at show ?thesis by blast
qed

lemma ht_all_poke:
  assumes "ht_all P ht" "s < capacity ht" "entries ht ! s = HtOccupied key h v" "P w"
  shows "ht_all P (set_entry_value ht s w)"
proof -
  have wf: "wf_ht ht" using assms(1) by (simp add: ht_all_def)
  note poke = set_entry_value_wf [OF wf assms(2,3), of w]
  have "(key, v) \<in># ht_bag ht" using assms(2,3) wf_htD(3) [OF wf] by (auto simp: ht_bag_def in_slots_bag)
  then have key: "cstr_ok key" using assms(1) by (auto simp: ht_all_def)
  have "(k, x) \<in># add_mset (key, w) (ht_bag ht)" if "(k, x) \<in># ht_bag (set_entry_value ht s w)" for k x
    using that unfolding poke(2) [symmetric] by simp
  then have "cstr_ok k \<and> P x" if "(k, x) \<in># ht_bag (set_entry_value ht s w)" for k x
    using that assms(1,4) key by (fastforce simp: ht_all_def)
  with poke(1) show ?thesis by (auto simp: ht_all_def)
qed

section \<open>Writing through a pointer does not change what is found\<close>

lemma ht_find_loop_poke:
  assumes "slots_ok cap es" "f < cap" "es ! f = HtEmpty" and s: "es ! s = HtOccupied k h0 v" "s < cap"
  shows "ht_find_loop (es[s := HtOccupied k h0 w]) cap key h i = ht_find_loop es cap key h i"
proof (induction "ring_dist cap (probe_index cap h i) f" arbitrary: i rule: less_induct)
  case less
  let ?idx = "probe_index cap h i"
  let ?es' = "es[s := HtOccupied k h0 w]"
  have cap: "table_cap cap" "length es = cap" using assms(1) by (auto dest: slots_okD)
  have next_step: "es ! ?idx \<noteq> HtEmpty \<Longrightarrow> ht_find_loop ?es' cap key h (Suc i) = ht_find_loop es cap key h (Suc i)"
    using assms cap by (intro less.hyps, subst probe_index_Suc) (auto intro!: ring_dist_Suc)
  note unfold = ht_find_loop.simps [of _ cap key h i] Let_def
  show ?case
    using next_step s cap by (cases "?idx = s"; cases "es ! ?idx") (simp_all add: unfold)
qed

lemma ht_find_poke:
  assumes wf: "wf_ht ht" and s: "s < capacity ht" "entries ht ! s = HtOccupied k h v"
  shows "ht_find (set_entry_value ht s w) key = ht_find ht key"
proof -
  obtain f where "f < capacity ht" "entries ht ! f = HtEmpty" using wf by (rule wf_ht_empty_slot)
  from ht_find_loop_poke [OF wf_htD(1) [OF wf] this s(2,1)] s show ?thesis
    by (simp add: ht_find_def set_entry_value_def)
qed

lemma ht_delete_poke:
  assumes wf: "wf_ht ht" and f: "ht_find ht key = Some (Some s)"
  shows "ht_delete (set_entry_value ht s w) key = ht_delete ht key"
proof -
  obtain v where s: "s < capacity ht" "entries ht ! s = HtOccupied key (ht_hash key) v"
    using ht_find_SomeD [OF wf f] by blast
  have "bury (set_entry_value ht s w) s = bury ht s" using s by (simp add: bury_def set_entry_value_def)
  with ht_find_poke [OF wf s, of w key] f show ?thesis by (simp add: ht_delete_def)
qed

section \<open>The invariant of the database\<close>

definition entry_ok :: "db_entry \<Rightarrow> bool" where
  "entry_ok e \<longleftrightarrow> obj_ok (obj e) \<and> in_int64 (expire e)"

definition db_ok :: "database \<Rightarrow> bool" where
  "db_ok db \<longleftrightarrow> ht_all entry_ok (db_ht db)"

definition ptr_ok :: "database \<Rightarrow> string \<Rightarrow> nat \<Rightarrow> db_entry \<Rightarrow> bool" where
  "ptr_ok db key idx e \<longleftrightarrow> ht_find (db_ht db) key = Some (Some idx) \<and> idx < capacity (db_ht db) \<and>
     entries (db_ht db) ! idx = HtOccupied key (ht_hash key) e \<and> entry_ok e"

definition cstr_result :: "cstr \<Rightarrow> bool" where
  "cstr_result p \<longleftrightarrow> (\<forall>s. p = Some s \<longrightarrow> cstr_ok s)"

lemma int64_small: "in_int64 (-1)" "in_int64 0" "in_int64 1"
  by (simp_all add: in_int64_def INT64_MIN_def INT64_MAX_def)

lemma db_ok_ticks [simp]: "db_ok (db\<lparr>db_ticks := n\<rparr>) = db_ok db" "db_ok (db\<lparr>last_expire_sweep := t\<rparr>) = db_ok db"
  by (simp_all add: db_ok_def)

lemma ptr_ok_ticks [simp]: "ptr_ok (db\<lparr>db_ticks := n\<rparr>) key idx e = ptr_ok db key idx e"
  by (simp add: ptr_ok_def)

lemma db_ok_wf: "db_ok db \<Longrightarrow> wf_ht (db_ht db)"
  by (simp add: db_ok_def ht_all_def)

lemma put_ok [inv_intros]:
  assumes "db_ok db" "cstr_ok key" "entry_ok e"
  shows "res_ok E db_ok (ht_put db key e)"
  using ht_all_set [of entry_ok "db_ht db" key e] assms by (auto simp: ht_put_def db_ok_def)

lemma remove_ok [inv_intros]:
  assumes "db_ok db"
  shows "res_ok E (\<lambda>(db', r). db_ok db' \<and> in_int64 r \<and> 0 \<le> r \<and> r \<le> 1) (ht_remove db key)"
  using ht_all_delete [of entry_ok "db_ht db" key] assms
  by (auto simp: ht_remove_def db_ok_def in_int64_def INT64_MIN_def INT64_MAX_def)

lemma entry_ptr_ok [inv_intros]:
  assumes "db_ok db"
  shows "res_ok E (\<lambda>p. \<forall>idx. p = Some idx \<longrightarrow> (\<exists>e. ptr_ok db key idx e)) (entry_ptr db key)"
  using ht_all_find [of entry_ok "db_ht db" key] assms by (auto simp: entry_ptr_def db_ok_def ptr_ok_def)

lemma entry_at_ptr: "ptr_ok db key idx e \<Longrightarrow> entry_at db idx = Inr e"
  by (simp add: ptr_ok_def entry_at_def entry_value_def)

lemma write_entry_ok: "db_ok db \<Longrightarrow> ptr_ok db key idx e \<Longrightarrow> entry_ok e' \<Longrightarrow> db_ok (write_entry db idx e')"
  by (auto simp: db_ok_def ptr_ok_def write_entry_def intro: ht_all_poke)

lemma check_expired_ok [inv_intros]:
  assumes "db_ok db"
  shows "res_ok E (\<lambda>(db', gone). db_ok db') (check_expired clk db key)"
proof -
  have "res_ok E (\<lambda>p. \<forall>idx. p = Some idx \<longrightarrow> (\<exists>e. ptr_ok db key idx e)) (returns (ht_get_entry (db_ht db) key))"
    using entry_ptr_ok [OF assms, of E key] by (simp add: entry_ptr_def ht_get_entry_def)
  then show ?thesis
    unfolding check_expired_def
  proof (rule res_ok_bind)
    fix p assume p: "\<forall>idx. p = Some idx \<longrightarrow> (\<exists>e. ptr_ok db key idx e)"
    have "res_ok E (\<lambda>(db', gone). db_ok db') (bindR (ht_remove (db\<lparr>db_ticks := n\<rparr>) key) (\<lambda>(db2, r). Inr (db2, True)))" for n
      by (rule res_ok_bind [OF remove_ok]) (use assms in auto)
    with p assms show "res_ok E (\<lambda>(db', gone). db_ok db') (case p of None \<Rightarrow> Inr (db, False)
        | Some idx \<Rightarrow> bindR (entry_at db idx) (\<lambda>entry. if expire entry \<ge> 0
            then (let (now, db1) = imdb_mstime clk db in
               if now > expire entry then bindR (ht_remove db1 key) (\<lambda>(db2, r). Inr (db2, True)) else Inr (db1, False))
            else Inr (db, False)))"
      by (auto simp: entry_at_ptr imdb_mstime_def split: option.split)
  qed
qed

lemma get_entry_ok [inv_intros]:
  assumes "db_ok db"
  shows "res_ok E (\<lambda>(db', p). db_ok db' \<and> (\<forall>idx. p = Some idx \<longrightarrow> (\<exists>e. ptr_ok db' key idx e))) (db_get_entry clk db key)"
  unfolding db_get_entry_def
proof (rule res_ok_bind [OF check_expired_ok [OF assms]], clarsimp)
  fix db1 assume "db_ok db1"
  then show "res_ok E (\<lambda>(db', p). db_ok db' \<and> (\<forall>idx. p = Some idx \<longrightarrow> (\<exists>e. ptr_ok db' key idx e)))
      (bindR (entry_ptr db1 key) (\<lambda>p. Inr (db1, p)))"
    by (intro res_ok_bind [OF entry_ptr_ok]) auto
qed

section \<open>Every operation keeps the invariant\<close>

lemma deref_Some_bind [simp]: "bindR (deref (Some k)) f = f k"
  by simp

lemma db_set_ok [inv_intros]:
  assumes "db_ok db" "cstr_ok k" "cstr_ok v"
  shows "res_ok E (\<lambda>(db', r). db_ok db') (db_set db (Some k) (Some v))"
  unfolding db_set_def Let_def deref_Some_bind
  by (rule res_ok_bind [OF put_ok]) (use assms obj_of_value_ok int64_small in \<open>auto simp: entry_ok_def\<close>)

lemma db_get_ok [inv_intros]:
  assumes "db_ok db"
  shows "res_ok E (\<lambda>(db', p). db_ok db' \<and> (\<forall>x. p = Some x \<longrightarrow> obj_ok x)) (db_get clk db (Some k))"
  unfolding db_get_def deref_Some_bind
  by (rule res_ok_bind [OF get_entry_ok [OF assms, where key = k]])
     (auto simp: entry_at_ptr ptr_ok_def [of _ _ _ "e" for e] entry_ok_def entry_at_def entry_value_def split: option.split)

lemma db_del_ok [inv_intros]:
  assumes "db_ok db"
  shows "res_ok E (\<lambda>(db', r). db_ok db' \<and> in_int64 r \<and> 0 \<le> r \<and> r \<le> 1) (db_del clk db (Some k))"
  unfolding db_del_def deref_Some_bind
  by (rule res_ok_bind [OF check_expired_ok [OF assms]]) (auto intro: remove_ok)

lemma db_exists_ok [inv_intros]:
  assumes "db_ok db"
  shows "res_ok E (\<lambda>(db', r). db_ok db' \<and> in_int64 r) (db_exists clk db (Some k))"
  unfolding db_exists_def deref_Some_bind
proof (rule res_ok_bind [OF check_expired_ok [OF assms]], clarsimp simp: int64_small)
  fix db1 assume ok: "db_ok db1"
  then obtain p where "ht_find (db_ht db1) k = Some p"
    using ht_find_total [OF db_ok_wf [OF ok], of k] by blast
  with ok show "res_ok E (\<lambda>(db', r). db_ok db' \<and> in_int64 r)
      (bindR (returns (ht_exists (db_ht db1) k)) (\<lambda>r. Inr (db1, r)))"
    by (simp add: ht_exists_def int64_small)
qed

lemma db_incr_ok [inv_intros]:
  assumes "db_ok db" "cstr_ok k" "in_int64 d"
  shows "res_ok {SignedOverflow} (\<lambda>(db', r). db_ok db' \<and> in_int64 r) (db_incr clk db (Some k) d)"
  unfolding db_incr_def deref_Some_bind
proof (rule res_ok_bind [OF check_expired_ok [OF assms(1)]], clarsimp, intro conjI impI)
  fix db1 assume ok: "db_ok db1"
  have new: "res_ok {SignedOverflow} (\<lambda>(db', r). db_ok db' \<and> in_int64 r)
      (bindR (ht_put db1 k \<lparr>obj = obj_create_int d, expire = - 1\<rparr>) (\<lambda>db2. Inr (db2, d)))"
    by (rule res_ok_bind [OF put_ok]) (use ok assms int64_small in \<open>auto simp: entry_ok_def obj_create_int_def\<close>)
  then show "res_ok {SignedOverflow} (\<lambda>(db', r). db_ok db' \<and> in_int64 r)
      (bindR (ht_put db1 k \<lparr>obj = obj_create_int d, expire = - 1\<rparr>) (\<lambda>db2. Inr (db2, d)))" .
  have min: "in_int64 INT64_MIN" by (simp add: in_int64_def INT64_MIN_def INT64_MAX_def)
  show "res_ok {SignedOverflow} (\<lambda>(db', r). db_ok db' \<and> in_int64 r)
     (bindR (entry_ptr db1 k) (\<lambda>p. case p of
        None \<Rightarrow> bindR (ht_put db1 k \<lparr>obj = obj_create_int d, expire = - 1\<rparr>) (\<lambda>db2. Inr (db2, d))
      | Some idx \<Rightarrow> bindR (entry_at db1 idx) (\<lambda>entry. case obj entry of
            OBJ_STRING str \<Rightarrow> (case obj_try_parse_int str of None \<Rightarrow> Inr (db1, INT64_MIN)
              | Some num \<Rightarrow> bindR (int64 (num + d)) (\<lambda>n.
                  Inr (write_entry db1 idx (entry\<lparr>obj := obj_create_int n\<rparr>), n)))
          | OBJ_INT num \<Rightarrow> bindR (int64 (num + d)) (\<lambda>n. Inr (write_entry db1 idx (entry\<lparr>obj := OBJ_INT n\<rparr>), n))
          | OBJ_LIST vs \<Rightarrow> Inr (db1, INT64_MIN))))"
  proof (rule res_ok_bind [OF entry_ptr_ok [OF ok, where key = k]])
    fix p assume p: "\<forall>idx. p = Some idx \<longrightarrow> (\<exists>e. ptr_ok db1 k idx e)"
    have wr: "db_ok (write_entry db1 idx (e\<lparr>obj := OBJ_INT n\<rparr>))" if "ptr_ok db1 k idx e" "in_int64 n" for idx e n
      using that ok by (intro write_entry_ok [OF ok that(1)]) (auto simp: ptr_ok_def entry_ok_def)
    from p new show "res_ok {SignedOverflow} (\<lambda>(db', r). db_ok db' \<and> in_int64 r) (case p of
        None \<Rightarrow> bindR (ht_put db1 k \<lparr>obj = obj_create_int d, expire = - 1\<rparr>) (\<lambda>db2. Inr (db2, d))
      | Some idx \<Rightarrow> bindR (entry_at db1 idx) (\<lambda>entry. case obj entry of
            OBJ_STRING str \<Rightarrow> (case obj_try_parse_int str of None \<Rightarrow> Inr (db1, INT64_MIN)
              | Some num \<Rightarrow> bindR (int64 (num + d)) (\<lambda>n.
                  Inr (write_entry db1 idx (entry\<lparr>obj := obj_create_int n\<rparr>), n)))
          | OBJ_INT num \<Rightarrow> bindR (int64 (num + d)) (\<lambda>n. Inr (write_entry db1 idx (entry\<lparr>obj := OBJ_INT n\<rparr>), n))
          | OBJ_LIST vs \<Rightarrow> Inr (db1, INT64_MIN)))"
      using ok wr min by (auto simp: entry_at_ptr obj_create_int_def int64_def split: option.split dbobj.split)
  qed
qed

definition slot_ok :: "database \<Rightarrow> string \<Rightarrow> nat option \<Rightarrow> db_entry \<Rightarrow> bool" where
  "slot_ok db key slot e \<longleftrightarrow>
     (case slot of None \<Rightarrow> e = \<lparr>obj = OBJ_LIST [], expire = -1\<rparr> | Some idx \<Rightarrow> ptr_ok db key idx e)"

lemma get_or_create_list_ok:
  assumes "db_ok db"
  shows "res_ok E (\<lambda>(db', slot, e). db_ok db' \<and> slot_ok db' key slot e) (get_or_create_list clk db key)"
  unfolding get_or_create_list_def
proof (rule res_ok_bind [OF check_expired_ok [OF assms]], clarify)
  fix db1 gone assume ok: "db_ok db1"
  show "res_ok E (\<lambda>(db', slot, e). db_ok db' \<and> slot_ok db' key slot e) (bindR (entry_ptr db1 key) (\<lambda>p.
      case p of None \<Rightarrow> Inr (db1, None, \<lparr>obj = obj_create_list, expire = - 1\<rparr>)
      | Some idx \<Rightarrow> bindR (entry_at db1 idx) (\<lambda>entry. Inr (db1, Some idx, entry))))"
    by (rule res_ok_bind [OF entry_ptr_ok [OF ok]])
       (auto simp: ok slot_ok_def obj_create_list_def entry_at_ptr split: option.split)
qed

lemma save_entry_ok:
  assumes "db_ok db" "cstr_ok key" "entry_ok e'" "slot_ok db key slot e"
  shows "res_ok E db_ok (save_entry db key slot e')"
  using assms put_ok [of db key e' E] write_entry_ok [of db key _ e e']
  by (auto simp: save_entry_def slot_ok_def split: option.splits)

lemma slot_list_ok:
  assumes "slot_ok db key slot e" "obj e = OBJ_LIST vs" "cstr_ok v"
  shows "entry_ok (e\<lparr>obj := OBJ_LIST (Some v # vs)\<rparr>)" "entry_ok (e\<lparr>obj := OBJ_LIST (vs @ [Some v])\<rparr>)"
  using assms int64_small by (auto simp: slot_ok_def ptr_ok_def entry_ok_def split: option.splits)

lemma db_lpush_ok [inv_intros]:
  assumes "db_ok db" "cstr_ok k" "cstr_ok v"
  shows "res_ok E (\<lambda>(db', r). db_ok db') (db_lpush clk db (Some k) (Some v))"
  unfolding db_lpush_def deref_Some_bind
  by (rule res_ok_bind [OF get_or_create_list_ok [OF assms(1), where key = k]])
     (auto split: dbobj.split intro!: res_ok_bind [OF save_entry_ok [OF _ assms(2)]] intro: slot_list_ok [OF _ _ assms(3)])

lemma db_rpush_ok [inv_intros]:
  assumes "db_ok db" "cstr_ok k" "cstr_ok v"
  shows "res_ok E (\<lambda>(db', r). db_ok db') (db_rpush clk db (Some k) (Some v))"
  unfolding db_rpush_def deref_Some_bind
  by (rule res_ok_bind [OF get_or_create_list_ok [OF assms(1), where key = k]])
     (auto split: dbobj.split intro!: res_ok_bind [OF save_entry_ok [OF _ assms(2)]] intro: slot_list_ok [OF _ _ assms(3)])

text \<open>
  A pop that empties the list deletes the key at once, so no operation leaves an empty list behind.
\<close>

lemma vlist_step_members:
  assumes "vlist_step vs op = (vs', r)" "op = LPop \<or> op = RPop"
  shows "set vs' \<subseteq> set vs" "r = Some v \<Longrightarrow> v \<in> set vs"
  using assms by (auto split: list.splits if_splits dest: in_set_butlastD)

lemma remove_poked_ok:
  assumes ok: "db_ok db" and p: "ptr_ok db key idx e"
  shows "res_ok E (\<lambda>(db', r). db_ok db') (ht_remove (write_entry db idx e') key)"
proof -
  have "ht_delete (set_entry_value (db_ht db) idx e') key = ht_delete (db_ht db) key"
    using p by (intro ht_delete_poke [OF db_ok_wf [OF ok]]) (simp add: ptr_ok_def)
  with ht_all_delete [of entry_ok "db_ht db" key] ok show ?thesis
    by (auto simp: ht_remove_def write_entry_def db_ok_def)
qed

lemma pop_entry_ok:
  assumes ok: "db_ok db" and e: "ptr_ok db k idx e" "obj e = OBJ_LIST vs" and op: "op = LPop \<or> op = RPop"
    and st: "vlist_step vs op = (vs', r)"
  shows "res_ok E (\<lambda>(db', r). db_ok db' \<and> cstr_result r)
    (if length vs' = 0
     then bindR (ht_remove (write_entry db idx (e\<lparr>obj := OBJ_LIST vs'\<rparr>)) k)
            (\<lambda>(db3, d). Inr (db3, case r of None \<Rightarrow> None | Some v \<Rightarrow> v))
     else Inr (write_entry db idx (e\<lparr>obj := OBJ_LIST vs'\<rparr>), case r of None \<Rightarrow> None | Some v \<Rightarrow> v))"
proof -
  have vs_ok: "\<forall>v \<in> set vs. \<exists>s. v = Some s \<and> cstr_ok s" and ex: "in_int64 (expire e)"
    using e by (auto simp: ptr_ok_def entry_ok_def)
  have val: "cstr_result (case r of None \<Rightarrow> None | Some v \<Rightarrow> v)"
    using vlist_step_members(2) [OF st op] vs_ok by (cases r) (fastforce simp: cstr_result_def)+
  have "entry_ok (e\<lparr>obj := OBJ_LIST vs'\<rparr>)" if "vs' \<noteq> []"
    using vlist_step_members(1) [OF st op] vs_ok ex that by (auto simp: entry_ok_def)
  then have "db_ok (write_entry db idx (e\<lparr>obj := OBJ_LIST vs'\<rparr>))" if "vs' \<noteq> []"
    using write_entry_ok [OF ok e(1)] that by blast
  with val show ?thesis by (auto intro!: res_ok_bind [OF remove_poked_ok [OF ok e(1)]])
qed

lemma db_pop_ok:
  assumes ok: "db_ok db" and op: "op = LPop \<or> op = RPop"
  shows "res_ok E (\<lambda>(db', r). db_ok db' \<and> cstr_result r) (db_pop op clk db (Some k))"
  unfolding db_pop_def deref_Some_bind
proof (rule res_ok_bind [OF check_expired_ok [OF ok]], clarify)
  fix db1 gone assume ok1: "db_ok db1"
  have none: "cstr_result None" by (simp add: cstr_result_def)
  show "res_ok E (\<lambda>(db', r). db_ok db' \<and> cstr_result r) (if gone then Inr (db1, None) else
      bindR (entry_ptr db1 k) (\<lambda>p. case p of
        None \<Rightarrow> Inr (db1, None)
      | Some idx \<Rightarrow> bindR (entry_at db1 idx) (\<lambda>entry. case obj entry of
            OBJ_LIST vs \<Rightarrow> (let (vs', r) = vlist_step vs op; val = (case r of None \<Rightarrow> None | Some v \<Rightarrow> v);
                  db2 = write_entry db1 idx (entry\<lparr>obj := OBJ_LIST vs'\<rparr>)
              in if length vs' = 0 then bindR (ht_remove db2 k) (\<lambda>(db3, d). Inr (db3, val)) else Inr (db2, val))
          | _ \<Rightarrow> Inr (db1, None))))"
    using ok1 none pop_entry_ok [OF ok1 _ _ op]
    by (auto simp: entry_at_ptr Let_def simp del: length_0_conv split: option.split dbobj.split prod.split
        intro!: res_ok_bind [OF entry_ptr_ok [OF ok1, where key = k]])
qed

lemma db_llen_ok [inv_intros]:
  assumes "db_ok db"
  shows "res_ok E (\<lambda>(db', r). db_ok db') (db_llen clk db (Some k))"
  unfolding db_llen_def deref_Some_bind
  by (rule res_ok_bind [OF check_expired_ok [OF assms]])
     (auto split: option.split dbobj.split simp: entry_at_ptr intro!: res_ok_bind [OF entry_ptr_ok [where key = k]])

lemma vlist_range_members: "vlist_range vs start stop = Some xs \<Longrightarrow> set xs \<subseteq> set vs"
  by (auto simp: vlist_range_def split: option.splits dest: in_set_takeD in_set_dropD)

lemma db_lrange_ok [inv_intros]:
  assumes "db_ok db"
  shows "res_ok E (\<lambda>(db', p). db_ok db' \<and> (\<forall>xs. p = Some xs \<longrightarrow> (\<forall>v \<in> set xs. \<exists>s. v = Some s \<and> cstr_ok s)))
    (db_lrange clk db (Some k) start stop)"
  unfolding db_lrange_def deref_Some_bind
proof (rule res_ok_bind [OF check_expired_ok [OF assms]], clarsimp)
  fix db1 assume ok: "db_ok db1"
  have "\<forall>v \<in> set xs. \<exists>s. v = Some s \<and> cstr_ok s"
    if "ptr_ok db1 k idx e" "obj e = OBJ_LIST vs" "vlist_range vs start stop = Some xs" for idx e vs xs
    using that vlist_range_members [OF that(3)] by (auto simp: ptr_ok_def entry_ok_def)
  with ok show "res_ok E (\<lambda>(db', p). db_ok db' \<and> (\<forall>xs. p = Some xs \<longrightarrow> (\<forall>v \<in> set xs. \<exists>s. v = Some s \<and> cstr_ok s)))
      (bindR (entry_ptr db1 k) (\<lambda>p. case p of None \<Rightarrow> Inr (db1, None)
        | Some idx \<Rightarrow> bindR (entry_at db1 idx) (\<lambda>entry. case obj entry of
            OBJ_LIST vs \<Rightarrow> Inr (db1, vlist_range vs start stop) | _ \<Rightarrow> Inr (db1, None))))"
    by (intro res_ok_bind [OF entry_ptr_ok [OF ok, where key = k]])
       (fastforce simp: entry_at_ptr split: option.split dbobj.split)
qed

lemma db_expire_ok [inv_intros]:
  assumes "db_ok db"
  shows "res_ok {SignedOverflow} (\<lambda>(db', r). db_ok db' \<and> in_int64 r) (db_expire clk db (Some k) seconds)"
  unfolding db_expire_def deref_Some_bind
proof (rule res_ok_bind [OF get_entry_ok [OF assms, where key = k]], clarify)
  fix db1 p assume ok: "db_ok db1" and p: "\<forall>idx. p = Some idx \<longrightarrow> (\<exists>e. ptr_ok db1 k idx e)"
  have "db_ok (write_entry (db1\<lparr>db_ticks := n\<rparr>) idx (e\<lparr>expire := t\<rparr>))"
    if "ptr_ok db1 k idx e" "in_int64 t" for idx e n t
    using that ok by (intro write_entry_ok [of _ k idx e]) (auto simp: ptr_ok_def entry_ok_def)
  with ok p show "res_ok {SignedOverflow} (\<lambda>(db', r). db_ok db' \<and> in_int64 r) (case p of None \<Rightarrow> Inr (db1, 0)
      | Some idx \<Rightarrow> bindR (entry_at db1 idx) (\<lambda>entry.
       let (now, db2) = imdb_mstime clk db1 in bindR (int64 (seconds * 1000)) (\<lambda>ms. bindR (int64 (now + ms)) (\<lambda>at.
       Inr (write_entry db2 idx (entry\<lparr>expire := at\<rparr>), 1)))))"
    by (auto simp: entry_at_ptr imdb_mstime_def int64_small int64_def split: option.split)
qed

lemma c_div_1000_range: "in_int64 x \<Longrightarrow> 0 < c_div x 1000 \<Longrightarrow> in_int64 (c_div x 1000)"
proof -
  assume x: "in_int64 x" and pos: "0 < c_div x 1000"
  have "0 \<le> x" using pos c_div_neg [of x 1000] by (cases "x < 0") auto
  then have "0 \<le> x div 1000 \<and> x div 1000 \<le> x"
    using zdiv_mono2 [of x 1 1000] by (simp add: pos_imp_zdiv_nonneg_iff)
  with x \<open>0 \<le> x\<close> show ?thesis by (auto simp: in_int64_def INT64_MIN_def)
qed

lemma db_ttl_ok [inv_intros]:
  assumes "db_ok db"
  shows "res_ok {SignedOverflow} (\<lambda>(db', r). db_ok db' \<and> in_int64 r) (db_ttl clk db (Some k))"
  unfolding db_ttl_def deref_Some_bind
proof (rule res_ok_bind [OF get_entry_ok [OF assms, where key = k]], clarify)
  fix db1 p assume ok: "db_ok db1" and p: "\<forall>idx. p = Some idx \<longrightarrow> (\<exists>e. ptr_ok db1 k idx e)"
  have "in_int64 (- 2)" by (simp add: in_int64_def INT64_MIN_def INT64_MAX_def)
  with ok p show "res_ok {SignedOverflow} (\<lambda>(db', r). db_ok db' \<and> in_int64 r) (case p of None \<Rightarrow> Inr (db1, - 2)
      | Some idx \<Rightarrow> bindR (entry_at db1 idx) (\<lambda>entry.
        if expire entry < 0 then Inr (db1, - 1) else let (now, db2) = imdb_mstime clk db1 in
          bindR (int64 (expire entry - now)) (\<lambda>left. let remaining = c_div left 1000 in
            Inr (db2, if remaining > 0 then remaining else 0))))"
    by (auto simp: entry_at_ptr imdb_mstime_def int64_small int64_def Let_def c_div_1000_range split: option.split)
qed

lemma db_persist_ok [inv_intros]:
  assumes "db_ok db"
  shows "res_ok E (\<lambda>(db', r). db_ok db' \<and> in_int64 r) (db_persist clk db (Some k))"
  unfolding db_persist_def deref_Some_bind
proof (rule res_ok_bind [OF get_entry_ok [OF assms, where key = k]], clarify)
  fix db1 p assume ok: "db_ok db1" and p: "\<forall>idx. p = Some idx \<longrightarrow> (\<exists>e. ptr_ok db1 k idx e)"
  have "db_ok (write_entry db1 idx (e\<lparr>expire := - 1\<rparr>))" if "ptr_ok db1 k idx e" for idx e
    using that ok int64_small by (intro write_entry_ok [of _ k idx e]) (auto simp: ptr_ok_def entry_ok_def)
  with ok p show "res_ok E (\<lambda>(db', r). db_ok db' \<and> in_int64 r) (case p of None \<Rightarrow> Inr (db1, 0)
      | Some idx \<Rightarrow> bindR (entry_at db1 idx) (\<lambda>entry.
      if expire entry < 0 then Inr (db1, 0) else Inr (write_entry db1 idx (entry\<lparr>expire := - 1\<rparr>), 1)))"
    by (auto simp: entry_at_ptr int64_small split: option.split)
qed

lemma ht_all_empty: "ht_all P (empty_table 64)"
  by (simp add: ht_all_def wf_empty_table)

lemma db_flush_eq: "db_flush db = Inr (db\<lparr>db_ht := empty_table 64\<rparr>)"
  by (simp add: db_flush_def ht_create_64)

lemma db_flush_ok [inv_intros]: "res_ok E db_ok (db_flush db)"
  by (simp add: db_flush_eq db_ok_def ht_all_empty)

lemma db_create_eq: "db_create clk = Inr \<lparr>db_ht = empty_table 64, last_expire_sweep = clk 0, db_ticks = 1\<rparr>"
  by (simp add: db_create_def ht_create_64)

lemma db_create_ok: "res_ok E db_ok (db_create clk)"
  by (simp add: db_create_eq db_ok_def ht_all_empty)

section \<open>Iteration and the sweep\<close>

lemma ht_iter_next_cases:
  "case ht_iter_next ht index of
     (index', None) \<Rightarrow> \<forall>s. index \<le> s \<longrightarrow> s < capacity ht \<longrightarrow> occ (entries ht ! s) = 0
   | (index', Some s) \<Rightarrow> index \<le> s \<and> s < capacity ht \<and> index' = Suc s \<and> occ (entries ht ! s) = 1 \<and>
        (\<forall>t. index \<le> t \<longrightarrow> t < s \<longrightarrow> occ (entries ht ! t) = 0)"
proof (induction ht index rule: ht_iter_next.induct)
  case (1 ht index)
  show ?case
  proof (cases "index < capacity ht")
    case False
    then show ?thesis by (simp add: ht_iter_next.simps [of ht index])
  next
    case lt: True
    show ?thesis
    proof (cases "occ (entries ht ! index) = 1")
      case True
      then obtain k h v where "entries ht ! index = HtOccupied k h v" by (cases "entries ht ! index") auto
      with lt show ?thesis by (simp add: ht_iter_next.simps [of ht index])
    next
      case False
      then have z: "occ (entries ht ! index) = 0" and eq: "ht_iter_next ht index = ht_iter_next ht (Suc index)"
        using lt by (cases "entries ht ! index"; simp add: ht_iter_next.simps [of ht index])+
      have IH: "case ht_iter_next ht (Suc index) of
          (index', None) \<Rightarrow> \<forall>s. Suc index \<le> s \<longrightarrow> s < capacity ht \<longrightarrow> occ (entries ht ! s) = 0
        | (index', Some s) \<Rightarrow> Suc index \<le> s \<and> s < capacity ht \<and> index' = Suc s \<and> occ (entries ht ! s) = 1 \<and>
            (\<forall>t. Suc index \<le> t \<longrightarrow> t < s \<longrightarrow> occ (entries ht ! t) = 0)"
        using 1 lt z by (cases "entries ht ! index") auto
      obtain i' p where n: "ht_iter_next ht (Suc index) = (i', p)" by (cases "ht_iter_next ht (Suc index)")
      show ?thesis
      proof (cases p)
        case None
        with IH n have "\<forall>s. Suc index \<le> s \<longrightarrow> s < capacity ht \<longrightarrow> occ (entries ht ! s) = 0" by simp
        then have "\<forall>s. index \<le> s \<longrightarrow> s < capacity ht \<longrightarrow> occ (entries ht ! s) = 0"
          using z by (metis Suc_leI le_neq_implies_less)
        with None n eq show ?thesis by simp
      next
        case (Some s)
        with IH n have s: "Suc index \<le> s" "s < capacity ht" "i' = Suc s" "occ (entries ht ! s) = 1"
          "\<forall>t. Suc index \<le> t \<longrightarrow> t < s \<longrightarrow> occ (entries ht ! t) = 0" by auto
        then have "\<forall>t. index \<le> t \<longrightarrow> t < s \<longrightarrow> occ (entries ht ! t) = 0"
          using z by (metis Suc_leI le_neq_implies_less)
        with Some s n eq show ?thesis by simp
      qed
    qed
  qed
qed

lemma ht_iter_next_Some:
  assumes "ht_iter_next ht index = (index', Some s)"
  obtains k h v where "s < capacity ht" "index \<le> s" "index' = Suc s" "entries ht ! s = HtOccupied k h v"
proof -
  have "occ (entries ht ! s) = 1" "s < capacity ht" "index \<le> s" "index' = Suc s"
    using ht_iter_next_cases [where ht = ht and index = index] assms by auto
  then show ?thesis using that by (cases "entries ht ! s") auto
qed

text \<open>The bindings from a slot on, in the order of the slots, which is the order of the iterator.\<close>

definition pairs_from :: "'v hashtable \<Rightarrow> nat \<Rightarrow> (string \<times> 'v) list" where
  "pairs_from ht i =
     concat (map (\<lambda>s. case entries ht ! s of HtOccupied k h v \<Rightarrow> [(k, v)] | _ \<Rightarrow> []) [i..<capacity ht])"

lemma pairs_from_next:
  "case ht_iter_next ht i of
     (i', None) \<Rightarrow> pairs_from ht i = []
   | (i', Some s) \<Rightarrow> \<exists>k h v. entries ht ! s = HtOccupied k h v \<and> pairs_from ht i = (k, v) # pairs_from ht i'"
proof (induction ht i rule: ht_iter_next.induct)
  case (1 ht i)
  show ?case
  proof (cases "i < capacity ht")
    case False
    then show ?thesis by (simp add: ht_iter_next.simps [of ht i] pairs_from_def)
  next
    case True
    then have step: "pairs_from ht i = (case entries ht ! i of HtOccupied k h v \<Rightarrow> [(k, v)] | _ \<Rightarrow> []) @ pairs_from ht (Suc i)"
      by (simp add: pairs_from_def upt_conv_Cons)
    show ?thesis
      using True 1 step by (cases "entries ht ! i") (simp_all add: ht_iter_next.simps [of ht i])
  qed
qed

lemma mset_pairs_from:
  assumes "length (entries ht) = capacity ht"
  shows "mset (pairs_from ht 0) = ht_bag ht"
proof -
  have "mset (concat (map (\<lambda>e. case e of HtOccupied k h v \<Rightarrow> [(k, v)] | _ \<Rightarrow> []) es)) = slots_bag es" for es :: "'a ht_entry list"
    by (induction es) (auto simp: slots_bag_def split: ht_entry.splits)
  moreover have "pairs_from ht 0 = concat (map (\<lambda>e. case e of HtOccupied k h v \<Rightarrow> [(k, v)] | _ \<Rightarrow> [])
      (map ((!) (entries ht)) [0..<capacity ht]))"
    by (simp add: pairs_from_def comp_def)
  ultimately show ?thesis by (simp add: assms [symmetric] map_nth ht_bag_def)
qed

lemma sweep_loop_ok:
  assumes "db_ok db"
  shows "res_ok E db_ok (sweep_loop n now db index)"
  using assms
proof (induction n arbitrary: db index)
  case 0
  then show ?case by simp
next
  case (Suc left)
  obtain i' p where n: "ht_iter_next (db_ht db) index = (i', p)" by (cases "ht_iter_next (db_ht db) index")
  show ?case
  proof (cases p)
    case None
    with n Suc show ?thesis by simp
  next
    case (Some s)
    with n obtain k h e where e: "entries (db_ht db) ! s = HtOccupied k h e" by (auto elim: ht_iter_next_Some)
    have "res_ok E db_ok (bindR (ht_remove db k) (\<lambda>(db1, r). sweep_loop left now db1 0))"
      by (rule res_ok_bind [OF remove_ok [OF Suc.prems]]) (use Suc.IH in auto)
    with n Some e Suc show ?thesis by simp
  qed
qed

lemma db_expire_sweep_ok [inv_intros]:
  assumes "db_ok db"
  shows "res_ok {SignedOverflow} db_ok (db_expire_sweep clk db)"
  using assms sweep_loop_ok [of "db\<lparr>db_ticks := n, last_expire_sweep := t\<rparr>" for n t]
  by (auto simp: db_expire_sweep_def imdb_mstime_def Let_def int64_def)

end
