(* ===== verification/Persist.thy ===== *)
theory Persist
  imports Database_Inv
begin

text \<open>
  \<open>src/persist.c\<close>: the dump file. A file is the list of its bytes, numbers are written as the
  machine holds them (little endian). Files and the outcome of the calls that can fail come from the
  environment: \<open>disk\<close> maps names to contents, \<open>io\<close> says whether the temporary file can be
  opened, how many bytes can be written before the disk is full and whether the rename succeeds. An \<open>fwrite\<close> that
  does not fit fails at once: that stdio may hold the bytes back, so that the disk is found to be full only in
  \<open>fclose\<close>, whose result the code does not look at (line 126), is not modelled. The result of a write is \<open>None\<close> where the code goes to \<open>fail\<close>.
\<close>

section \<open>Files\<close>

type_synonym disk = "string \<Rightarrow> string option"

record io =
  io_open :: bool
  io_room :: nat
  io_rename :: bool

text \<open>A file being written: the bytes so far and the room left.\<close>

record out_file =
  written :: string
  room :: nat

definition fwrite :: "out_file \<Rightarrow> string \<Rightarrow> out_file option" where
  "fwrite f bytes =
     (if length bytes \<le> room f
      then Some (f\<lparr>written := written f @ bytes, room := room f - length bytes\<rparr>) else None)"

text \<open>Reading \<open>n\<close> bytes from what is left of a file; a short read uses up the file.\<close>

definition fread :: "nat \<Rightarrow> string \<Rightarrow> string option \<times> string" where
  "fread n rest = (if n \<le> length rest then (Some (take n rest), drop n rest) else (None, []))"

definition RDB_MAGIC :: string where "RDB_MAGIC = ''IMDB0001''"
definition RDB_MAGIC_LEN :: nat where "RDB_MAGIC_LEN = 8"
definition RDB_EOF :: nat where "RDB_EOF = 255"
definition RDB_TYPE_STRING :: nat where "RDB_TYPE_STRING = 0"
definition RDB_TYPE_INT :: nat where "RDB_TYPE_INT = 1"
definition RDB_TYPE_LIST :: nat where "RDB_TYPE_LIST = 2"

section \<open>Numbers and strings\<close>

text \<open>The \<open>n\<close> low bytes of a number, lowest first, and back.\<close>

fun bytes_le :: "nat \<Rightarrow> nat \<Rightarrow> string" where
  "bytes_le 0 k = []"
| "bytes_le (Suc n) k = char_of (k mod 256) # bytes_le n (k div 256)"

fun of_bytes :: "string \<Rightarrow> nat" where
  "of_bytes [] = 0"
| "of_bytes (c # cs) = of_char c + 256 * of_bytes cs"

definition write_uint32 :: "out_file \<Rightarrow> 32 word \<Rightarrow> out_file option" where
  "write_uint32 f v = fwrite f (bytes_le 4 (unat v))"

definition write_int64 :: "out_file \<Rightarrow> int \<Rightarrow> out_file option" where
  "write_int64 f v = fwrite f (bytes_le 8 (nat (v mod 2 ^ 64)))"

definition write_string :: "out_file \<Rightarrow> string \<Rightarrow> 32 word \<Rightarrow> out_file option" where
  "write_string f s len =
     Option.bind (write_uint32 f len) (\<lambda>f1. if len > 0 then fwrite f1 (take (unat len) s) else Some f1)"

text \<open>\<open>write_string(f, p, (uint32_t)strlen(p))\<close>; \<open>strlen\<close> dereferences its argument.\<close>

definition write_cstr :: "out_file \<Rightarrow> cstr \<Rightarrow> out_file option res" where
  "write_cstr f p = bindR (deref p) (\<lambda>s. Inr (write_string f s (of_nat (length s))))"

definition read_uint32 :: "string \<Rightarrow> 32 word option \<times> string" where
  "read_uint32 rest = (case fread 4 rest of
     (None, r) \<Rightarrow> (None, r) | (Some bs, r) \<Rightarrow> (Some (of_nat (of_bytes bs)), r))"

definition read_int64 :: "string \<Rightarrow> int option \<times> string" where
  "read_int64 rest = (case fread 8 rest of
     (None, r) \<Rightarrow> (None, r)
   | (Some bs, r) \<Rightarrow> (let n = int (of_bytes bs) in (Some (if n < 2 ^ 63 then n else n - 2 ^ 64), r)))"

text \<open>
  The size \<open>len + 1\<close> of the buffer is computed in 32 bits: for the largest length it is 0, and
  reading any byte writes beyond the buffer. The result is the C string in the buffer.
\<close>

definition read_string :: "string \<Rightarrow> (cstr \<times> string) res" where
  "read_string rest = (case read_uint32 rest of
     (None, r) \<Rightarrow> Inr (None, r)
   | (Some len, r) \<Rightarrow>
       if len + 1 = 0 \<and> r \<noteq> [] then Inl OutOfBounds
       else if len > 0
       then (case fread (unat len) r of
               (None, r2) \<Rightarrow> Inr (None, r2)
             | (Some s, r2) \<Rightarrow> Inr (Some (takeWhile (\<lambda>c. c \<noteq> NUL) s), r2))
       else Inr (Some [], r))"

section \<open>Saving\<close>

text \<open>Sequencing of writes: a fault, a failed write, or the next write.\<close>

definition bindW :: "out_file option res \<Rightarrow> (out_file \<Rightarrow> out_file option res) \<Rightarrow> out_file option res" where
  "bindW m k = bindR m (\<lambda>p. case p of None \<Rightarrow> Inr None | Some f \<Rightarrow> k f)"

fun write_nodes :: "out_file \<Rightarrow> cstr list \<Rightarrow> out_file option res" where
  "write_nodes f [] = Inr (Some f)"
| "write_nodes f (v # vs) = bindW (write_cstr f v) (\<lambda>f1. write_nodes f1 vs)"

definition rdb_type :: "dbobj \<Rightarrow> nat" where
  "rdb_type x = (case x of OBJ_STRING s \<Rightarrow> RDB_TYPE_STRING | OBJ_INT n \<Rightarrow> RDB_TYPE_INT | OBJ_LIST vs \<Rightarrow> RDB_TYPE_LIST)"

definition write_value_data :: "out_file \<Rightarrow> dbobj \<Rightarrow> out_file option res" where
  "write_value_data f x = (case x of
     OBJ_STRING s \<Rightarrow> write_cstr f s
   | OBJ_INT n \<Rightarrow> Inr (write_int64 f n)
   | OBJ_LIST vs \<Rightarrow>
       bindW (Inr (write_uint32 f (of_nat (length vs)))) (\<lambda>f1. write_nodes f1 vs))"

definition write_dump_entry :: "out_file \<Rightarrow> string \<Rightarrow> db_entry \<Rightarrow> out_file option res" where
  "write_dump_entry f key entry =
     bindW (Inr (fwrite f [char_of (rdb_type (obj entry))])) (\<lambda>f1.
     bindW (Inr (write_int64 f1 (expire entry))) (\<lambda>f2.
     bindW (write_cstr f2 (Some key)) (\<lambda>f3.
     write_value_data f3 (obj entry))))"

lemma iter_progress:
  assumes "ht_iter_next ht index = (index', Some s)"
  shows "capacity ht - index' < capacity ht - index"
  by (rule ht_iter_next_Some [OF assms]) simp

function write_entries :: "out_file \<Rightarrow> db_entry hashtable \<Rightarrow> nat \<Rightarrow> out_file option res" where
  "write_entries f ht index =
     (case ht_iter_next ht index of
        (index', None) \<Rightarrow> Inr (Some f)
      | (index', Some s) \<Rightarrow>
          (case entries ht ! s of
             HtOccupied key h entry \<Rightarrow>
               bindW (write_dump_entry f key entry) (\<lambda>f1. write_entries f1 ht index')
           | _ \<Rightarrow> Inr (Some f)))"
  by pat_completeness auto
termination
  by (relation "measure (\<lambda>(f, ht, index). capacity ht - index)") (simp_all add: iter_progress [OF sym])

declare write_entries.simps [simp del]

definition tmp_name :: "string \<Rightarrow> string" where
  "tmp_name filename = take 255 (filename @ ''.tmp'')"

text \<open>The disk after the save and the returned status. The old dump is removed before the rename.\<close>

definition persist_save :: "io \<Rightarrow> database \<Rightarrow> disk \<Rightarrow> string \<Rightarrow> (disk \<times> int) res" where
  "persist_save env db d filename =
     (let tmp = tmp_name filename in
      if \<not> io_open env then Inr (d, -1)
      else
        bindR
          (bindW (Inr (fwrite \<lparr>written = [], room = io_room env\<rparr> RDB_MAGIC)) (\<lambda>f1.
           bindW (write_entries f1 (db_ht db) 0) (\<lambda>f2.
           Inr (fwrite f2 [char_of RDB_EOF]))))
          (\<lambda>p. case p of
             None \<Rightarrow> Inr (d(tmp := None), -1)
           | Some f \<Rightarrow>
               let d1 = d(tmp \<mapsto> written f); d2 = d1(filename := None) in
               if io_rename env then Inr (d2(tmp := None, filename := d2 tmp), 0)
               else Inr (d2(tmp := None), -1)))"

section \<open>Loading\<close>

text \<open>Reading \<open>count\<close> strings of a value that is skipped; their failures are not looked at.\<close>

fun skip_strings :: "nat \<Rightarrow> string \<Rightarrow> string res" where
  "skip_strings 0 rest = Inr rest"
| "skip_strings (Suc n) rest = bindR (read_string rest) (\<lambda>(v, r). skip_strings n r)"

text \<open>
  The value of an expired key is read over. When its list count cannot be read the code loops with
  an uninitialised count, but at the end of the file, where nothing is read any more.
\<close>

definition skip_value :: "nat \<Rightarrow> string \<Rightarrow> string res" where
  "skip_value type rest =
     (if type = RDB_TYPE_STRING then bindR (read_string rest) (\<lambda>(v, r). Inr r)
      else if type = RDB_TYPE_INT then Inr (snd (read_int64 rest))
      else if type = RDB_TYPE_LIST
      then (case read_uint32 rest of
              (None, r) \<Rightarrow> Inr r
            | (Some n, r) \<Rightarrow> skip_strings (unat n) r)
      else Inr rest)"

text \<open>The loop that fills a list stops at the first string that cannot be read.\<close>

fun read_strings :: "nat \<Rightarrow> string \<Rightarrow> cstr list \<Rightarrow> (cstr list \<times> string) res" where
  "read_strings 0 rest vs = Inr (vs, rest)"
| "read_strings (Suc n) rest vs =
     bindR (read_string rest) (\<lambda>(v, r).
     case v of None \<Rightarrow> Inr (vs, r) | Some s \<Rightarrow> read_strings n r (vs @ [imdb_strdup (Some s)]))"

definition read_value :: "nat \<Rightarrow> string \<Rightarrow> (dbobj option \<times> string) res" where
  "read_value type rest =
     (if type = RDB_TYPE_STRING then
        bindR (read_string rest) (\<lambda>(v, r).
        Inr (case v of None \<Rightarrow> None | Some s \<Rightarrow> Some (obj_create_string (Some s)), r))
      else if type = RDB_TYPE_INT then
        (case read_int64 rest of (n, r) \<Rightarrow> Inr (map_option obj_create_int n, r))
      else if type = RDB_TYPE_LIST then
        (case read_uint32 rest of
           (None, r) \<Rightarrow> Inr (None, r)
         | (Some n, r) \<Rightarrow> bindR (read_strings (unat n) r []) (\<lambda>(vs, r2). Inr (Some (OBJ_LIST vs), r2)))
      else Inr (None, rest))"

lemma fread_length: "fread n rest = (p, r) \<Longrightarrow> length r \<le> length rest"
  by (auto simp: fread_def split: if_splits)

lemma read_uint32_length: "read_uint32 rest = (p, r) \<Longrightarrow> length r \<le> length rest"
  by (auto simp: read_uint32_def split: prod.splits option.splits dest: fread_length)

lemma read_int64_length: "read_int64 rest = (p, r) \<Longrightarrow> length r \<le> length rest"
  by (auto simp: read_int64_def Let_def split: prod.splits option.splits dest: fread_length)

lemma read_string_length: "read_string rest = Inr (p, r) \<Longrightarrow> length r \<le> length rest"
  by (fastforce simp: read_string_def split: prod.splits option.splits if_splits
      dest: fread_length read_uint32_length)

lemma skip_strings_length: "skip_strings n rest = Inr r \<Longrightarrow> length r \<le> length rest"
  by (induction n arbitrary: rest) (fastforce dest: read_string_length)+

lemma skip_value_length: "skip_value type rest = Inr r \<Longrightarrow> length r \<le> length rest"
  using read_int64_length [of rest]
  by (cases "read_int64 rest")
     (fastforce simp: skip_value_def split: if_splits prod.splits option.splits
      dest: read_string_length read_uint32_length skip_strings_length)

lemma read_strings_length: "read_strings n rest vs = Inr (ws, r) \<Longrightarrow> length r \<le> length rest"
  by (induction n arbitrary: rest vs) (fastforce dest: read_string_length split: option.splits)+

lemma read_value_length: "read_value type rest = Inr (p, r) \<Longrightarrow> length r \<le> length rest"
  by (fastforce simp: read_value_def split: if_splits prod.splits option.splits
      dest: read_string_length read_uint32_length read_int64_length read_strings_length)

text \<open>
  One round of the load loop after the type byte: the database, and unless the loop is left, the rest
  of the file and the number of keys stored (0 for an expired one).
\<close>

definition load_entry :: "clock \<Rightarrow> database \<Rightarrow> nat \<Rightarrow> string \<Rightarrow> (database \<times> (string \<times> nat) option) res" where
  "load_entry clk db type rest =
     (case read_int64 rest of
        (None, r) \<Rightarrow> Inr (db, None)
      | (Some ex, r1) \<Rightarrow>
          bindR (read_string r1) (\<lambda>(key, r2).
          case key of
            None \<Rightarrow> Inr (db, None)
          | Some k \<Rightarrow>
              (let (now, db1) = (if ex \<ge> 0 then imdb_mstime clk db else (0, db)) in
               if ex \<ge> 0 \<and> now > ex
               then bindR (skip_value type r2) (\<lambda>r3. Inr (db1, Some (r3, 0)))
               else bindR (read_value type r2) (\<lambda>(v, r3).
                    case v of
                      None \<Rightarrow> Inr (db1, None)
                    | Some x \<Rightarrow>
                        bindR (ht_put db1 k \<lparr>obj = x, expire = ex\<rparr>) (\<lambda>db2. Inr (db2, Some (r3, 1)))))))"

lemma load_entry_length:
  assumes "load_entry clk db type rest = Inr (db', Some (r, n))"
  shows "length r \<le> length rest"
proof -
  obtain e r1 where e: "read_int64 rest = (e, r1)" by (cases "read_int64 rest")
  have skip: "read_string r1 = Inr (k, r2) \<Longrightarrow> skip_value type r2 = Inr r3 \<Longrightarrow> length r3 \<le> length rest" for k r2 r3
    using read_int64_length [OF e] by (fastforce dest: skip_value_length read_string_length)
  have val: "read_string r1 = Inr (k, r2) \<Longrightarrow> read_value type r2 = Inr (v, r3) \<Longrightarrow> length r3 \<le> length rest" for k r2 v r3
    using read_int64_length [OF e] by (fastforce dest: read_value_length read_string_length)
  show ?thesis
    using assms skip val by (auto simp: load_entry_def e Let_def split: option.splits prod.splits if_splits)
qed

text \<open>The loop stops at the footer or at the first thing it cannot read. The result is the database
  and the number of keys loaded.\<close>

function load_entries :: "clock \<Rightarrow> database \<Rightarrow> string \<Rightarrow> nat \<Rightarrow> (database \<times> nat) res" where
  "load_entries clk db [] loaded = Inr (db, loaded)"
| "load_entries clk db (t # rest) loaded =
     (if of_char t = RDB_EOF then Inr (db, loaded)
      else bindR (load_entry clk db (of_char t) rest) (\<lambda>(db1, more).
           case more of None \<Rightarrow> Inr (db1, loaded) | Some (r, n) \<Rightarrow> load_entries clk db1 r (loaded + n)))"
  by pat_completeness auto
termination
  by (relation "measure (\<lambda>(clk, db, rest, loaded). length rest)")
     (auto dest: load_entry_length simp: less_Suc_eq_le)

declare load_entries.simps [simp del]

definition persist_load :: "clock \<Rightarrow> database \<Rightarrow> disk \<Rightarrow> string \<Rightarrow> (database \<times> int) res" where
  "persist_load clk db d filename =
     (case d filename of
        None \<Rightarrow> Inr (db, -1)
      | Some content \<Rightarrow>
          (case fread RDB_MAGIC_LEN content of
             (None, r) \<Rightarrow> Inr (db, -1)
           | (Some magic, r) \<Rightarrow>
               if magic \<noteq> RDB_MAGIC then Inr (db, -1)
               else bindR (load_entries clk db r 0) (\<lambda>(db1, loaded). Inr (db1, 0))))"

end
