(* ===== verification/Resp.thy ===== *)
theory Resp
  imports Util
begin

text \<open>
  \<open>src/resp.c\<close>: the reply buffer with its writers, and the parser of the Redis protocol. A reply
  buffer is the list of the bytes written and its capacity. The parser gets the memory from
  \<open>buf\<close> to the end of the array it lies in and the number \<open>len\<close> of bytes received;
  \<open>atoi\<close>, \<open>strtoll\<close> and the \<open>strlen\<close> inside \<open>imdb_strndup\<close> are not told \<open>len\<close>
  and read on behind it, and reading behind the array is the fault \<open>OutOfBounds\<close>. Exhaustion of
  memory or of the stack (a count of 2^31 items, thousands of nested arrays) is not modelled.
\<close>

section \<open>Data\<close>

datatype resp_value =
    RESP_SIMPLE_STRING string
  | RESP_ERROR string
  | RESP_INTEGER int
  | RESP_BULK_STRING string
  | RESP_ARRAY "resp_value list"
  | RESP_NIL

record resp_buf =
  rb_data :: string
  rb_cap :: nat

section \<open>The reply buffer\<close>

definition resp_buf_init :: resp_buf where
  "resp_buf_init = \<lparr>rb_data = [], rb_cap = 256\<rparr>"

definition resp_buf_ensure :: "resp_buf \<Rightarrow> nat \<Rightarrow> resp_buf res" where
  "resp_buf_ensure rb extra =
     bindR (returns (grow_cap (length (rb_data rb) + extra) (rb_cap rb))) (\<lambda>cap. Inr (rb\<lparr>rb_cap := cap\<rparr>))"

definition resp_buf_append :: "resp_buf \<Rightarrow> string \<Rightarrow> resp_buf res" where
  "resp_buf_append rb data =
     bindR (resp_buf_ensure rb (length data)) (\<lambda>rb1. Inr (rb1\<lparr>rb_data := rb_data rb1 @ data\<rparr>))"

text \<open>
  \<open>vsnprintf\<close> puts at most 127 bytes and a NUL into \<open>tmp[128]\<close> but returns the length \<open>n\<close> of
  the whole text, and \<open>n\<close> bytes of \<open>tmp\<close> are appended.
\<close>

definition resp_buf_appendf :: "resp_buf \<Rightarrow> string \<Rightarrow> resp_buf res" where
  "resp_buf_appendf rb text =
     (let n = length text; tmp = take 127 text @ [NUL] in
      if n > 0
      then (if n \<le> 128 then resp_buf_append rb (take n tmp) else Inl OutOfBounds)
      else Inr rb)"

definition resp_write_simple_string :: "resp_buf \<Rightarrow> string \<Rightarrow> resp_buf res" where
  "resp_write_simple_string rb str = resp_buf_appendf rb (''+'' @ str @ CRLF)"

definition resp_write_error :: "resp_buf \<Rightarrow> string \<Rightarrow> resp_buf res" where
  "resp_write_error rb str = resp_buf_appendf rb (''-'' @ str @ CRLF)"

definition resp_write_integer :: "resp_buf \<Rightarrow> int \<Rightarrow> resp_buf res" where
  "resp_write_integer rb num = resp_buf_append rb ('':'' @ dec_int num @ CRLF)"

definition resp_write_bulk_string :: "resp_buf \<Rightarrow> string \<Rightarrow> resp_buf res" where
  "resp_write_bulk_string rb str =
     bindR (resp_buf_append rb (''$'' @ dec_nat (length str) @ CRLF)) (\<lambda>rb1.
     bindR (resp_buf_append rb1 str) (\<lambda>rb2. resp_buf_append rb2 CRLF))"

definition resp_write_nil :: "resp_buf \<Rightarrow> resp_buf res" where
  "resp_write_nil rb = resp_buf_append rb (''$-1'' @ CRLF)"

definition resp_write_array_header :: "resp_buf \<Rightarrow> nat \<Rightarrow> resp_buf res" where
  "resp_write_array_header rb n = resp_buf_append rb (''*'' @ dec_nat n @ CRLF)"

section \<open>Reading memory\<close>

text \<open>
  \<open>strtoll\<close> and \<open>atoi\<close> on memory: they stop at the first byte that cannot be part of the number,
  which has to lie in the array.
\<close>

definition number_ends :: "string \<Rightarrow> bool" where
  "number_ends mem \<longleftrightarrow> dropWhile c_isdigit (snd (split_sign (dropWhile c_isspace mem))) \<noteq> []"

definition mem_strtoll :: "string \<Rightarrow> int res" where
  "mem_strtoll mem = (if number_ends mem then Inr (strtoll_val mem) else Inl OutOfBounds)"

definition mem_atoi :: "string \<Rightarrow> int res" where
  "mem_atoi mem = (if number_ends mem then Inr (atoi mem) else Inl OutOfBounds)"

text \<open>\<open>imdb_strndup\<close> on memory: its \<open>strlen\<close> needs a NUL in the array.\<close>

definition mem_strndup :: "string \<Rightarrow> nat \<Rightarrow> string res" where
  "mem_strndup mem n = (if NUL \<in> set mem then Inr (imdb_strndup mem n) else Inl OutOfBounds)"

fun find_crlf :: "string \<Rightarrow> nat option" where
  "find_crlf (a # b # r) = (if a = CR \<and> b = LF then Some 0 else map_option Suc (find_crlf (b # r)))"
| "find_crlf r = None"

section \<open>The parser\<close>

text \<open>The result 0 of the code is \<open>Incomplete\<close>, -1 is \<open>ParseError\<close>, and a positive one the number
  of bytes consumed with the value stored through \<open>out\<close>.\<close>

datatype resp_outcome = Incomplete | ParseError | Parsed nat resp_value

text \<open>\<open>resp_parse_items\<close> is the loop over the items of an array: \<open>k\<close> items are left, \<open>mem\<close> and
  \<open>len\<close> are what remains of the buffer after \<open>used\<close> bytes (\<open>total\<close> in the code).\<close>

function resp_parse_value :: "string \<Rightarrow> nat \<Rightarrow> resp_outcome res"
  and resp_parse_items :: "nat \<Rightarrow> string \<Rightarrow> nat \<Rightarrow> nat \<Rightarrow> resp_value list \<Rightarrow> resp_outcome res" where
  "resp_parse_value mem len =
     (if len = 0 then Inr Incomplete
      else case find_crlf (take len mem) of
        None \<Rightarrow> Inr Incomplete
      | Some line_len \<Rightarrow>
         (let consumed = line_len + 2; c = mem ! 0 in
          if c = CHR ''+'' then
            bindR (mem_strndup (drop 1 mem) (line_len - 1)) (\<lambda>s. Inr (Parsed consumed (RESP_SIMPLE_STRING s)))
          else if c = CHR ''-'' then
            bindR (mem_strndup (drop 1 mem) (line_len - 1)) (\<lambda>s. Inr (Parsed consumed (RESP_ERROR s)))
          else if c = CHR '':'' then
            bindR (mem_strtoll (drop 1 mem)) (\<lambda>n. Inr (Parsed consumed (RESP_INTEGER n)))
          else if c = CHR ''$'' then
            bindR (mem_atoi (drop 1 mem)) (\<lambda>bulk_len.
            if bulk_len = -1 then Inr (Parsed consumed RESP_NIL)
            else if bulk_len < 0 then Inr ParseError
            else if consumed + nat bulk_len + 2 > len then Inr Incomplete
            else bindR (mem_strndup (drop consumed mem) (nat bulk_len)) (\<lambda>s.
                 Inr (Parsed (consumed + nat bulk_len + 2) (RESP_BULK_STRING s))))
          else if c = CHR ''*'' then
            bindR (mem_atoi (drop 1 mem)) (\<lambda>arr_count.
            if arr_count = -1 then Inr (Parsed consumed RESP_NIL)
            else if arr_count < 0 then Inr ParseError
            else resp_parse_items (nat arr_count) (drop consumed mem) (len - consumed) consumed [])
          else Inr ParseError))"
| "resp_parse_items 0 mem len used items = Inr (Parsed used (RESP_ARRAY (rev items)))"
| "resp_parse_items (Suc k) mem len used items =
     bindR (resp_parse_value mem len) (\<lambda>r.
     case r of
       Parsed n v \<Rightarrow> resp_parse_items k (drop n mem) (len - n) (used + n) (v # items)
     | _ \<Rightarrow> Inr r)"
  by pat_completeness auto
termination
  by (relation "inv_image (less_than <*lex*> less_than)
        (case_sum (\<lambda>(mem, len). (len, 0)) (\<lambda>(k, mem, len, used, items). (len, Suc k)))")
     auto

declare resp_parse_value.simps [simp del]

definition resp_parse :: "string \<Rightarrow> nat \<Rightarrow> resp_outcome res" where
  "resp_parse mem len = resp_parse_value mem len"

end
