(* ===== verification/Command.thy ===== *)
theory Command
  imports Persist Resp
begin

text \<open>
  \<open>src/command.c\<close>: the 23 command handlers, the dispatch table and \<open>command_execute\<close>. A handler
  works on the world it can change (database, disk, the running flag of the server, if there is a
  server) and appends to the reply buffer. \<open>env\<close> is the outcome of the file operations of the one
  save a command can make. The parser never produces a string that is NULL, but \<open>get_arg\<close> answers
  NULL for an argument that is no string, and most handlers pass it on unchecked.
\<close>

section \<open>State and arguments\<close>

record world =
  w_db :: database
  w_disk :: disk
  w_running :: "bool option"

type_synonym handler = "clock \<Rightarrow> io \<Rightarrow> world \<Rightarrow> resp_value \<Rightarrow> resp_buf \<Rightarrow> (world \<times> resp_buf) res"

definition get_arg :: "resp_value \<Rightarrow> nat \<Rightarrow> cstr" where
  "get_arg cmd index =
     (case cmd of
        RESP_ARRAY items \<Rightarrow>
          if index \<ge> length items then None
          else (case items ! index of
                  RESP_BULK_STRING s \<Rightarrow> Some s | RESP_SIMPLE_STRING s \<Rightarrow> Some s | _ \<Rightarrow> None)
      | _ \<Rightarrow> None)"

definition arg_count :: "resp_value \<Rightarrow> nat" where
  "arg_count cmd = (case cmd of RESP_ARRAY items \<Rightarrow> length items | _ \<Rightarrow> 0)"

text \<open>An operation on the database, and a writer that leaves the world alone.\<close>

definition on_db :: "world \<Rightarrow> (database \<Rightarrow> (database \<times> 'a) res) \<Rightarrow> (world \<Rightarrow> 'a \<Rightarrow> 'b res) \<Rightarrow> 'b res" where
  "on_db w f k = bindR (f (w_db w)) (\<lambda>(db, x). k (w\<lparr>w_db := db\<rparr>) x)"

definition reply_with :: "world \<Rightarrow> resp_buf res \<Rightarrow> (world \<times> resp_buf) res" where
  "reply_with w m = bindR m (\<lambda>rb. Inr (w, rb))"

text \<open>\<open>resp_write_bulk_string(reply, p, strlen(p))\<close>.\<close>

definition write_bulk :: "resp_buf \<Rightarrow> cstr \<Rightarrow> resp_buf res" where
  "write_bulk rb p = bindR (deref p) (\<lambda>s. resp_write_bulk_string rb s)"

definition wrong_args :: "string \<Rightarrow> string" where
  "wrong_args name = ''ERR wrong number of arguments for '' @ [CHR 0x27] @ name @ [CHR 0x27] @ '' command''"

definition wrong_type :: string where
  "wrong_type = ''WRONGTYPE Operation against a key holding the wrong kind of value''"

definition not_integer :: string where
  "not_integer = ''ERR value is not an integer or out of range''"

section \<open>Strings and counters\<close>

definition cmd_ping :: handler where
  "cmd_ping clk env w cmd rb =
     (if arg_count cmd > 1 then reply_with w (write_bulk rb (get_arg cmd 1))
      else reply_with w (resp_write_simple_string rb ''PONG''))"

text \<open>The options of SET from index \<open>i\<close> on, in pairs.\<close>

function set_options :: "clock \<Rightarrow> world \<Rightarrow> resp_value \<Rightarrow> nat \<Rightarrow> world res" where
  "set_options clk w cmd i =
     (if i + 1 < arg_count cmd
      then bindR
        (case (get_arg cmd i, get_arg cmd (i + 1)) of
           (Some opt, Some optval) \<Rightarrow>
             if imdb_strcasecmp opt ''EX'' = 0
             then let secs = strtoll_val optval in
                  if secs > 0
                  then on_db w (\<lambda>db. db_expire clk db (get_arg cmd 1) secs) (\<lambda>w1 r. Inr w1)
                  else Inr w
             else Inr w
         | _ \<Rightarrow> Inr w)
        (\<lambda>w1. set_options clk w1 cmd (i + 2))
      else Inr w)"
  by pat_completeness auto
termination
  by (relation "measure (\<lambda>(clk, w, cmd, i). arg_count cmd - i)") auto

declare set_options.simps [simp del]

definition cmd_set :: handler where
  "cmd_set clk env w cmd rb =
     (if arg_count cmd < 3 then reply_with w (resp_write_error rb (wrong_args ''SET''))
      else
        on_db w (\<lambda>db. db_set db (get_arg cmd 1) (get_arg cmd 2)) (\<lambda>w1 r.
        bindR (set_options clk w1 cmd 3) (\<lambda>w2.
        reply_with w2 (resp_write_simple_string rb ''OK''))))"

definition cmd_get :: handler where
  "cmd_get clk env w cmd rb =
     (if arg_count cmd < 2 then reply_with w (resp_write_error rb (wrong_args ''GET''))
      else
        on_db w (\<lambda>db. db_get clk db (get_arg cmd 1)) (\<lambda>w1 p.
        reply_with w1
          (case p of
             None \<Rightarrow> resp_write_nil rb
           | Some (OBJ_STRING s) \<Rightarrow> write_bulk rb s
           | Some (OBJ_INT n) \<Rightarrow> resp_write_bulk_string rb (dec_int n)
           | Some (OBJ_LIST vs) \<Rightarrow> resp_write_error rb wrong_type)))"

function del_loop :: "clock \<Rightarrow> world \<Rightarrow> resp_value \<Rightarrow> nat \<Rightarrow> int \<Rightarrow> (world \<times> int) res" where
  "del_loop clk w cmd i deleted =
     (if i < arg_count cmd
      then on_db w (\<lambda>db. db_del clk db (get_arg cmd i)) (\<lambda>w1 r. del_loop clk w1 cmd (i + 1) (deleted + r))
      else Inr (w, deleted))"
  by pat_completeness auto
termination
  by (relation "measure (\<lambda>(clk, w, cmd, i, deleted). arg_count cmd - i)") auto

declare del_loop.simps [simp del]

definition cmd_del :: handler where
  "cmd_del clk env w cmd rb =
     (if arg_count cmd < 2 then reply_with w (resp_write_error rb (wrong_args ''DEL''))
      else bindR (del_loop clk w cmd 1 0) (\<lambda>(w1, deleted). reply_with w1 (resp_write_integer rb deleted)))"

definition cmd_exists :: handler where
  "cmd_exists clk env w cmd rb =
     (if arg_count cmd < 2 then reply_with w (resp_write_error rb (wrong_args ''EXISTS''))
      else on_db w (\<lambda>db. db_exists clk db (get_arg cmd 1)) (\<lambda>w1 r. reply_with w1 (resp_write_integer rb r)))"

text \<open>INCR and DECR differ in the delta and in the name in the error.\<close>

definition incr_by :: "string \<Rightarrow> int \<Rightarrow> handler" where
  "incr_by name delta clk env w cmd rb =
     (if arg_count cmd < 2 then reply_with w (resp_write_error rb (wrong_args name))
      else
        on_db w (\<lambda>db. db_incr clk db (get_arg cmd 1) delta) (\<lambda>w1 val.
        reply_with w1 (if val = INT64_MIN then resp_write_error rb not_integer else resp_write_integer rb val)))"

definition cmd_incr :: handler where "cmd_incr = incr_by ''INCR'' 1"
definition cmd_decr :: handler where "cmd_decr = incr_by ''DECR'' (- 1)"

function mset_loop :: "world \<Rightarrow> resp_value \<Rightarrow> nat \<Rightarrow> world res" where
  "mset_loop w cmd i =
     (if i + 1 < arg_count cmd
      then on_db w (\<lambda>db. db_set db (get_arg cmd i) (get_arg cmd (i + 1))) (\<lambda>w1 r. mset_loop w1 cmd (i + 2))
      else Inr w)"
  by pat_completeness auto
termination
  by (relation "measure (\<lambda>(w, cmd, i). arg_count cmd - i)") auto

declare mset_loop.simps [simp del]

definition cmd_mset :: handler where
  "cmd_mset clk env w cmd rb =
     (if arg_count cmd < 3 \<or> (arg_count cmd - 1) mod 2 \<noteq> 0
      then reply_with w (resp_write_error rb (wrong_args ''MSET''))
      else bindR (mset_loop w cmd 1) (\<lambda>w1. reply_with w1 (resp_write_simple_string rb ''OK'')))"

function mget_loop :: "clock \<Rightarrow> world \<Rightarrow> resp_value \<Rightarrow> nat \<Rightarrow> resp_buf \<Rightarrow> (world \<times> resp_buf) res" where
  "mget_loop clk w cmd i rb =
     (if i < arg_count cmd
      then on_db w (\<lambda>db. db_get clk db (get_arg cmd i)) (\<lambda>w1 p.
           bindR (case p of
                    None \<Rightarrow> resp_write_nil rb
                  | Some (OBJ_STRING s) \<Rightarrow> write_bulk rb s
                  | Some (OBJ_INT n) \<Rightarrow> resp_write_bulk_string rb (dec_int n)
                  | Some (OBJ_LIST vs) \<Rightarrow> resp_write_nil rb)
                 (\<lambda>rb1. mget_loop clk w1 cmd (i + 1) rb1))
      else Inr (w, rb))"
  by pat_completeness auto
termination
  by (relation "measure (\<lambda>(clk, w, cmd, i, rb). arg_count cmd - i)") auto

declare mget_loop.simps [simp del]

definition cmd_mget :: handler where
  "cmd_mget clk env w cmd rb =
     (if arg_count cmd < 2 then reply_with w (resp_write_error rb (wrong_args ''MGET''))
      else bindR (resp_write_array_header rb (arg_count cmd - 1)) (\<lambda>rb1. mget_loop clk w cmd 1 rb1))"

section \<open>Lists\<close>

text \<open>The loop of LPUSH and RPUSH: the last result, negative when it was left with the error.\<close>

function push_loop ::
    "(database \<Rightarrow> cstr \<Rightarrow> cstr \<Rightarrow> (database \<times> int) res) \<Rightarrow> world \<Rightarrow> resp_value \<Rightarrow> nat \<Rightarrow> int \<Rightarrow> (world \<times> int) res" where
  "push_loop push w cmd i result =
     (if i < arg_count cmd
      then on_db w (\<lambda>db. push db (get_arg cmd 1) (get_arg cmd i)) (\<lambda>w1 r.
           if r < 0 then Inr (w1, r) else push_loop push w1 cmd (i + 1) r)
      else Inr (w, result))"
  by pat_completeness auto
termination
  by (relation "measure (\<lambda>(push, w, cmd, i, result). arg_count cmd - i)") auto

declare push_loop.simps [simp del]

definition push_with :: "string \<Rightarrow> (clock \<Rightarrow> database \<Rightarrow> cstr \<Rightarrow> cstr \<Rightarrow> (database \<times> int) res) \<Rightarrow> handler" where
  "push_with name push clk env w cmd rb =
     (if arg_count cmd < 3 then reply_with w (resp_write_error rb (wrong_args name))
      else bindR (push_loop (push clk) w cmd 2 0) (\<lambda>(w1, r).
           reply_with w1 (if r < 0 then resp_write_error rb wrong_type else resp_write_integer rb r)))"

definition cmd_lpush :: handler where "cmd_lpush = push_with ''LPUSH'' db_lpush"
definition cmd_rpush :: handler where "cmd_rpush = push_with ''RPUSH'' db_rpush"

definition pop_with :: "string \<Rightarrow> (clock \<Rightarrow> database \<Rightarrow> cstr \<Rightarrow> (database \<times> cstr) res) \<Rightarrow> handler" where
  "pop_with name pop clk env w cmd rb =
     (if arg_count cmd < 2 then reply_with w (resp_write_error rb (wrong_args name))
      else
        on_db w (\<lambda>db. pop clk db (get_arg cmd 1)) (\<lambda>w1 val.
        reply_with w1 (case val of None \<Rightarrow> resp_write_nil rb | Some s \<Rightarrow> resp_write_bulk_string rb s)))"

definition cmd_lpop :: handler where "cmd_lpop = pop_with ''LPOP'' db_lpop"
definition cmd_rpop :: handler where "cmd_rpop = pop_with ''RPOP'' db_rpop"

definition cmd_llen :: handler where
  "cmd_llen clk env w cmd rb =
     (if arg_count cmd < 2 then reply_with w (resp_write_error rb (wrong_args ''LLEN''))
      else
        on_db w (\<lambda>db. db_llen clk db (get_arg cmd 1)) (\<lambda>w1 len.
        reply_with w1 (if len < 0 then resp_write_error rb wrong_type else resp_write_integer rb len)))"

fun write_items :: "resp_buf \<Rightarrow> cstr list \<Rightarrow> resp_buf res" where
  "write_items rb [] = Inr rb"
| "write_items rb (v # vs) = bindR (write_bulk rb v) (\<lambda>rb1. write_items rb1 vs)"

definition cmd_lrange :: handler where
  "cmd_lrange clk env w cmd rb =
     (if arg_count cmd < 4 then reply_with w (resp_write_error rb (wrong_args ''LRANGE''))
      else
        bindR (deref (get_arg cmd 2)) (\<lambda>s2.
        bindR (deref (get_arg cmd 3)) (\<lambda>s3.
        on_db w (\<lambda>db. db_lrange clk db (get_arg cmd 1) (atoi s2) (atoi s3)) (\<lambda>w1 p.
        let items = (case p of None \<Rightarrow> [] | Some vs \<Rightarrow> vs) in
        bindR (resp_write_array_header rb (length items)) (\<lambda>rb1.
        reply_with w1 (write_items rb1 items))))))"

section \<open>Expiry times\<close>

definition cmd_expire :: handler where
  "cmd_expire clk env w cmd rb =
     (if arg_count cmd < 3 then reply_with w (resp_write_error rb (wrong_args ''EXPIRE''))
      else
        bindR (deref (get_arg cmd 2)) (\<lambda>s.
        on_db w (\<lambda>db. db_expire clk db (get_arg cmd 1) (strtoll_val s)) (\<lambda>w1 r.
        reply_with w1 (resp_write_integer rb r))))"

definition cmd_ttl :: handler where
  "cmd_ttl clk env w cmd rb =
     (if arg_count cmd < 2 then reply_with w (resp_write_error rb (wrong_args ''TTL''))
      else on_db w (\<lambda>db. db_ttl clk db (get_arg cmd 1)) (\<lambda>w1 r. reply_with w1 (resp_write_integer rb r)))"

definition cmd_persist :: handler where
  "cmd_persist clk env w cmd rb =
     (if arg_count cmd < 2 then reply_with w (resp_write_error rb (wrong_args ''PERSIST''))
      else on_db w (\<lambda>db. db_persist clk db (get_arg cmd 1)) (\<lambda>w1 r. reply_with w1 (resp_write_integer rb r)))"

section \<open>The server\<close>

definition cmd_dbsize :: handler where
  "cmd_dbsize clk env w cmd rb = reply_with w (resp_write_integer rb (int (db_size (w_db w))))"

definition cmd_flushdb :: handler where
  "cmd_flushdb clk env w cmd rb =
     bindR (db_flush (w_db w)) (\<lambda>db. reply_with (w\<lparr>w_db := db\<rparr>) (resp_write_simple_string rb ''OK''))"

definition cmd_info :: handler where
  "cmd_info clk env w cmd rb =
     (let info = ''# Server'' @ CRLF @ ''inmemdb_version:1.0.0'' @ CRLF @ ''# Keyspace'' @ CRLF @
                 ''db0:keys='' @ dec_nat (db_size (w_db w)) @ CRLF
      in reply_with w (resp_write_bulk_string rb (take 511 info)))"

definition dump_name :: string where "dump_name = ''dump.rdb''"

definition cmd_save :: handler where
  "cmd_save clk env w cmd rb =
     bindR (persist_save env (w_db w) (w_disk w) dump_name) (\<lambda>(d, r).
     reply_with (w\<lparr>w_disk := d\<rparr>)
       (if r = 0 then resp_write_simple_string rb ''OK'' else resp_write_error rb ''ERR failed to save database''))"

definition cmd_shutdown :: handler where
  "cmd_shutdown clk env w cmd rb =
     bindR (persist_save env (w_db w) (w_disk w) dump_name) (\<lambda>(d, r).
     bindR (resp_write_simple_string rb ''OK'') (\<lambda>rb1.
     Inr (w\<lparr>w_disk := d, w_running := map_option (\<lambda>b. False) (w_running w)\<rparr>, rb1)))"

section \<open>Dispatch\<close>

type_synonym cmd_entry = "string \<times> handler"

definition command_table :: "cmd_entry list" where
  "command_table =
     [(''PING'', cmd_ping), (''SET'', cmd_set), (''GET'', cmd_get), (''DEL'', cmd_del),
      (''EXISTS'', cmd_exists), (''INCR'', cmd_incr), (''DECR'', cmd_decr), (''MSET'', cmd_mset),
      (''MGET'', cmd_mget), (''LPUSH'', cmd_lpush), (''RPUSH'', cmd_rpush), (''LPOP'', cmd_lpop),
      (''RPOP'', cmd_rpop), (''LLEN'', cmd_llen), (''LRANGE'', cmd_lrange), (''EXPIRE'', cmd_expire),
      (''TTL'', cmd_ttl), (''PERSIST'', cmd_persist), (''DBSIZE'', cmd_dbsize), (''FLUSHDB'', cmd_flushdb),
      (''INFO'', cmd_info), (''SAVE'', cmd_save), (''SHUTDOWN'', cmd_shutdown)]"

fun find_command :: "string \<Rightarrow> cmd_entry list \<Rightarrow> handler option" where
  "find_command name [] = None"
| "find_command name ((n, h) # es) = (if imdb_strcasecmp name n = 0 then Some h else find_command name es)"

text \<open>The command can be NULL; the error for an unknown name is cut to \<open>char err[128]\<close>.\<close>

definition command_execute :: "clock \<Rightarrow> io \<Rightarrow> world \<Rightarrow> resp_value option \<Rightarrow> resp_buf \<Rightarrow> (world \<times> resp_buf) res" where
  "command_execute clk env w p rb =
     (case p of
        Some (RESP_ARRAY items) \<Rightarrow>
          if items = [] then reply_with w (resp_write_error rb ''ERR invalid command format'')
          else
            (case get_arg (RESP_ARRAY items) 0 of
               None \<Rightarrow> reply_with w (resp_write_error rb ''ERR invalid command'')
             | Some name \<Rightarrow>
                 (case find_command name command_table of
                    Some h \<Rightarrow> h clk env w (RESP_ARRAY items) rb
                  | None \<Rightarrow>
                      reply_with w (resp_write_error rb
                        (take 127 (''ERR unknown command '' @ [CHR 0x27] @ name @ [CHR 0x27])))))
      | _ \<Rightarrow> reply_with w (resp_write_error rb ''ERR invalid command format''))"

end
