(* ===== verification/Server.thy ===== *)
theory Server
  imports Command
begin

text \<open>
  \<open>src/server.c\<close>: clients with their read and write buffers, the processing of received bytes, and the
  event loop around \<open>select\<close>. What the operating system answers is an input: which descriptors are
  ready, what \<open>accept\<close> and \<open>recv\<close> return and how much \<open>send\<close> takes. The bytes handed to
  \<open>send\<close> are kept in \<open>srv_net\<close>, the only part of the state that the code does not have. A reply
  backlog of 2 GB, for which \<open>(int)to_write\<close> would wrap, is not modelled.
\<close>

section \<open>State\<close>

definition MAX_CLIENTS :: nat where "MAX_CLIENTS = 1024"
definition CLIENT_BUF_SIZE :: nat where "CLIENT_BUF_SIZE = 65536"

text \<open>The size of an \<open>fd_set\<close> of the C library; \<open>FD_SET\<close> and \<open>FD_ISSET\<close> do not check it.\<close>

definition FD_SETSIZE :: int where "FD_SETSIZE = 1024"

definition fd_ok :: "int \<Rightarrow> bool" where
  "fd_ok fd \<longleftrightarrow> 0 \<le> fd \<and> fd < FD_SETSIZE"

definition INVALID_SOCK :: int where "INVALID_SOCK = -1"
definition DEFAULT_PORT :: int where "DEFAULT_PORT = 6399"

text \<open>\<open>c_read_buf\<close> is the whole array, \<open>c_write_buf\<close> the first \<open>write_len\<close> bytes of the heap block.\<close>

record client =
  c_fd :: int
  c_read_buf :: string
  c_read_len :: nat
  c_write_buf :: string
  c_write_cap :: nat
  c_write_pos :: nat

record server =
  srv_world :: world
  srv_listen_fd :: int
  srv_port :: int
  srv_clients :: "client option list"
  srv_client_count :: nat
  srv_net :: "(int \<times> string) list"

section \<open>Clients\<close>

definition client_create :: "int \<Rightarrow> client" where
  "client_create fd =
     \<lparr>c_fd = fd, c_read_buf = replicate CLIENT_BUF_SIZE NUL, c_read_len = 0, c_write_buf = [],
      c_write_cap = 1024, c_write_pos = 0\<rparr>"

definition client_queue_write :: "client \<Rightarrow> string \<Rightarrow> client res" where
  "client_queue_write c data =
     bindR (returns (grow_cap (length (c_write_buf c) + length data) (c_write_cap c))) (\<lambda>cap.
     Inr (c\<lparr>c_write_cap := cap, c_write_buf := c_write_buf c @ data\<rparr>))"

text \<open>
  \<open>recv\<close> into the free part of the read buffer: \<open>None\<close> when it returns 0 or less, as it does on an
  error, at the end of the stream and for a buffer of size 0.
\<close>

definition client_recv :: "string option \<Rightarrow> client \<Rightarrow> client option" where
  "client_recv answer c =
     (case answer of
        None \<Rightarrow> None
      | Some bytes \<Rightarrow>
          (let got = take (CLIENT_BUF_SIZE - c_read_len c) bytes; n = length got in
           if n = 0 then None
           else Some (c\<lparr>c_read_buf := take (c_read_len c) (c_read_buf c) @ got @ drop (c_read_len c + n) (c_read_buf c),
                        c_read_len := c_read_len c + n\<rparr>)))"

text \<open>The \<open>memmove\<close> that drops the bytes of a command; with more bytes than there are its size wraps.\<close>

definition consume_input :: "client \<Rightarrow> nat \<Rightarrow> client res" where
  "consume_input c consumed =
     (if consumed \<le> c_read_len c
      then (let left = c_read_len c - consumed in
            Inr (c\<lparr>c_read_buf := take left (drop consumed (c_read_buf c)) @ drop left (c_read_buf c), c_read_len := left\<rparr>))
      else Inl OutOfBounds)"

lemma consume_input_length:
  "consume_input c n = Inr c' \<Longrightarrow> c_read_len c' = c_read_len c - n \<and> n \<le> c_read_len c"
  by (auto simp: consume_input_def Let_def split: if_splits)

lemma client_queue_write_length: "client_queue_write c d = Inr c' \<Longrightarrow> c_read_len c' = c_read_len c"
  by (auto simp: client_queue_write_def)

text \<open>
  The loop of \<open>process_client_input\<close>: complete commands are executed and their replies queued. \<open>env n\<close>
  is the outcome of the file operations of the n-th command.
\<close>

function process_client_input :: "clock \<Rightarrow> (nat \<Rightarrow> io) \<Rightarrow> nat \<Rightarrow> world \<Rightarrow> client \<Rightarrow> (world \<times> client) res" where
  "process_client_input clk env n w c =
     (if c_read_len c > 0
      then bindR (resp_parse (c_read_buf c) (c_read_len c)) (\<lambda>r.
           case r of
             Parsed consumed cmd \<Rightarrow>
               if consumed = 0 then Inr (w, c)
               else
                 bindR (command_execute clk (env n) w (Some cmd) resp_buf_init) (\<lambda>(w1, reply).
                 bindR (client_queue_write c (rb_data reply)) (\<lambda>c1.
                 bindR (consume_input c1 consumed) (\<lambda>c2.
                 process_client_input clk env (Suc n) w1 c2)))
           | _ \<Rightarrow> Inr (w, c))
      else Inr (w, c))"
  by pat_completeness auto
termination
  by (relation "measure (\<lambda>(clk, env, n, w, c). c_read_len c)")
     (auto dest!: consume_input_length client_queue_write_length)

declare process_client_input.simps [simp del]

text \<open>\<open>send\<close> takes at most \<open>m\<close> of the pending bytes; the result has what it took.\<close>

definition client_send :: "nat option \<Rightarrow> client \<Rightarrow> (client \<times> string) option" where
  "client_send answer c =
     (case answer of
        None \<Rightarrow> None
      | Some m \<Rightarrow>
          (let pending = drop (c_write_pos c) (c_write_buf c); n = min m (length pending) in
           if n = 0 then None
           else Some (if c_write_pos c + n \<ge> length (c_write_buf c)
                      then c\<lparr>c_write_pos := 0, c_write_buf := []\<rparr>
                      else c\<lparr>c_write_pos := c_write_pos c + n\<rparr>,
                      take n pending)))"

section \<open>The table of clients\<close>

definition server_create :: "database \<Rightarrow> disk \<Rightarrow> int \<Rightarrow> server" where
  "server_create db d port =
     \<lparr>srv_world = \<lparr>w_db = db, w_disk = d, w_running = Some False\<rparr>, srv_listen_fd = INVALID_SOCK, srv_port = port,
      srv_clients = replicate MAX_CLIENTS None, srv_client_count = 0, srv_net = []\<rparr>"

text \<open>The answers of \<open>socket\<close>, of \<open>bind\<close> for a port, and of \<open>listen\<close>.\<close>

record listen_answers =
  la_socket :: int
  la_bind :: "16 word \<Rightarrow> bool"
  la_listen :: bool

definition server_listen :: "listen_answers \<Rightarrow> server \<Rightarrow> server \<times> int" where
  "server_listen la srv =
     (let port = (word_of_int (srv_port srv) :: 16 word);
          srv1 = srv\<lparr>srv_listen_fd := la_socket la\<rparr> in
      if srv_listen_fd srv1 = INVALID_SOCK then (srv1, -1)
      else if \<not> la_bind la port then (srv1, -1)
      else if \<not> la_listen la then (srv1, -1)
      else (srv1, 0))"

fun empty_slot :: "client option list \<Rightarrow> nat option" where
  "empty_slot [] = None"
| "empty_slot (None # cs) = Some 0"
| "empty_slot (Some c # cs) = map_option Suc (empty_slot cs)"

definition server_accept :: "int option \<Rightarrow> server \<Rightarrow> server" where
  "server_accept answer srv =
     (case answer of
        None \<Rightarrow> srv
      | Some fd \<Rightarrow>
          if srv_client_count srv \<ge> MAX_CLIENTS then srv
          else (case empty_slot (srv_clients srv) of
                  Some i \<Rightarrow> srv\<lparr>srv_clients := (srv_clients srv)[i := Some (client_create fd)],
                                srv_client_count := srv_client_count srv + 1\<rparr>
                | None \<Rightarrow> srv))"

definition server_remove_client :: "server \<Rightarrow> nat \<Rightarrow> server" where
  "server_remove_client srv index =
     srv\<lparr>srv_clients := (srv_clients srv)[index := None], srv_client_count := srv_client_count srv - 1\<rparr>"

definition server_stop :: "server \<Rightarrow> server" where
  "server_stop srv = srv\<lparr>srv_world := (srv_world srv)\<lparr>w_running := Some False\<rparr>\<rparr>"

definition running :: "server \<Rightarrow> bool" where
  "running srv \<longleftrightarrow> w_running (srv_world srv) = Some True"

section \<open>The event loop\<close>

text \<open>The descriptor sets for \<open>select\<close>: every client for reading, those with pending replies for writing.\<close>

definition FD_SET :: "int \<Rightarrow> int list \<Rightarrow> int list res" where
  "FD_SET fd s = (if fd_ok fd then Inr (fd # s) else Inl OutOfBounds)"

definition FD_ISSET :: "int \<Rightarrow> int list \<Rightarrow> bool res" where
  "FD_ISSET fd s = (if fd_ok fd then Inr (fd \<in> set s) else Inl OutOfBounds)"

fun collect_fds :: "client option list \<Rightarrow> int list \<times> int list \<Rightarrow> (int list \<times> int list) res" where
  "collect_fds [] sets = Inr sets"
| "collect_fds (None # cs) sets = collect_fds cs sets"
| "collect_fds (Some c # cs) (reads, writes) =
     bindR (FD_SET (c_fd c) reads) (\<lambda>reads1.
     bindR (if length (c_write_buf c) > c_write_pos c then FD_SET (c_fd c) writes else Inr writes) (\<lambda>writes1.
     collect_fds cs (reads1, writes1)))"

record ready =
  rd_read :: "int list"
  rd_write :: "int list"
  rd_accept :: "int option"
  rd_recv :: "int \<Rightarrow> string option"
  rd_send :: "int \<Rightarrow> nat option"
  rd_io :: "int \<Rightarrow> nat \<Rightarrow> io"

text \<open>\<open>select\<close> fails, is interrupted by a signal whose handler acts on the world, or returns.\<close>

datatype select_result =
    SelectError
  | SelectInterrupted "world \<Rightarrow> world res"
  | SelectReady ready

definition serve_write :: "ready \<Rightarrow> int list \<Rightarrow> nat \<Rightarrow> client \<Rightarrow> server \<Rightarrow> server res" where
  "serve_write rdy writes i c srv =
     bindR (FD_ISSET (c_fd c) writes) (\<lambda>is_set.
     if is_set
     then (case client_send (rd_send rdy (c_fd c)) c of
             None \<Rightarrow> Inr (server_remove_client srv i)
           | Some (c1, sent) \<Rightarrow>
               Inr (srv\<lparr>srv_clients := (srv_clients srv)[i := Some c1], srv_net := srv_net srv @ [(c_fd c, sent)]\<rparr>))
     else Inr srv)"

definition serve_client :: "clock \<Rightarrow> ready \<Rightarrow> int list \<Rightarrow> int list \<Rightarrow> nat \<Rightarrow> server \<Rightarrow> server res" where
  "serve_client clk rdy reads writes i srv =
     (case srv_clients srv ! i of
        None \<Rightarrow> Inr srv
      | Some c \<Rightarrow>
          bindR (FD_ISSET (c_fd c) reads) (\<lambda>is_set.
          if is_set
          then (case client_recv (rd_recv rdy (c_fd c)) c of
                  None \<Rightarrow> Inr (server_remove_client srv i)
                | Some c1 \<Rightarrow>
                    bindR (process_client_input clk (rd_io rdy (c_fd c)) 0 (srv_world srv) c1) (\<lambda>(w, c2).
                    serve_write rdy writes i c2
                      (srv\<lparr>srv_world := w, srv_clients := (srv_clients srv)[i := Some c2]\<rparr>)))
          else serve_write rdy writes i c srv))"

fun serve_clients :: "clock \<Rightarrow> ready \<Rightarrow> int list \<Rightarrow> int list \<Rightarrow> nat list \<Rightarrow> server \<Rightarrow> server res" where
  "serve_clients clk rdy reads writes [] srv = Inr srv"
| "serve_clients clk rdy reads writes (i # is) srv =
     bindR (serve_client clk rdy reads writes i srv) (\<lambda>srv1. serve_clients clk rdy reads writes is srv1)"

text \<open>One round of the loop: the new state, and whether the loop goes on (it is left by \<open>break\<close> after an
  error of \<open>select\<close>). \<open>select\<close> only reports descriptors that it was asked for.\<close>

definition server_round :: "clock \<Rightarrow> select_result \<Rightarrow> server \<Rightarrow> (server \<times> bool) res" where
  "server_round clk sel srv =
     bindR (FD_SET (srv_listen_fd srv) []) (\<lambda>listen.
     bindR (collect_fds (srv_clients srv) (listen, [])) (\<lambda>(read_fds, write_fds).
     case sel of
       SelectError \<Rightarrow> Inr (srv, False)
     | SelectInterrupted handler \<Rightarrow> bindR (handler (srv_world srv)) (\<lambda>w. Inr (srv\<lparr>srv_world := w\<rparr>, True))
     | SelectReady rdy \<Rightarrow>
         (let reads = filter (\<lambda>fd. fd \<in> set (rd_read rdy)) read_fds;
              writes = filter (\<lambda>fd. fd \<in> set (rd_write rdy)) write_fds;
              srv1 = (if srv_listen_fd srv \<in> set reads then server_accept (rd_accept rdy) srv else srv)
          in bindR (serve_clients clk rdy reads writes [0..<MAX_CLIENTS] srv1) (\<lambda>srv2.
             bindR (db_expire_sweep clk (w_db (srv_world srv2))) (\<lambda>db.
             Inr (srv2\<lparr>srv_world := (srv_world srv2)\<lparr>w_db := db\<rparr>\<rparr>, True))))))"

definition server_cleanup :: "server \<Rightarrow> server" where
  "server_cleanup srv =
     foldl (\<lambda>s i. if srv_clients s ! i \<noteq> None then server_remove_client s i else s) srv [0..<MAX_CLIENTS]"

text \<open>The loop for a sequence of \<open>select\<close> results; when they are used up the server waits in \<open>select\<close>.\<close>

fun server_loop :: "clock \<Rightarrow> select_result list \<Rightarrow> server \<Rightarrow> server res" where
  "server_loop clk [] srv = Inr (if running srv then srv else server_cleanup srv)"
| "server_loop clk (sel # sels) srv =
     (if running srv
      then bindR (server_round clk sel srv) (\<lambda>(srv1, go).
           if go then server_loop clk sels srv1 else Inr (server_cleanup srv1))
      else Inr (server_cleanup srv))"

definition server_run :: "clock \<Rightarrow> listen_answers \<Rightarrow> select_result list \<Rightarrow> server \<Rightarrow> server res" where
  "server_run clk la sels srv =
     (let (srv1, r) = server_listen la srv in
      if r < 0 then Inr srv1
      else server_loop clk sels (srv1\<lparr>srv_world := (srv_world srv1)\<lparr>w_running := Some True\<rparr>\<rparr>))"

text \<open>The states between two rounds of a server that was started on a database.\<close>

inductive reachable :: "clock \<Rightarrow> database \<Rightarrow> disk \<Rightarrow> int \<Rightarrow> server \<Rightarrow> bool" for clk db d port where
  started: "server_listen la (server_create db d port) = (srv, 0) \<Longrightarrow>
     reachable clk db d port (srv\<lparr>srv_world := (srv_world srv)\<lparr>w_running := Some True\<rparr>\<rparr>)"
| round: "reachable clk db d port srv \<Longrightarrow> running srv \<Longrightarrow> server_round clk sel srv = Inr (srv1, True) \<Longrightarrow>
     reachable clk db d port srv1"

end
