(* ===== verification/Resp_Wire.thy ===== *)
theory Resp_Wire
  imports Resp
begin

text \<open>
  The wire format of the protocol: what the writers append (\<open>encode\<close>), and the interface of a parser of
  it. The server and the client each have a parser of their own; what both owe to the wire format is
  stated in the locale \<open>resp_parser\<close>, line by line, and the round trip and the treatment of incomplete
  input are proved there once.
\<close>

section \<open>The writers append\<close>

definition rb_ok :: "resp_buf \<Rightarrow> bool" where
  "rb_ok rb \<longleftrightarrow> 0 < rb_cap rb \<and> length (rb_data rb) \<le> rb_cap rb"

text \<open>\<open>appends rb d m\<close>: the writer \<open>m\<close> returns, has added the bytes \<open>d\<close> and stayed in the buffer.\<close>

definition appends :: "resp_buf \<Rightarrow> string \<Rightarrow> resp_buf res \<Rightarrow> bool" where
  "appends rb d m \<longleftrightarrow> (\<exists>rb'. m = Inr rb' \<and> rb_ok rb' \<and> rb_data rb' = rb_data rb @ d)"

lemma rb_ok_init [simp]: "rb_ok resp_buf_init" "rb_data resp_buf_init = []"
  by (simp_all add: rb_ok_def resp_buf_init_def)

lemma append_appends [intro]: "rb_ok rb \<Longrightarrow> appends rb d (resp_buf_append rb d)"
  using grow_cap_total [of "rb_cap rb" "length (rb_data rb) + length d"]
  by (auto simp: appends_def rb_ok_def resp_buf_append_def resp_buf_ensure_def)

lemma appends_bind:
  assumes "appends rb d m" "\<And>rb'. rb_ok rb' \<Longrightarrow> rb_data rb' = rb_data rb @ d \<Longrightarrow> appends rb' d' (f rb')"
  shows "appends rb (d @ d') (bindR m f)"
  using assms by (fastforce simp: appends_def)

lemma appends_refl: "rb_ok rb \<Longrightarrow> appends rb [] (Inr rb)"
  by (simp add: appends_def)

lemma appendf_appends: "rb_ok rb \<Longrightarrow> length text \<le> 127 \<Longrightarrow> appends rb text (resp_buf_appendf rb text)"
  by (auto simp: resp_buf_appendf_def Let_def appends_refl)

lemma writers_append:
  assumes "rb_ok rb"
  shows "length s \<le> 124 \<Longrightarrow> appends rb (''+'' @ s @ CRLF) (resp_write_simple_string rb s)"
    and "length s \<le> 124 \<Longrightarrow> appends rb (''-'' @ s @ CRLF) (resp_write_error rb s)"
    and "appends rb ('':'' @ dec_int n @ CRLF) (resp_write_integer rb n)"
    and "appends rb (''$-1'' @ CRLF) (resp_write_nil rb)"
    and "appends rb (''*'' @ dec_nat k @ CRLF) (resp_write_array_header rb k)"
  using assms
  by (auto simp: resp_write_simple_string_def resp_write_error_def resp_write_integer_def resp_write_nil_def
      resp_write_array_header_def intro!: appendf_appends)

lemma bulk_appends:
  assumes "rb_ok rb"
  shows "appends rb (''$'' @ dec_nat (length s) @ CRLF @ s @ CRLF) (resp_write_bulk_string rb s)"
proof -
  have "appends rb ((''$'' @ dec_nat (length s) @ CRLF) @ s @ CRLF) (resp_write_bulk_string rb s)"
    unfolding resp_write_bulk_string_def
    by (intro appends_bind append_appends assms)
  then show ?thesis by simp
qed

section \<open>The wire format\<close>

fun encode :: "resp_value \<Rightarrow> string" where
  "encode (RESP_SIMPLE_STRING s) = ''+'' @ s @ CRLF"
| "encode (RESP_ERROR s) = ''-'' @ s @ CRLF"
| "encode (RESP_INTEGER n) = '':'' @ dec_int n @ CRLF"
| "encode (RESP_BULK_STRING s) = ''$'' @ dec_nat (length s) @ CRLF @ s @ CRLF"
| "encode (RESP_ARRAY vs) = ''*'' @ dec_nat (length vs) @ CRLF @ concat (map encode vs)"
| "encode RESP_NIL = ''$-1'' @ CRLF"

text \<open>Values the wire format can carry: lines without CR and NUL and short enough for the formatting
  buffer, 64-bit integers, strings without NUL, lengths and counts that fit an \<open>int\<close>.\<close>

definition line_ok :: "string \<Rightarrow> bool" where
  "line_ok s \<longleftrightarrow> CR \<notin> set s \<and> NUL \<notin> set s \<and> length s \<le> 124"

fun value_ok :: "resp_value \<Rightarrow> bool" where
  "value_ok (RESP_SIMPLE_STRING s) = line_ok s"
| "value_ok (RESP_ERROR s) = line_ok s"
| "value_ok (RESP_INTEGER n) = in_int64 n"
| "value_ok (RESP_BULK_STRING s) = (cstr_ok s \<and> int (length s) \<le> INT32_MAX)"
| "value_ok (RESP_ARRAY vs) = (int (length vs) \<le> INT32_MAX \<and> list_all value_ok vs)"
| "value_ok RESP_NIL = True"

text \<open>Values of which the lines hold no CR, so that the end of the encoding can be told. They are the replies
  that a client can take apart.\<close>

fun one_line :: "resp_value \<Rightarrow> bool" where
  "one_line (RESP_SIMPLE_STRING s) = (CR \<notin> set s)"
| "one_line (RESP_ERROR s) = (CR \<notin> set s)"
| "one_line (RESP_ARRAY vs) = list_all one_line vs"
| "one_line v = True"

text \<open>A value written with the writers of the code.\<close>

fun write_value :: "resp_buf \<Rightarrow> resp_value \<Rightarrow> resp_buf res" where
  "write_value rb (RESP_SIMPLE_STRING s) = resp_write_simple_string rb s"
| "write_value rb (RESP_ERROR s) = resp_write_error rb s"
| "write_value rb (RESP_INTEGER n) = resp_write_integer rb n"
| "write_value rb (RESP_BULK_STRING s) = resp_write_bulk_string rb s"
| "write_value rb (RESP_ARRAY vs) =
     bindR (resp_write_array_header rb (length vs)) (\<lambda>rb1. fold (\<lambda>v m. bindR m (\<lambda>rb'. write_value rb' v)) vs (Inr rb1))"
| "write_value rb RESP_NIL = resp_write_nil rb"

lemma fold_appends:
  assumes "\<And>v rb'. v \<in> set vs \<Longrightarrow> rb_ok rb' \<Longrightarrow> appends rb' (encode v) (write_value rb' v)"
    and "appends rb d m"
  shows "appends rb (d @ concat (map encode vs)) (fold (\<lambda>v m. bindR m (\<lambda>rb'. write_value rb' v)) vs m)"
  using assms
proof (induction vs arbitrary: d m)
  case (Cons v vs)
  have "appends rb (d @ encode v) (bindR m (\<lambda>rb'. write_value rb' v))"
    by (rule appends_bind [OF Cons.prems(2)]) (use Cons.prems(1) in auto)
  with Cons.IH [of "d @ encode v"] Cons.prems(1) show ?case by auto
qed simp

lemma write_value_appends: "value_ok v \<Longrightarrow> rb_ok rb \<Longrightarrow> appends rb (encode v) (write_value rb v)"
proof (induction v arbitrary: rb)
  case (RESP_ARRAY vs)
  have "appends rb ((''*'' @ dec_nat (length vs) @ CRLF) @ concat (map encode vs)) (write_value rb (RESP_ARRAY vs))"
    unfolding write_value.simps
  proof (rule appends_bind [OF writers_append(5) [OF RESP_ARRAY.prems(2)]])
    fix rb1 assume "rb_ok rb1"
    from fold_appends [OF _ appends_refl [OF this], of vs] RESP_ARRAY
    show "appends rb1 (concat (map encode vs)) (fold (\<lambda>v m. bindR m (\<lambda>rb'. write_value rb' v)) vs (Inr rb1))"
      by (auto simp: list_all_iff)
  qed
  then show ?case by simp
qed (use writers_append bulk_appends in \<open>auto simp: line_ok_def\<close>)

section \<open>Lines\<close>

lemma find_crlf_line: "CR \<notin> set p \<Longrightarrow> find_crlf (p @ CRLF @ r) = Some (length p)"
proof (induction p)
  case (Cons a p)
  then show ?case by (cases p) auto
qed (simp add: CR_def LF_def)

lemma find_crlf_none: "CR \<notin> set p \<Longrightarrow> find_crlf p = None \<and> find_crlf (p @ [CR]) = None"
proof (induction p)
  case (Cons a p)
  then show ?case by (cases p) auto
qed simp

lemma find_crlf_take:
  assumes "CR \<notin> set p"
  shows "length p + 2 \<le> len \<Longrightarrow> find_crlf (take len (p @ CRLF @ r)) = Some (length p)"
    and "len < length p + 2 \<Longrightarrow> find_crlf (take len (p @ CRLF @ r)) = None"
proof -
  assume "length p + 2 \<le> len"
  then obtain m where "len = length p + 2 + m" by (auto simp: le_iff_add)
  then have "take len (p @ CRLF @ r) = p @ CRLF @ take m r" by simp
  with find_crlf_line [OF assms] show "find_crlf (take len (p @ CRLF @ r)) = Some (length p)" by simp
next
  assume "len < length p + 2"
  then consider "len \<le> length p" | "len = Suc (length p)" by linarith
  then show "find_crlf (take len (p @ CRLF @ r)) = None"
  proof cases
    case 1
    then have "CR \<notin> set (take len p)" using assms by (auto dest: in_set_takeD)
    with find_crlf_none 1 show ?thesis by simp
  qed (use find_crlf_none [OF assms] in simp)
qed

lemma number_line:
  "number_ends (dec_int x @ CRLF @ r)" "in_int64 x \<Longrightarrow> mem_strtoll (dec_int x @ CRLF @ r) = Inr x"
proof -
  obtain d ds where d: "dec_nat (nat \<bar>x\<bar>) = d # ds" "c_isdigit d" by (rule dec_nat_hd)
  have "split_sign (dropWhile c_isspace (dec_int x @ CRLF @ r)) = (x < 0, dec_nat (nat \<bar>x\<bar>) @ CRLF @ r)"
    using d isdigit_neq [OF d(2)] by (auto simp: dec_int_def split_sign_def c_isspace_def)
  moreover have "\<not> c_isdigit (hd (CRLF @ r))" by (simp add: CR_def c_isdigit_def)
  ultimately show ends: "number_ends (dec_int x @ CRLF @ r)"
    by (simp add: number_ends_def takeWhile_dec_nat)
  show "mem_strtoll (dec_int x @ CRLF @ r) = Inr x" if "in_int64 x"
    using ends strtoll_dec_int [OF that, of "CRLF @ r"]
    by (simp add: mem_strtoll_def strtoll_val_def CR_def c_isdigit_def)
qed

lemma mem_atoi_dec:
  "int n \<le> INT32_MAX \<Longrightarrow> mem_atoi (dec_nat n @ CRLF @ r) = Inr (int n)"
  "mem_atoi (''-1'' @ CRLF @ r) = Inr (- 1)"
proof -
  show "mem_atoi (dec_nat n @ CRLF @ r) = Inr (int n)" if "int n \<le> INT32_MAX"
    using number_line(1) [of "int n" r] atoi_dec_nat [OF that, of "CRLF @ r"]
    by (simp add: mem_atoi_def dec_int_of_nat CR_def c_isdigit_def)
  have one: "''-1'' = dec_int (- 1)" by code_simp
  have "strtoll_val (''-1'' @ CRLF @ r) = - 1"
    using strtoll_dec_int [of "-1" "CRLF @ r"]
    by (simp add: one strtoll_val_def CR_def c_isdigit_def in_int64_def INT64_MIN_def INT64_MAX_def)
  then show "mem_atoi (''-1'' @ CRLF @ r) = Inr (- 1)"
    using number_line(1) [of "-1" r] by (simp add: mem_atoi_def atoi_def one INT32_MAX_def)
qed

section \<open>An encoding is that of one value only\<close>

lemma dec_no_CR: "CR \<notin> set (dec_nat n)" "CR \<notin> set (dec_int x)"
proof -
  show a: "CR \<notin> set (dec_nat n)" for n using dec_nat_digits [of CR n] isdigit_neq(5) by blast
  show "CR \<notin> set (dec_int x)" using a by (auto simp: dec_int_def CR_def)
qed

lemma dec_inject: "dec_nat m = dec_nat n \<longleftrightarrow> m = n" "dec_int x = dec_int y \<longleftrightarrow> x = y" "dec_nat m \<noteq> ''-1''"
proof -
  show nat: "dec_nat m = dec_nat n \<longleftrightarrow> m = n" for m n using digits_val_dec_nat by metis
  have minus: "dec_nat m \<noteq> CHR ''-'' # t" for m t using dec_nat_hd [of m] isdigit_neq(1) by (metis list.inject)
  from minus show "dec_nat m \<noteq> ''-1''" .
  show "dec_int x = dec_int y \<longleftrightarrow> x = y"
    using minus minus [symmetric] by (auto simp: dec_int_def nat eq_nat_nat_iff)
qed

lemma line_inject:
  assumes "CR \<notin> set p" "CR \<notin> set q" "p @ CRLF @ r = q @ CRLF @ r'"
  shows "p = q \<and> r = r'"
proof -
  have "takeWhile (\<lambda>c. c \<noteq> CR) (s @ CRLF @ t) = s" if "CR \<notin> set s" for s t
    using that by (auto simp: takeWhile_append)
  with assms have "p = q" by metis
  with assms(3) show ?thesis by simp
qed

lemma encode_unique:
  "one_line v \<Longrightarrow> one_line v' \<Longrightarrow> encode v @ r = encode v' @ r' \<Longrightarrow> v = v' \<and> r = r'"
proof (induction v arbitrary: v' r r')
  case (RESP_ARRAY vs)
  have items: "list_all one_line ws \<Longrightarrow> length ws = length us \<Longrightarrow> set us \<subseteq> set vs \<Longrightarrow>
      concat (map encode us) @ r = concat (map encode ws) @ r' \<Longrightarrow> us = ws \<and> r = r'" for us ws
  proof (induction us arbitrary: ws)
    case (Cons u us)
    then obtain w ws' where ws: "ws = w # ws'" by (cases ws) auto
    with Cons.prems RESP_ARRAY.prems(1) have u: "u \<in> set vs" "one_line u" "one_line w" by (auto simp: list_all_iff)
    from RESP_ARRAY.IH [OF u] Cons.prems(4) ws
    have "u = w \<and> concat (map encode us) @ r = concat (map encode ws') @ r'" by simp
    moreover from this have "us = ws' \<and> r = r'" by (intro Cons.IH) (use Cons.prems ws in auto)
    ultimately show ?case using ws by simp
  qed simp
  from RESP_ARRAY.prems(3) obtain ws where v': "v' = RESP_ARRAY ws" by (cases v') auto
  with RESP_ARRAY.prems(3) line_inject [of "dec_nat (length vs)" "dec_nat (length ws)"]
  have "length vs = length ws" "concat (map encode vs) @ r = concat (map encode ws) @ r'"
    by (auto simp: dec_no_CR dec_inject)
  with items [of ws vs] RESP_ARRAY.prems(2) v' show ?case by simp
next
  case (RESP_SIMPLE_STRING s)
  then obtain s' where "v' = RESP_SIMPLE_STRING s'" by (cases v') auto
  with RESP_SIMPLE_STRING line_inject [of s s' r r'] show ?case by simp
next
  case (RESP_ERROR s)
  then obtain s' where "v' = RESP_ERROR s'" by (cases v') auto
  with RESP_ERROR line_inject [of s s' r r'] show ?case by simp
next
  case (RESP_INTEGER n)
  then obtain m where "v' = RESP_INTEGER m" by (cases v') auto
  with RESP_INTEGER line_inject [of "dec_int n" "dec_int m" r r'] show ?case by (simp add: dec_no_CR dec_inject)
next
  case (RESP_BULK_STRING s)
  consider s' where "v' = RESP_BULK_STRING s'" | "v' = RESP_NIL" using RESP_BULK_STRING.prems(3) by (cases v') auto
  then show ?case
  proof cases
    case 1
    with RESP_BULK_STRING.prems(3) line_inject [of "dec_nat (length s)" "dec_nat (length s')"]
    have "length s = length s'" "s @ CRLF @ r = s' @ CRLF @ r'" by (auto simp: dec_no_CR dec_inject)
    with 1 show ?thesis by simp
  next
    case 2
    with RESP_BULK_STRING.prems(3) line_inject [of "dec_nat (length s)" "''-1''" "s @ CRLF @ r" r'] show ?thesis
      by (simp add: dec_no_CR [unfolded CR_def] dec_inject CR_def)
  qed
next
  case RESP_NIL
  consider s' where "v' = RESP_BULK_STRING s'" | "v' = RESP_NIL" using RESP_NIL.prems(3) by (cases v') auto
  then show ?case
  proof cases
    case 1
    with RESP_NIL.prems(3) line_inject [of "''-1''" "dec_nat (length s')" r "s' @ CRLF @ r'"] show ?thesis
      by (simp add: dec_no_CR [unfolded CR_def] dec_inject(3) [symmetric] CR_def)
  next
    case 2
    with RESP_NIL.prems(3) show ?thesis by simp
  qed
qed

section \<open>Parsers\<close>

lemma CR_not_type [simp]:
  "CR \<noteq> CHR ''+''" "CR \<noteq> CHR ''-''" "CR \<noteq> CHR '':''" "CR \<noteq> CHR ''$''" "CR \<noteq> CHR ''*''" "CR \<noteq> CHR ''1''"
  by (simp_all add: CR_def)

text \<open>The line every encoding starts with.\<close>

text \<open>
  \<open>parse\<close> answers \<open>finished n v\<close> for a value read from \<open>n\<close> bytes and \<open>more\<close> for incomplete input, and
  \<open>items\<close> is its loop over the items of an array. \<open>tail_ok\<close> is what it needs of the memory behind the input,
  \<open>len_ok\<close> of the length of the input.
\<close>

locale resp_parser =
  fixes parse :: "string \<Rightarrow> nat \<Rightarrow> 'o res"
    and items :: "nat \<Rightarrow> string \<Rightarrow> nat \<Rightarrow> nat \<Rightarrow> resp_value list \<Rightarrow> 'o res"
    and finished :: "nat \<Rightarrow> resp_value \<Rightarrow> 'o"
    and more :: 'o
    and tail_ok :: "string \<Rightarrow> bool"
    and len_ok :: "nat \<Rightarrow> bool"
  assumes short_line: "CR \<notin> set (c # b) \<Longrightarrow> len < length b + 3 \<Longrightarrow> parse (take len (c # b @ CRLF @ r) @ junk) len = Inr more"
    and simple: "line_ok s \<Longrightarrow> tail_ok r \<Longrightarrow> length s + 3 \<le> len \<Longrightarrow>
      parse (CHR ''+'' # s @ CRLF @ r) len = Inr (finished (length s + 3) (RESP_SIMPLE_STRING s))"
    and error: "line_ok s \<Longrightarrow> tail_ok r \<Longrightarrow> length s + 3 \<le> len \<Longrightarrow>
      parse (CHR ''-'' # s @ CRLF @ r) len = Inr (finished (length s + 3) (RESP_ERROR s))"
    and integer: "in_int64 x \<Longrightarrow> length (dec_int x) + 3 \<le> len \<Longrightarrow>
      parse (CHR '':'' # dec_int x @ CRLF @ r) len = Inr (finished (length (dec_int x) + 3) (RESP_INTEGER x))"
    and nil: "5 \<le> len \<Longrightarrow> parse (''$-1'' @ CRLF @ r) len = Inr (finished 5 RESP_NIL)"
    and bulk: "cstr_ok s \<Longrightarrow> int (length s) \<le> INT32_MAX \<Longrightarrow> tail_ok r \<Longrightarrow> len_ok len \<Longrightarrow>
      length (dec_nat (length s)) + 3 + length s + 2 \<le> len \<Longrightarrow>
      parse (CHR ''$'' # dec_nat (length s) @ CRLF @ s @ CRLF @ r) len =
        Inr (finished (length (dec_nat (length s)) + 3 + length s + 2) (RESP_BULK_STRING s))"
    and bulk_more: "int n \<le> INT32_MAX \<Longrightarrow> len_ok len \<Longrightarrow> length (dec_nat n) + 3 \<le> len \<Longrightarrow>
      len < length (dec_nat n) + 3 + n + 2 \<Longrightarrow> parse (CHR ''$'' # dec_nat n @ CRLF @ r) len = Inr more"
    and array: "int n \<le> INT32_MAX \<Longrightarrow> length (dec_nat n) + 3 \<le> len \<Longrightarrow>
      parse (CHR ''*'' # dec_nat n @ CRLF @ r) len =
        items n r (len - (length (dec_nat n) + 3)) (length (dec_nat n) + 3) []"
    and items_0: "items 0 mem len used vs = Inr (finished used (RESP_ARRAY (rev vs)))"
    and items_Suc: "parse mem len = Inr (finished n v) \<Longrightarrow>
      items (Suc k) mem len used vs = items k (drop n mem) (len - n) (used + n) (v # vs)"
    and items_more: "parse mem len = Inr more \<Longrightarrow> items (Suc k) mem len used vs = Inr more"
    and tail_append: "tail_ok r \<Longrightarrow> tail_ok (s @ r)"
    and len_mono: "len_ok m \<Longrightarrow> n \<le> m \<Longrightarrow> len_ok n"
begin

lemma items_complete:
  assumes "\<And>v rest len. v \<in> set vs \<Longrightarrow> tail_ok rest \<Longrightarrow> len_ok len \<Longrightarrow> length (encode v) \<le> len \<Longrightarrow>
      parse (encode v @ rest) len = Inr (finished (length (encode v)) v)"
    and "tail_ok rest" "len_ok len" "length (concat (map encode vs)) \<le> len"
  shows "items (length vs) (concat (map encode vs) @ rest) len used done =
    Inr (finished (used + length (concat (map encode vs))) (RESP_ARRAY (rev done @ vs)))"
  using assms
proof (induction vs arbitrary: len used "done")
  case (Cons v vs)
  have "parse (encode v @ concat (map encode vs) @ rest) len = Inr (finished (length (encode v)) v)"
    by (rule Cons.prems(1)) (use Cons.prems in \<open>auto intro: tail_append\<close>)
  moreover have "items (length vs) (concat (map encode vs) @ rest) (len - length (encode v))
      (used + length (encode v)) (v # done) =
    Inr (finished (used + length (encode v) + length (concat (map encode vs))) (RESP_ARRAY (rev (v # done) @ vs)))"
    by (rule Cons.IH) (use Cons.prems in \<open>auto intro: len_mono\<close>)
  ultimately show ?case by (simp add: add.assoc items_Suc)
qed (simp add: items_0)

lemma complete:
  "value_ok v \<Longrightarrow> tail_ok rest \<Longrightarrow> len_ok len \<Longrightarrow> length (encode v) \<le> len \<Longrightarrow>
   parse (encode v @ rest) len = Inr (finished (length (encode v)) v)"
proof (induction v arbitrary: rest len)
  case (RESP_SIMPLE_STRING s)
  then show ?case using simple [of s rest len] by (simp add: eval_nat_numeral)
next
  case (RESP_ERROR s)
  then show ?case using error [of s rest len] by (simp add: eval_nat_numeral)
next
  case (RESP_INTEGER x)
  then show ?case using integer [of x len rest] by (simp add: eval_nat_numeral)
next
  case (RESP_BULK_STRING s)
  then show ?case using bulk [of s rest len] by (simp add: eval_nat_numeral)
next
  case (RESP_ARRAY vs)
  let ?rest = "concat (map encode vs) @ rest" and ?b = "dec_nat (length vs)"
  have "items (length vs) ?rest (len - (length ?b + 3)) (length ?b + 3) [] =
    Inr (finished (length ?b + 3 + length (concat (map encode vs))) (RESP_ARRAY (rev [] @ vs)))"
    by (rule items_complete) (use RESP_ARRAY in \<open>auto simp: list_all_iff intro: len_mono\<close>)
  with array [of "length vs" len ?rest] RESP_ARRAY.prems show ?case by (simp add: eval_nat_numeral)
next
  case RESP_NIL
  then show ?case using nil [of len rest] by (simp add: eval_nat_numeral)
qed

lemma items_prefix:
  assumes "\<And>v rest len. v \<in> set vs \<Longrightarrow> tail_ok rest \<Longrightarrow> len_ok len \<Longrightarrow> length (encode v) \<le> len \<Longrightarrow>
      parse (encode v @ rest) len = Inr (finished (length (encode v)) v)"
    and "\<And>v k. v \<in> set vs \<Longrightarrow> len_ok k \<Longrightarrow> k < length (encode v) \<Longrightarrow> parse (take k (encode v) @ junk) k = Inr more"
    and "tail_ok junk" "len_ok k" "k < length (concat (map encode vs))"
  shows "items (length vs) (take k (concat (map encode vs)) @ junk) k used done = Inr more"
  using assms
proof (induction vs arbitrary: k used "done")
  case (Cons v vs)
  show ?case
  proof (cases "k < length (encode v)")
    case True
    with Cons.prems(2) [of v k] Cons.prems(4) show ?thesis by (simp add: items_more)
  next
    case False
    let ?rest = "take (k - length (encode v)) (concat (map encode vs)) @ junk"
    have "parse (encode v @ ?rest) k = Inr (finished (length (encode v)) v)"
      by (rule Cons.prems(1)) (use Cons.prems False in \<open>auto intro: tail_append\<close>)
    moreover have "items (length vs) ?rest (k - length (encode v)) (used + length (encode v)) (v # done) = Inr more"
      by (rule Cons.IH) (use Cons.prems False in \<open>auto intro: len_mono\<close>)
    ultimately show ?thesis using False by (simp add: items_Suc)
  qed
qed simp

lemma prefix:
  "value_ok v \<Longrightarrow> tail_ok junk \<Longrightarrow> len_ok k \<Longrightarrow> k < length (encode v) \<Longrightarrow>
   parse (take k (encode v) @ junk) k = Inr more"
proof (induction v arbitrary: k)
  case (RESP_SIMPLE_STRING s)
  then show ?case using short_line [of "CHR ''+''" s k "[]" junk] by (simp add: line_ok_def)
next
  case (RESP_ERROR s)
  then show ?case using short_line [of "CHR ''-''" s k "[]" junk] by (simp add: line_ok_def)
next
  case (RESP_INTEGER n)
  then show ?case using short_line [of "CHR '':''" "dec_int n" k "[]" junk] by (simp add: dec_no_CR)
next
  case (RESP_BULK_STRING s)
  let ?b = "dec_nat (length s)"
  show ?case
  proof (cases "k < length ?b + 3")
    case True
    with short_line [of "CHR ''$''" ?b k "s @ CRLF" junk] show ?thesis by (simp add: dec_no_CR)
  next
    case False
    have "take k (encode (RESP_BULK_STRING s)) @ junk = CHR ''$'' # ?b @ CRLF @ take (k - (length ?b + 3)) (s @ CRLF) @ junk"
      using False by (simp add: take_Cons' eval_nat_numeral)
    with bulk_more [of "length s" k] False RESP_BULK_STRING.prems show ?thesis by simp
  qed
next
  case (RESP_ARRAY vs)
  let ?b = "dec_nat (length vs)" and ?body = "concat (map encode vs)"
  show ?case
  proof (cases "k < length ?b + 3")
    case True
    with short_line [of "CHR ''*''" ?b k ?body junk] show ?thesis by (simp add: dec_no_CR)
  next
    case False
    let ?k = "k - (length ?b + 3)"
    have eq: "take k (encode (RESP_ARRAY vs)) @ junk = CHR ''*'' # ?b @ CRLF @ take ?k ?body @ junk"
      using False by (simp add: take_Cons' eval_nat_numeral)
    have "items (length vs) (take ?k ?body @ junk) ?k (length ?b + 3) [] = Inr more"
    proof (rule items_prefix)
      show "parse (encode v @ rest) len = Inr (finished (length (encode v)) v)"
        if "v \<in> set vs" "tail_ok rest" "len_ok len" "length (encode v) \<le> len" for v rest len
        by (rule complete) (use that RESP_ARRAY.prems in \<open>auto simp: list_all_iff\<close>)
    qed (use RESP_ARRAY False in \<open>auto simp: list_all_iff intro: len_mono\<close>)
    with array [of "length vs" k] False RESP_ARRAY.prems show ?thesis unfolding eq by simp
  qed
next
  case RESP_NIL
  then show ?case using short_line [of "CHR ''$''" "''-1''" k "[]" junk] by simp
qed

end

end
