(* ===== verification/Resp_Props.thy ===== *)
theory Resp_Props
  imports Resp_Wire
begin

text \<open>
  The parser of the server: it is a parser of the wire format, so that values come back and incomplete
  input is recognised; the bounds of what it consumes, and where it reads behind the input.
\<close>

section \<open>The parser of the wire format\<close>

lemma parse_line:
  assumes "CR \<notin> set (c # b)" "length b + 3 \<le> len"
  shows "resp_parse_value (c # b @ CRLF @ r) len =
     (if c = CHR ''+'' then
        bindR (mem_strndup (b @ CRLF @ r) (length b)) (\<lambda>s. Inr (Parsed (length b + 3) (RESP_SIMPLE_STRING s)))
      else if c = CHR ''-'' then
        bindR (mem_strndup (b @ CRLF @ r) (length b)) (\<lambda>s. Inr (Parsed (length b + 3) (RESP_ERROR s)))
      else if c = CHR '':'' then
        bindR (mem_strtoll (b @ CRLF @ r)) (\<lambda>n. Inr (Parsed (length b + 3) (RESP_INTEGER n)))
      else if c = CHR ''$'' then
        bindR (mem_atoi (b @ CRLF @ r)) (\<lambda>bulk_len.
        if bulk_len = -1 then Inr (Parsed (length b + 3) RESP_NIL)
        else if bulk_len < 0 then Inr ParseError
        else if length b + 3 + nat bulk_len + 2 > len then Inr Incomplete
        else bindR (mem_strndup r (nat bulk_len)) (\<lambda>s.
             Inr (Parsed (length b + 3 + nat bulk_len + 2) (RESP_BULK_STRING s))))
      else if c = CHR ''*'' then
        bindR (mem_atoi (b @ CRLF @ r)) (\<lambda>arr_count.
        if arr_count = -1 then Inr (Parsed (length b + 3) RESP_NIL)
        else if arr_count < 0 then Inr ParseError
        else resp_parse_items (nat arr_count) r (len - (length b + 3)) (length b + 3) [])
      else Inr ParseError)"
proof -
  have "find_crlf (take len (c # b @ CRLF @ r)) = Some (Suc (length b))"
    using find_crlf_take(1) [OF assms(1), of len r] assms(2) by simp
  moreover have "length b + 3 = Suc (length b) + 2" "len \<noteq> 0" using assms(2) by auto
  moreover have "drop (Suc (length b) + 2) (c # b @ CRLF @ r) = r" by simp
  ultimately show ?thesis
    by (subst resp_parse_value.simps) (simp add: Let_def eval_nat_numeral cong: if_cong)
qed

lemma parse_short_line:
  assumes "CR \<notin> set (c # b)" "len < length b + 3"
  shows "resp_parse_value (take len (c # b @ CRLF @ r) @ junk) len = Inr Incomplete"
proof -
  define m where "m = take len (c # b @ CRLF @ r)"
  have "length m = len" using assms(2) by (simp add: m_def)
  then have "take len (m @ junk) = m" by simp
  moreover have "find_crlf m = None"
    using find_crlf_take(2) [OF assms(1), of len r] assms(2) by (simp add: m_def)
  ultimately show ?thesis unfolding m_def [symmetric] by (simp add: resp_parse_value.simps [of _ len])
qed

lemma strndup_line:
  "line_ok s \<Longrightarrow> NUL \<in> set r \<Longrightarrow> mem_strndup (s @ CRLF @ r) (length s) = Inr s"
  "cstr_ok s \<Longrightarrow> NUL \<in> set r \<Longrightarrow> mem_strndup (s @ r) (length s) = Inr s"
  by (auto simp: mem_strndup_def line_ok_def cstr_ok_def imdb_strndup_exact)

interpretation server_parser: resp_parser resp_parse_value resp_parse_items Parsed Incomplete "\<lambda>r. NUL \<in> set r" "\<lambda>len. True"
proof (unfold_locales, goal_cases)
  case (1 c b len r junk)
  then show ?case by (rule parse_short_line)
next
  case (2 s r len)
  then show ?case using strndup_line(1) [of s r] by (subst parse_line) (simp_all add: line_ok_def)
next
  case (3 s r len)
  then show ?case using strndup_line(1) [of s r] by (subst parse_line) (simp_all add: line_ok_def)
next
  case (4 n len r)
  then show ?case using number_line(2) [of n r] by (subst parse_line) (simp_all add: dec_no_CR)
next
  case (5 len r)
  then show ?case using parse_line [of "CHR ''$''" "''-1''" len r] mem_atoi_dec(2) [of r] by simp
next
  case (6 s r len)
  then show ?case using mem_atoi_dec(1) [of "length s" "s @ CRLF @ r"] strndup_line(2) [of s "CRLF @ r"]
    by (subst parse_line) (simp_all add: dec_no_CR)
next
  case (7 n len r)
  then show ?case using mem_atoi_dec(1) [of n r] by (subst parse_line) (simp_all add: dec_no_CR)
next
  case (8 n len r)
  then show ?case using mem_atoi_dec(1) [of n r] by (subst parse_line) (simp_all add: dec_no_CR)
qed auto

lemma parse_complete:
  "value_ok v \<Longrightarrow> NUL \<in> set rest \<Longrightarrow> length (encode v) \<le> len \<Longrightarrow>
   resp_parse_value (encode v @ rest) len = Inr (Parsed (length (encode v)) v)"
  by (rule server_parser.complete) simp_all

lemma parse_prefix:
  "value_ok v \<Longrightarrow> NUL \<in> set junk \<Longrightarrow> k < length (encode v) \<Longrightarrow>
   resp_parse_value (take k (encode v) @ junk) k = Inr Incomplete"
  by (rule server_parser.prefix) simp_all

section \<open>Bounds and totality\<close>

lemma find_crlf_bound: "find_crlf s = Some i \<Longrightarrow> i + 2 \<le> length s"
  by (induction s arbitrary: i rule: find_crlf.induct) (auto split: if_splits)

lemma parse_no_line: "find_crlf (take len mem) = None \<Longrightarrow> resp_parse_value mem len = Inr Incomplete"
  by (subst resp_parse_value.simps) simp

lemma parse_bounds:
  "resp_parse_value mem len = Inr (Parsed n v) \<Longrightarrow> 2 \<le> n \<and> n \<le> len"
  "resp_parse_items k mem len used items = Inr (Parsed n v) \<Longrightarrow> used \<le> n \<and> n \<le> used + len"
proof (induction mem len and k mem len used items arbitrary: n v and n v
    rule: resp_parse_value_resp_parse_items.induct)
  case (1 mem len)
  from "1.prems" parse_no_line [of len mem] obtain i where i: "find_crlf (take len mem) = Some i"
    by (cases "find_crlf (take len mem)") auto
  have bound: "i + 2 \<le> len" using find_crlf_bound [OF i] by simp
  then have len: "len \<noteq> 0" by simp
  have array: "\<lbrakk>mem ! 0 = CHR ''*''; mem_atoi (drop 1 mem) = Inr c; c \<noteq> -1; \<not> c < 0;
      resp_parse_items (nat c) (drop (i + 2) mem) (len - (i + 2)) (i + 2) [] = Inr (Parsed n v)\<rbrakk> \<Longrightarrow>
      i + 2 \<le> n \<and> n \<le> i + 2 + (len - (i + 2))" for c
    using "1.IH" [OF len i refl refl] by simp
  show ?case
    using "1.prems" i bound array
    by (fastforce simp: resp_parse_value.simps [of mem len] Let_def split: if_splits)
next
  case (3 k mem len used items)
  from "3.prems" obtain m w where m: "resp_parse_value mem len = Inr (Parsed m w)"
      "resp_parse_items k (drop m mem) (len - m) (used + m) (w # items) = Inr (Parsed n v)"
    by (auto split: resp_outcome.splits)
  from "3.IH"(1) [OF m(1)] "3.IH"(2) [OF m(1) refl m(2)] show ?case by auto
qed simp

lemma NUL_dropWhile: "NUL \<in> set s \<Longrightarrow> \<not> P NUL \<Longrightarrow> NUL \<in> set (dropWhile P s)"
  by (induction s) auto

lemma NUL_split_sign: "NUL \<in> set s \<Longrightarrow> NUL \<in> set (snd (split_sign s))"
  by (cases s) (auto simp: split_sign_def NUL_def)

lemma number_ends_NUL:
  assumes "NUL \<in> set s"
  shows "number_ends s"
proof -
  have "NUL \<in> set (dropWhile c_isspace s)"
    by (rule NUL_dropWhile [OF assms]) (simp add: NUL_def c_isspace_def)
  then have "NUL \<in> set (snd (split_sign (dropWhile c_isspace s)))" by (rule NUL_split_sign)
  then have "NUL \<in> set (dropWhile c_isdigit (snd (split_sign (dropWhile c_isspace s))))"
    by (rule NUL_dropWhile) (simp add: NUL_def c_isdigit_def)
  then show ?thesis unfolding number_ends_def by (metis empty_iff empty_set)
qed

lemma mem_reads:
  assumes "NUL \<in> set s"
  shows "mem_atoi s = Inr (atoi s)" "mem_strtoll s = Inr (strtoll_val s)" "mem_strndup s n = Inr (imdb_strndup s n)"
  using assms number_ends_NUL [OF assms] by (simp_all add: mem_atoi_def mem_strtoll_def mem_strndup_def)

lemma parse_total:
  "NUL \<in> set (drop len mem) \<Longrightarrow> \<exists>r. resp_parse_value mem len = Inr r"
  "NUL \<in> set (drop len mem) \<Longrightarrow> \<exists>r. resp_parse_items k mem len used items = Inr r"
proof (induction mem len and k mem len used items rule: resp_parse_value_resp_parse_items.induct)
  case (1 mem len)
  show ?case
  proof (cases "len = 0 \<or> find_crlf (take len mem) = None")
    case True
    then show ?thesis by (auto simp: resp_parse_value.simps [of mem len])
  next
    case False
    then obtain i where i: "len \<noteq> 0" "find_crlf (take len mem) = Some i" by auto
    have bound: "i + 2 \<le> len" using find_crlf_bound [OF i(2)] by simp
    have nul: "NUL \<in> set (drop j mem)" if "j \<le> len" for j
      using "1.prems" set_drop_subset_set_drop [OF that, of mem] by blast
    have d1: "NUL \<in> set (drop 1 mem)" using nul [of 1] i(1) by simp
    have d2: "NUL \<in> set (drop (i + 2) mem)" using nul [OF bound] .
    have "len - (i + 2) + (i + 2) = len" using bound by simp
    then have rest: "NUL \<in> set (drop (len - (i + 2)) (drop (i + 2) mem))"
      using "1.prems" by (simp only: drop_drop)
    have array: "\<exists>r. resp_parse_items (nat c) (drop (i + 2) mem) (len - (i + 2)) (i + 2) [] = Inr r"
      if "mem ! 0 = CHR ''*''" "mem_atoi (drop 1 mem) = Inr c" "c \<noteq> -1" "\<not> c < 0" for c
      using "1.IH" [OF i refl refl _ _ _ _ _ that(2)] that rest by simp
    note reads = mem_reads [OF d1] mem_reads [OF d2]
    show ?thesis
      using array [of "atoi (drop 1 mem)"] reads i
      by (simp add: resp_parse_value.simps [of mem len] Let_def)
  qed
next
  case (3 k mem len used items)
  from "3.IH"(1) [OF "3.prems"] obtain r where r: "resp_parse_value mem len = Inr r" by blast
  show ?case
  proof (cases r)
    case (Parsed n v)
    then have "NUL \<in> set (drop (len - n) (drop n mem))"
      using parse_bounds(1) [of mem len n v] r "3.prems" by simp
    with "3.IH"(2) [OF r Parsed] r Parsed show ?thesis by simp
  qed (simp_all add: r)
qed simp

text \<open>The only fault is a read behind the array.\<close>

lemma parse_fault:
  "resp_parse_value mem len = Inl e \<Longrightarrow> e = OutOfBounds"
  "resp_parse_items k mem len used items = Inl e \<Longrightarrow> e = OutOfBounds"
proof (induction mem len and k mem len used items rule: resp_parse_value_resp_parse_items.induct)
  case (1 mem len)
  from "1.prems" parse_no_line [of len mem] obtain i where i: "find_crlf (take len mem) = Some i"
    by (cases "find_crlf (take len mem)") auto
  have len: "len \<noteq> 0" using find_crlf_bound [OF i] by auto
  have array: "\<lbrakk>mem ! 0 = CHR ''*''; mem_atoi (drop 1 mem) = Inr c; c \<noteq> -1; \<not> c < 0;
      resp_parse_items (nat c) (drop (i + 2) mem) (len - (i + 2)) (i + 2) [] = Inl e\<rbrakk> \<Longrightarrow> e = OutOfBounds" for c
    using "1.IH" [OF len i refl refl] by simp
  show ?case
    using "1.prems" i array
    by (fastforce simp: resp_parse_value.simps [of mem len] Let_def mem_strndup_def mem_strtoll_def mem_atoi_def split: if_splits)
next
  case (3 k mem len used items)
  show ?case
  proof (cases "resp_parse_value mem len")
    case (Inl e')
    with "3.IH"(1) "3.prems" show ?thesis by simp
  next
    case (Inr r)
    with "3.prems" obtain m w where m: "resp_parse_value mem len = Inr (Parsed m w)"
        "resp_parse_items k (drop m mem) (len - m) (used + m) (w # items) = Inl e"
      by (auto split: resp_outcome.splits)
    from "3.IH"(2) [OF m(1) refl m(2)] show ?thesis .
  qed
qed simp

section \<open>Properties\<close>



text \<open>A message of which only a part has arrived is incomplete, wherever it is cut: the parser never
  reports an error or a shorter value for it, whatever stale bytes lie behind.\<close>

theorem resp_parse_prefix_incomplete:
  assumes "value_ok v" "NUL \<in> set junk" "k < length (encode v)"
  shows "resp_parse (take k (encode v) @ junk) k = Inr Incomplete"
  using parse_prefix [OF assms] by (simp add: resp_parse_def)

theorem resp_parse_prefix_incomplete_witness:
  "resp_parse (take 9 (encode (RESP_ARRAY [RESP_BULK_STRING ''GET''])) @ [NUL]) 9 = Inr Incomplete"
  by (rule resp_parse_prefix_incomplete)
    (simp_all add: cstr_ok_def NUL_def INT32_MAX_def dec_nat.simps)

text \<open>C27: for any bytes and any length the parser returns. Either it answers, and then a value that it reports was made of at
  least two and at most \<open>len\<close> bytes; or it reads behind the array, which happens only when no NUL follows the input in it.\<close>

theorem resp_parse_total_bounded:
  "case resp_parse mem len of
     Inl e \<Rightarrow> e = OutOfBounds \<and> NUL \<notin> set (drop len mem)
   | Inr (Parsed n v) \<Rightarrow> 2 \<le> n \<and> n \<le> len
   | Inr Incomplete \<Rightarrow> True
   | Inr ParseError \<Rightarrow> 0 < len"
proof (cases "resp_parse mem len")
  case (Inl e)
  with parse_fault(1) [of mem len e] parse_total(1) [of len mem] show ?thesis by (auto simp: resp_parse_def)
next
  case (Inr r)
  have "0 < len" if "r = ParseError" using Inr that by (cases "len = 0") (simp_all add: resp_parse_def resp_parse_value.simps)
  with Inr parse_bounds(1) [of mem len] show ?thesis by (auto simp: resp_parse_def split: resp_outcome.split)
qed

text \<open>Both happen: \<open>strlen\<close> runs over the end of the array when no NUL follows the line of a simple string.\<close>

theorem resp_parse_needs_NUL:
  "resp_parse (''+'' @ CRLF) 3 = Inl OutOfBounds" "resp_parse (''+'' @ CRLF @ [NUL]) 3 = Inr (Parsed 3 (RESP_SIMPLE_STRING []))"
  by (simp_all add: resp_parse_def resp_parse_value.simps mem_strndup_def imdb_strndup_def CR_def LF_def NUL_def Let_def)

text \<open>The types of the C code: \<open>int64_t\<close>, \<open>int\<close> lengths, NUL-terminated strings; and how much there is of a value.\<close>

fun well_typed :: "resp_value \<Rightarrow> bool" where
  "well_typed (RESP_SIMPLE_STRING s) = cstr_ok s"
| "well_typed (RESP_ERROR s) = cstr_ok s"
| "well_typed (RESP_INTEGER n) = in_int64 n"
| "well_typed (RESP_BULK_STRING s) = (cstr_ok s \<and> int (length s) \<le> INT32_MAX)"
| "well_typed (RESP_ARRAY vs) = (int (length vs) \<le> INT32_MAX \<and> list_all well_typed vs)"
| "well_typed RESP_NIL = True"

fun weight :: "resp_value \<Rightarrow> nat" where
  "weight (RESP_SIMPLE_STRING s) = 1 + length s"
| "weight (RESP_ERROR s) = 1 + length s"
| "weight (RESP_INTEGER n) = 1"
| "weight (RESP_BULK_STRING s) = 1 + length s"
| "weight (RESP_ARRAY vs) = 1 + sum_list (map weight vs)"
| "weight RESP_NIL = 1"

lemma strndup_typed: "mem_strndup mem n = Inr s \<Longrightarrow> cstr_ok s \<and> length s \<le> n"
  by (auto simp: mem_strndup_def imdb_strndup_def cstr_ok_def dest: set_takeWhileD split: if_splits)
     (metis length_take length_takeWhile_le min.coboundedI2 le_trans min.cobounded2)

lemma number_typed: "mem_strtoll mem = Inr k \<Longrightarrow> in_int64 k" "mem_atoi mem = Inr k \<Longrightarrow> k \<le> INT32_MAX"
  using strtoll_range [of mem] to_int32_range [of "strtoll_val mem"]
  by (auto simp: mem_strtoll_def mem_atoi_def atoi_def split: if_splits)

lemma parse_typed:
  "resp_parse_value mem len = Inr (Parsed n v) \<Longrightarrow> well_typed v \<and> weight v \<le> n"
  "resp_parse_items k mem len used items = Inr (Parsed n v) \<Longrightarrow> list_all well_typed items \<Longrightarrow>
     int (length items + k) \<le> INT32_MAX \<Longrightarrow> 1 + sum_list (map weight items) \<le> used \<Longrightarrow> well_typed v \<and> weight v \<le> n"
proof (induction mem len and k mem len used items arbitrary: n v and n v rule: resp_parse_value_resp_parse_items.induct)
  case (1 mem len)
  from "1.prems" parse_no_line [of len mem] obtain i where i: "find_crlf (take len mem) = Some i"
    by (cases "find_crlf (take len mem)") auto
  have len: "len \<noteq> 0" using find_crlf_bound [OF i] by auto
  have array: "\<lbrakk>mem ! 0 = CHR ''*''; mem_atoi (drop 1 mem) = Inr c; c \<noteq> -1; \<not> c < 0;
      resp_parse_items (nat c) (drop (i + 2) mem) (len - (i + 2)) (i + 2) [] = Inr (Parsed n v)\<rbrakk> \<Longrightarrow> well_typed v \<and> weight v \<le> n" for c
    using "1.IH" [OF len i refl refl] number_typed(2) by simp
  show ?case
    using "1.prems" i array
    by (fastforce simp: resp_parse_value.simps [of mem len] Let_def split: if_splits dest: strndup_typed number_typed)
next
  case (2 mem len used items)
  then show ?case by (auto simp: list_all_iff rev_map [symmetric])
next
  case (3 k mem len used items)
  from "3.prems"(1) obtain m w where m: "resp_parse_value mem len = Inr (Parsed m w)"
      "resp_parse_items k (drop m mem) (len - m) (used + m) (w # items) = Inr (Parsed n v)"
    by (auto split: resp_outcome.splits)
  from "3.IH"(1) [OF m(1)] "3.IH"(2) [OF m(1) refl m(2)] "3.prems"(2-4) show ?case by simp
qed

text \<open>C28: a value that the parser answers, from any bytes, has the types that the handlers rely on: integers of 64 bits,
  strings without NUL, lengths that are an \<open>int\<close>; and it is no larger than the bytes it was made of, its strings and
  its parts counted together.\<close>

theorem resp_parse_typed:
  assumes "resp_parse mem len = Inr (Parsed n v)"
  shows "well_typed v \<and> weight v \<le> n \<and> n \<le> len"
  using parse_typed(1) parse_bounds(1) assms by (auto simp: resp_parse_def)

theorem resp_parse_typed_witness:
  "resp_parse (encode (RESP_ARRAY [RESP_BULK_STRING ''GET'', RESP_INTEGER 7]) @ [NUL]) 17 =
      Inr (Parsed 17 (RESP_ARRAY [RESP_BULK_STRING ''GET'', RESP_INTEGER 7])) \<and>
    weight (RESP_ARRAY [RESP_BULK_STRING ''GET'', RESP_INTEGER 7]) \<le> 17"
proof -
  let ?v = "RESP_ARRAY [RESP_BULK_STRING ''GET'', RESP_INTEGER 7]"
  have v: "value_ok ?v" "length (encode ?v) = 17"
    by (simp_all add: cstr_ok_def NUL_def INT32_MAX_def in_int64_def INT64_MIN_def INT64_MAX_def dec_nat.simps dec_int_def)
  have "resp_parse (encode ?v @ [NUL]) 17 = Inr (Parsed 17 ?v)"
    using parse_complete [OF v(1), of "[NUL]" 17] v(2) by (simp add: resp_parse_def)
  with resp_parse_typed [OF this] show ?thesis by blast
qed

text \<open>A length line without digits takes its number from what follows: \<open>atoi\<close> skips the CRLF as white
  space. The three bytes "$\r\n" are a complete nil value or an incomplete string, depending on the bytes
  left in the buffer behind the input by an earlier command.\<close>

theorem resp_parse_reads_stale_bytes:
  "resp_parse (''$'' @ CRLF @ ''-1'' @ [NUL]) 3 = Inr (Parsed 3 RESP_NIL) \<and>
   resp_parse (''$'' @ CRLF @ ''50'' @ [NUL]) 3 = Inr Incomplete"
  by (simp add: resp_parse_def resp_parse_value.simps mem_atoi_def number_ends_def atoi_def strtoll_val_def
      strtoll_def split_sign_def c_isspace_def c_isdigit_def digits_val_def digit_val_def CR_def LF_def NUL_def
      to_int32_def INT64_MIN_def INT64_MAX_def Let_def)

text \<open>The parser does not look at the two bytes after a bulk string: a payload longer than its length
  is accepted, and the two excess bytes are dropped in place of the CRLF.\<close>

theorem resp_parse_bulk_terminator_unchecked:
  "resp_parse (''$1'' @ CRLF @ ''abc'' @ [NUL]) 7 = Inr (Parsed 7 (RESP_BULK_STRING ''a''))"
  by (simp add: resp_parse_def resp_parse_value.simps mem_atoi_def number_ends_def atoi_def strtoll_val_def
      strtoll_def split_sign_def c_isspace_def c_isdigit_def digits_val_def digit_val_def CR_def LF_def NUL_def
      to_int32_def INT64_MIN_def INT64_MAX_def Let_def mem_strndup_def imdb_strndup_def)

text \<open>C34: a one-line reply (status or error) is written as it is up to 124 characters; with 125 its final
  LF is replaced by a NUL byte, and from 126 on the writer reads beyond its 128-byte formatting buffer.\<close>

theorem resp_write_error_bounds:
  assumes "rb_ok rb"
  shows "if length s \<le> 124 then appends rb (''-'' @ s @ CRLF) (resp_write_error rb s)
    else if length s = 125 then appends rb (''-'' @ s @ [CR, NUL]) (resp_write_error rb s)
    else resp_write_error rb s = Inl OutOfBounds"
proof (cases "length s = 125")
  case True
  then have "resp_write_error rb s = resp_buf_append rb (''-'' @ s @ [CR, NUL])"
    by (simp add: resp_write_error_def resp_buf_appendf_def Let_def)
  with assms True show ?thesis by auto
next
  case False
  then show ?thesis using writers_append(2) [OF assms, of s]
    by (simp add: resp_write_error_def resp_buf_appendf_def Let_def)
qed

theorem resp_write_error_bounds_witness:
  "resp_write_error resp_buf_init (replicate 200 (CHR ''x'')) = Inl OutOfBounds"
  using resp_write_error_bounds [of resp_buf_init "replicate 200 (CHR ''x'')"] by simp

end
