(* ===== verification/Database_Map.thy ===== *)
theory Database_Map
  imports Database_Inv
begin

text \<open>
  The database as a map from keys to entries. \<open>db_view\<close> is the map the table stores,
  \<open>db_visible now\<close> the part of it that has not expired, which is what the operations answer
  from. The lemmas state each operation of \<open>db.c\<close> on these maps, for a table whose probe paths are
  not cut (\<open>good\<close>, theory \<open>HashTable_Map\<close>).
\<close>

section \<open>What the database stores and what it shows\<close>

definition db_view :: "database \<Rightarrow> string \<Rightarrow> db_entry option" where
  "db_view db = ht_map (db_ht db)"

text \<open>An entry is live at time \<open>now\<close> unless its non-negative expiry time has passed.\<close>

definition live :: "int \<Rightarrow> db_entry \<Rightarrow> bool" where
  "live now e \<longleftrightarrow> expire e < 0 \<or> now \<le> expire e"

definition db_visible :: "int \<Rightarrow> database \<Rightarrow> string \<Rightarrow> db_entry option" where
  "db_visible now db key =
     (case db_view db key of None \<Rightarrow> None | Some e \<Rightarrow> if live now e then Some e else None)"

text \<open>The time the next reading of the clock shows.\<close>

definition db_now :: "clock \<Rightarrow> database \<Rightarrow> int" where
  "db_now clk db = clk (db_ticks db)"

lemma db_view_ticks [simp]: "db_view (db\<lparr>db_ticks := n\<rparr>) = db_view db" "db_view (db\<lparr>last_expire_sweep := t\<rparr>) = db_view db"
  by (simp_all add: db_view_def)

lemma live_no_expiry [simp]: "expire e < 0 \<Longrightarrow> live now e"
  by (simp add: live_def)

section \<open>Entries and time\<close>

lemma write_entry_fields [simp]:
  "db_ticks (write_entry db idx e) = db_ticks db"
  "last_expire_sweep (write_entry db idx e) = last_expire_sweep db"
  by (simp_all add: write_entry_def)

text \<open>
  The check is safe for a key if it deletes nothing, or deletes without cutting a probe path. The
  operations that store a new entry need a clean probe path, and no expired entry in the way.
\<close>

definition no_expired :: "int \<Rightarrow> database \<Rightarrow> string \<Rightarrow> bool" where
  "no_expired now db key \<longleftrightarrow> db_visible now db key = db_view db key"

definition check_safe :: "(db_entry hashtable \<Rightarrow> string \<Rightarrow> bool) \<Rightarrow> int \<Rightarrow> database \<Rightarrow> string \<Rightarrow> bool" where
  "check_safe del_safe now db key \<longleftrightarrow> no_expired now db key \<or> del_safe (db_ht db) key"

text \<open>The map after the expiry check: an expired entry of the key is gone.\<close>

definition db_checked :: "int \<Rightarrow> database \<Rightarrow> string \<Rightarrow> string \<Rightarrow> db_entry option" where
  "db_checked now db key = (db_view db)(key := db_visible now db key)"

lemma db_checked_same: "db_visible now db key = db_view db key \<Longrightarrow> db_checked now db key = db_view db"
  by (simp add: db_checked_def fun_upd_idem)

lemma visible_safe: "db_visible (db_now clk db) db key = Some e \<Longrightarrow> check_safe del_safe (db_now clk db) db key"
  by (auto simp: check_safe_def no_expired_def db_visible_def split: option.splits if_splits)

lemma visible_checked: "db_visible now db key = Some e \<Longrightarrow> db_checked now db key = db_view db"
  by (auto simp: db_checked_def db_visible_def fun_upd_idem split: option.splits if_splits)

section \<open>The operations on maps\<close>

text \<open>
  What the operations rely on: the hash table is a key-value table with pointers, for some invariant and
  some conditions under which insertion and deletion keep it.
\<close>

locale db_table = kv_table_ptr inv ht_map ht_get ht_set ht_delete put_safe del_safe ht_find entry_value set_entry_value
  for inv :: "db_entry hashtable \<Rightarrow> bool"
    and put_safe :: "db_entry hashtable \<Rightarrow> string \<Rightarrow> bool"
    and del_safe :: "db_entry hashtable \<Rightarrow> string \<Rightarrow> bool"
begin

lemma put_view:
  assumes "inv (db_ht db)" "put_safe (db_ht db) key"
  obtains db' where "ht_put db key e = Inr db'" "inv (db_ht db')" "db_view db' = (db_view db)(key \<mapsto> e)"
    "db_ticks db' = db_ticks db" "last_expire_sweep db' = last_expire_sweep db"
  using put_lookup [OF assms, of e] by (auto simp: ht_put_def db_view_def)

lemma remove_view:
  assumes "inv (db_ht db)" "del_safe (db_ht db) key"
  obtains db' where "ht_remove db key = Inr (db', if db_view db key = None then 0 else 1)" "inv (db_ht db')"
    "db_view db' = (db_view db)(key := None)" "db_ticks db' = db_ticks db"
  using del_lookup [OF assms] by (auto simp: ht_remove_def db_view_def)

lemma ptr_view:
  assumes "inv (db_ht db)"
  obtains
    (absent) "entry_ptr db key = Inr None" "db_view db key = None"
  | (found) idx e where "entry_ptr db key = Inr (Some idx)" "entry_at db idx = Inr e" "db_view db key = Some e"
      "ht_find (db_ht db) key = Some (Some idx)"
  using find_lookup [OF assms, of key]
  by (auto simp: entry_ptr_def entry_at_def db_view_def)

lemma write_view:
  assumes "inv (db_ht db)" "ht_find (db_ht db) key = Some (Some idx)"
  shows "inv (db_ht (write_entry db idx e))" "db_view (write_entry db idx e) = (db_view db)(key \<mapsto> e)"
  using poke_lookup [OF assms, of e] by (simp_all add: write_entry_def db_view_def)

lemma check_expired_view:
  assumes g: "inv (db_ht db)" and d: "check_safe del_safe (db_now clk db) db key"
  obtains
    (kept) db1 where "check_expired clk db key = Inr (db1, False)" "db_ht db1 = db_ht db"
      "db_view db key = db_visible (db_now clk db) db key" "db_ticks db1 \<le> Suc (db_ticks db)"
      "db_ticks db \<le> db_ticks db1"
  | (expired) db1 where "check_expired clk db key = Inr (db1, True)" "inv (db_ht db1)"
      "db_view db1 = (db_view db)(key := None)" "db_visible (db_now clk db) db key = None"
      "db_view db key \<noteq> None" "db_ticks db1 = Suc (db_ticks db)"
proof -
  show ?thesis
  proof (cases rule: ptr_view [OF g, of key])
    case absent: 1
    then have "check_expired clk db key = Inr (db, False)"
      by (simp add: check_expired_def ht_get_entry_def entry_ptr_def)
    then show ?thesis by (rule kept) (simp_all add: absent db_visible_def)
  next
    case found: (2 idx e)
    let ?db1 = "db\<lparr>db_ticks := Suc (db_ticks db)\<rparr>"
    note run = check_expired_def ht_get_entry_def found imdb_mstime_def
    consider "expire e < 0" | "expire e \<ge> 0" "\<not> live (db_now clk db) e" | "expire e \<ge> 0" "live (db_now clk db) e"
      by linarith
    then show ?thesis
    proof cases
      case 1
      then have "check_expired clk db key = Inr (db, False)" by (simp add: run)
      then show ?thesis by (rule kept) (simp_all add: found db_visible_def 1)
    next
      case 2
      have "del_safe (db_ht db) key"
        using d 2 by (simp add: check_safe_def no_expired_def db_visible_def found)
      with remove_view [of ?db1 key] g obtain db2 where
        db2: "ht_remove ?db1 key = Inr (db2, if db_view ?db1 key = None then 0 else 1)" "inv (db_ht db2)"
        "db_view db2 = (db_view ?db1)(key := None)" "db_ticks db2 = db_ticks ?db1" by auto
      have "check_expired clk db key = Inr (db2, True)"
        using 2 db2(1) by (simp add: run live_def db_now_def)
      then show ?thesis by (rule expired) (use db2 2 in \<open>simp_all add: db_visible_def found\<close>)
    next
      case 3
      then have "check_expired clk db key = Inr (?db1, False)" by (simp add: run live_def db_now_def)
      then show ?thesis by (rule kept) (simp_all add: found db_visible_def 3)
    qed
  qed
qed

text \<open>Every operation starts with the expiry check and the lookup of its key.\<close>

lemma lookup_cases:
  assumes g: "inv (db_ht db)" and d: "check_safe del_safe (db_now clk db) db key"
  obtains
    (expired) db1 where "check_expired clk db key = Inr (db1, True)" "inv (db_ht db1)"
      "db_view db1 = (db_view db)(key := None)" "db_visible (db_now clk db) db key = None"
      "db_view db key \<noteq> None" "db_ticks db1 = Suc (db_ticks db)"
  | (absent) db1 where "check_expired clk db key = Inr (db1, False)" "entry_ptr db1 key = Inr None"
      "inv (db_ht db1)" "db_ht db1 = db_ht db" "db_view db1 = db_view db"
      "db_visible (db_now clk db) db key = None" "db_view db key = None"
      "db_ticks db1 \<le> Suc (db_ticks db)" "db_ticks db \<le> db_ticks db1"
  | (found) db1 idx e where "check_expired clk db key = Inr (db1, False)" "entry_ptr db1 key = Inr (Some idx)"
      "entry_at db1 idx = Inr e" "inv (db_ht db1)" "db_ht db1 = db_ht db" "db_view db1 = db_view db"
      "db_visible (db_now clk db) db key = Some e" "db_view db key = Some e" "live (db_now clk db) e"
      "ht_find (db_ht db1) key = Some (Some idx)" "db_ticks db1 \<le> Suc (db_ticks db)" "db_ticks db \<le> db_ticks db1"
proof (cases rule: check_expired_view [OF g d])
  case kept: (1 db1)
  then have g1: "inv (db_ht db1)" and v1: "db_view db1 = db_view db" using g by (simp_all add: db_view_def)
  show ?thesis
  proof (cases rule: ptr_view [OF g1, of key])
    case 1
    show ?thesis by (rule absent [OF kept(1) 1(1) g1 kept(2) v1]) (use kept 1 v1 in auto)
  next
    case (2 idx e)
    show ?thesis
      by (rule found [OF kept(1) 2(1,2) g1 kept(2) v1])
        (use kept 2 v1 in \<open>auto simp: db_visible_def split: if_splits\<close>)
  qed
next
  case expired: (2 db1)
  show ?thesis by (rule that(1) [OF expired])
qed

lemma get_entry_view:
  assumes "inv (db_ht db)" "check_safe del_safe (db_now clk db) db key"
  shows "\<exists>db' p. db_get_entry clk db key = Inr (db', p) \<and> inv (db_ht db') \<and>
    db_view db' = db_checked (db_now clk db) db key \<and> db_ticks db \<le> db_ticks db' \<and> db_ticks db' \<le> Suc (db_ticks db) \<and>
    (case db_visible (db_now clk db) db key of None \<Rightarrow> p = None
     | Some e \<Rightarrow> \<exists>idx. p = Some idx \<and> entry_at db' idx = Inr e \<and> ht_find (db_ht db') key = Some (Some idx))"
proof -
  show ?thesis
    by (cases rule: lookup_cases [OF assms]) (auto simp: db_get_entry_def db_checked_def fun_upd_idem)
qed

lemma get_entry_visible:
  assumes "inv (db_ht db)" "db_visible (db_now clk db) db key = Some e"
  obtains db1 idx where "db_get_entry clk db key = Inr (db1, Some idx)" "inv (db_ht db1)"
    "entry_at db1 idx = Inr e" "ht_find (db_ht db1) key = Some (Some idx)" "db_view db1 = db_view db"
    "db_ticks db \<le> db_ticks db1"
  using get_entry_view [OF assms(1) visible_safe [OF assms(2)]] assms(2) visible_checked [OF assms(2)] by auto

lemma db_expire_view:
  assumes g: "inv (db_ht db)" and present: "db_visible (db_now clk db) db key = Some e"
    and range: "in_int64 (secs * 1000)" "\<And>t. in_int64 (clk t + secs * 1000)"
  obtains db1 t where "db_expire clk db (Some key) secs = Inr (db1, 1)" "inv (db_ht db1)"
    "db_view db1 = (db_view db)(key \<mapsto> e\<lparr>expire := clk t + secs * 1000\<rparr>)" "db_ticks db1 = Suc t"
proof -
  obtain db0 idx where db0: "db_get_entry clk db key = Inr (db0, Some idx)" "inv (db_ht db0)"
      "entry_at db0 idx = Inr e" "ht_find (db_ht db0) key = Some (Some idx)" "db_view db0 = db_view db"
    using g present by (rule get_entry_visible)
  let ?at = "clk (db_ticks db0) + secs * 1000"
  let ?db1 = "write_entry (db0\<lparr>db_ticks := Suc (db_ticks db0)\<rparr>) idx (e\<lparr>expire := ?at\<rparr>)"
  have "db_expire clk db (Some key) secs = Inr (?db1, 1)"
    using db0 range by (simp add: db_expire_def imdb_mstime_def int64_def)
  moreover have "inv (db_ht ?db1)" "db_view ?db1 = (db_view db)(key \<mapsto> e\<lparr>expire := ?at\<rparr>)"
    using write_view [of "db0\<lparr>db_ticks := Suc (db_ticks db0)\<rparr>" key idx "e\<lparr>expire := ?at\<rparr>"] db0 by simp_all
  ultimately show thesis by (rule that) simp
qed

end

interpretation dbt: db_table good set_ok del_ok ..

end
