(* ===== verification/HashTable_Props.thy ===== *)
theory HashTable_Props
  imports HashTable_Map
begin

text \<open>
  The properties of the hash table, each with a witness at a concrete table, and the closed theorems
  that exhibit where its probing loses or duplicates entries.
\<close>

section \<open>A concrete table\<close>

definition table_a :: "int hashtable" where
  "table_a = fill_slot (empty_table 64) 44 ''a'' 1"

lemma table_a_set: "ht_set (empty_table 64) ''a'' (1::int) = Some (table_a, 1)"
  by (simp add: ht_eval table_a_def fill_slot_def)

lemma empty_probe: "\<not> load_high (empty_table 64 :: 'v hashtable)" "clean_probe (empty_table 64 :: 'v hashtable) key"
proof -
  show "\<not> load_high (empty_table 64 :: 'v hashtable)" by (simp add: load_high_def empty_table_def)
  show "clean_probe (empty_table 64 :: 'v hashtable) key"
    unfolding clean_probe_def by (rule exI [of _ 0]) (simp add: clean_end_def, simp add: empty_table_def)
qed

lemma empty_set_ok: "set_ok (empty_table 64 :: 'v hashtable) key"
  by (rule set_ok_no_growth [OF good_empty_table [OF table_cap_64] empty_probe])

lemma table_a_good: "good table_a" "ht_map table_a = [''a'' \<mapsto> 1]" "wf_ht table_a"
proof -
  from ht_set_map [OF good_empty_table [OF table_cap_64] empty_set_ok, of "''a''" "1::int"] table_a_set
  show "good table_a" "ht_map table_a = [''a'' \<mapsto> 1]" by (auto simp: ht_map_empty_table)
  then show "wf_ht table_a" by (simp add: good_def)
qed

lemma table_a_capacity: "capacity table_a = 64"
  by (simp add: table_a_def fill_slot_def empty_table_def)

section \<open>Totality and the invariant\<close>

text \<open>C25: on a well-formed table \<open>ht_set\<close> always returns: its probe loop ends although it has no exit
  condition and swaps entries as it goes; the table stays well formed (exact counters, bounded load,
  power-of-two capacity, right hashes) and the size grows by the returned \<open>is_new\<close>.\<close>

theorem ht_set_returns:
  assumes "wf_ht ht"
  shows "\<exists>ht' r. ht_set ht key v = Some (ht', r) \<and> wf_ht ht' \<and> (r = 0 \<or> r = 1) \<and>
           size_of ht' = size_of ht + nat r"
  using ht_set_spec [OF assms, of key v] by (auto simp: inserted_def)

theorem ht_set_returns_witness:
  "\<exists>ht' r. ht_set table_a ''b'' 2 = Some (ht', r) \<and> wf_ht ht' \<and> (r = 0 \<or> r = 1) \<and>
           size_of ht' = size_of table_a + nat r"
  by (rule ht_set_returns [OF table_a_good(3)])

text \<open>C13: what \<open>ht_set\<close> does to the stored bindings of a well-formed table, whatever it swaps, reuses or
  resizes, when no other stored key has the 32-bit hash of the key. The bindings of all other keys stay as
  they are. Either exactly the new binding is added and 1 returned, or the number of bindings stays the
  same, the key was stored before, and 0 is returned. Whenever the lookup finds the key with some value in the
  table that the loop works on (the grown one, if the table has to grow), the lookup finds the new value
  afterwards, and if 0 is returned exactly the binding found has been replaced by the new one. (A stored key that the
  lookup does not find, see \<open>ht_set_swap_loses_key\<close>, is outside the last sentence.)\<close>

theorem ht_set_conserves:
  assumes "wf_ht ht" and "\<forall>(k, x) \<in># ht_bag ht. ht_hash k = ht_hash key \<longrightarrow> k = key"
    and "ht_set ht key v = Some (ht', r)"
  shows "{#p \<in># ht_bag ht'. fst p \<noteq> key#} = {#p \<in># ht_bag ht. fst p \<noteq> key#} \<and>
    (r = 1 \<and> ht_bag ht' = add_mset (key, v) (ht_bag ht) \<or>
     r = 0 \<and> size (ht_bag ht') = size (ht_bag ht) \<and> (\<exists>u. (key, u) \<in># ht_bag ht)) \<and>
    (\<forall>ht1 w. (if load_high ht then ht_resize ht (capacity ht * 2) else Some ht) = Some ht1 \<and> ht_get ht1 key = Some (Some w) \<longrightarrow>
       ht_get ht' key = Some (Some v) \<and>
       (r = 0 \<longrightarrow> (key, w) \<in># ht_bag ht \<and> ht_bag ht' = add_mset (key, v) (ht_bag ht - {#(key, w)#})))"
proof -
  have ins: "inserted key (ht_bag ht) (key, v) (ht_bag ht') r"
    using ht_set_spec [OF assms(1), of key v] assms(3) by auto
  have bag: "r = 1 \<and> ht_bag ht' = add_mset (key, v) (ht_bag ht) \<or>
      r = 0 \<and> (\<exists>u. (key, u) \<in># ht_bag ht) \<and> (\<exists>w. add_mset (key, w) (ht_bag ht') = add_mset (key, v) (ht_bag ht))"
    by (rule inserted_apart [OF ins assms(2)])
  have filter_key: "{#p \<in># ht_bag ht'. fst p \<noteq> key#} = {#p \<in># ht_bag ht. fst p \<noteq> key#}"
    if "add_mset (key, w) (ht_bag ht') = add_mset (key, v) (ht_bag ht)" for w
    using arg_cong [OF that, of "filter_mset (\<lambda>p. fst p \<noteq> key)"] by simp
  have size_key: "size (ht_bag ht') = size (ht_bag ht)" if "add_mset (key, w) (ht_bag ht') = add_mset (key, v) (ht_bag ht)" for w
    using arg_cong [OF that, of size] by simp
  have "{#p \<in># ht_bag ht'. fst p \<noteq> key#} = {#p \<in># ht_bag ht. fst p \<noteq> key#}"
    using bag filter_key by auto
  moreover have "r = 1 \<and> ht_bag ht' = add_mset (key, v) (ht_bag ht) \<or>
      r = 0 \<and> size (ht_bag ht') = size (ht_bag ht) \<and> (\<exists>u. (key, u) \<in># ht_bag ht)"
    using bag size_key by auto
  moreover have "\<forall>ht1 w. (if load_high ht then ht_resize ht (capacity ht * 2) else Some ht) = Some ht1 \<and> ht_get ht1 key = Some (Some w) \<longrightarrow>
       ht_get ht' key = Some (Some v) \<and>
       (r = 0 \<longrightarrow> (key, w) \<in># ht_bag ht \<and> ht_bag ht' = add_mset (key, v) (ht_bag ht - {#(key, w)#}))"
    unfolding grown_def [symmetric] using ht_set_found [OF assms(1) _ _ assms(3)] by blast
  ultimately show ?thesis by (intro conjI)
qed

theorem ht_set_conserves_witness:
  "\<exists>ht' r. ht_set table_a ''a'' 2 = Some (ht', r) \<and> {#p \<in># ht_bag ht'. fst p \<noteq> ''a''#} = {#p \<in># ht_bag table_a. fst p \<noteq> ''a''#} \<and>
    (r = 1 \<and> ht_bag ht' = add_mset (''a'', 2) (ht_bag table_a) \<or>
     r = 0 \<and> size (ht_bag ht') = size (ht_bag table_a) \<and> (\<exists>u. (''a'', u) \<in># ht_bag table_a)) \<and>
    ht_get ht' ''a'' = Some (Some 2) \<and> (r = 0 \<longrightarrow> ht_bag ht' = add_mset (''a'', 2) (ht_bag table_a - {#(''a'', 1)#}))"
proof -
  obtain ht' r where set: "ht_set table_a ''a'' 2 = Some (ht', r)"
    using ht_set_spec [OF table_a_good(3), of "''a''" 2] by blast
  have "(k, x) \<in># ht_bag table_a \<Longrightarrow> k = ''a''" for k x
    unfolding ht_map_bag [OF goodD(2) [OF table_a_good(1)], symmetric] table_a_good(2) by (simp split: if_splits)
  then have "\<forall>(k, x) \<in># ht_bag table_a. ht_hash k = ht_hash ''a'' \<longrightarrow> k = ''a''" by auto
  note * = ht_set_conserves [OF table_a_good(3) this set]
  have "\<not> load_high table_a" by (simp add: load_high_def table_a_def fill_slot_def empty_table_def)
  moreover have "ht_get table_a ''a'' = Some (Some 1)" using ht_get_map [OF table_a_good(1)] table_a_good(2) by simp
  ultimately show ?thesis using * set by auto
qed

text \<open>On a well-formed table \<open>ht_delete\<close> always returns, also when it shrinks the table; it keeps
  the table well formed, and it either changes nothing and returns 0 or removes exactly one binding of
  the key and returns 1.\<close>

theorem ht_delete_returns:
  assumes "wf_ht ht"
  shows "\<exists>ht' r. ht_delete ht key = Some (ht', r) \<and> wf_ht ht' \<and>
     (r = 0 \<and> ht' = ht \<or> r = 1 \<and> (\<exists>v. add_mset (key, v) (ht_bag ht') = ht_bag ht))"
  using ht_delete_spec [OF assms, of key] by blast

theorem ht_delete_returns_witness:
  "\<exists>ht' r. ht_delete table_a ''a'' = Some (ht', r) \<and> wf_ht ht' \<and>
     (r = 0 \<and> ht' = table_a \<or> r = 1 \<and> (\<exists>v. add_mset (''a'', v) (ht_bag ht') = ht_bag table_a))"
  by (rule ht_delete_returns [OF table_a_good(3)])

text \<open>\<open>ht_resize\<close> to a larger capacity keeps every entry and leaves no tombstone.\<close>

theorem ht_resize_conserves:
  assumes "wf_ht ht"
  shows "\<exists>ht'. ht_resize ht (capacity ht * 2) = Some ht' \<and> ht_bag ht' = ht_bag ht \<and>
           size_of ht' = size_of ht \<and> tombstones ht' = 0 \<and> capacity ht' = capacity ht * 2"
proof -
  have "occs (entries ht) < capacity ht * 2"
    using wf_ht_room [OF assms] wf_htD(4) [OF assms] by simp
  from ht_resize_total [OF wf_htD(1) [OF assms] table_cap_double [OF wf_htD(2) [OF assms]] this]
  show ?thesis using wf_htD(4) [OF assms] by auto
qed

theorem ht_resize_conserves_witness:
  "\<exists>ht'. ht_resize table_a (capacity table_a * 2) = Some ht' \<and> ht_bag ht' = ht_bag table_a \<and>
           size_of ht' = size_of table_a \<and> tombstones ht' = 0 \<and> capacity ht' = capacity table_a * 2"
  by (rule ht_resize_conserves [OF table_a_good(3)])

text \<open>A lookup in a well-formed table always ends, and what it finds is an entry of that very key.\<close>

theorem ht_get_sound:
  assumes "wf_ht ht"
  shows "\<exists>p. ht_get ht key = Some p \<and> (\<forall>v. p = Some v \<longrightarrow> (key, v) \<in># ht_bag ht)"
proof -
  obtain q where q: "ht_find ht key = Some q"
    and at: "\<And>s. q = Some s \<Longrightarrow> s < capacity ht \<and> (\<exists>v. entries ht ! s = HtOccupied key (ht_hash key) v)"
    using ht_find_total [OF assms, of key] by blast
  show ?thesis
  proof (cases q)
    case None
    with q show ?thesis by (simp add: ht_get_def)
  next
    case (Some s)
    with at obtain v where "s < capacity ht" "entries ht ! s = HtOccupied key (ht_hash key) v" by blast
    with q Some wf_htD(3) [OF assms] show ?thesis
      by (auto simp: ht_get_def entry_value_def ht_bag_def in_slots_bag)
  qed
qed

theorem ht_get_sound_witness:
  "\<exists>p. ht_get table_a ''a'' = Some p \<and> (\<forall>v. p = Some v \<longrightarrow> (''a'', v) \<in># ht_bag table_a)"
  by (rule ht_get_sound [OF table_a_good(3)])

section \<open>The table as a map\<close>

text \<open>C14: on a table without cut probe paths the early exit of the lookup is right: \<open>ht_get\<close> finds the
  binding of the key exactly if the table has one.\<close>

theorem ht_get_complete:
  assumes "good ht"
  shows "ht_get ht key = Some (Some v) \<longleftrightarrow> (key, v) \<in># ht_bag ht"
  using tbl.get_lookup [OF assms, of key] ht_map_bag [OF goodD(2) [OF assms], of key v] by simp

theorem ht_get_complete_witness:
  "ht_get table_a ''a'' = Some (Some 1) \<longleftrightarrow> (''a'', 1) \<in># ht_bag table_a"
  by (rule ht_get_complete [OF table_a_good(1)])

text \<open>C15: on a table without cut probe paths (\<open>good\<close>) that has not to grow, an insertion whose own probe meets
  only entries at least as far from home as itself, and no tombstone, before it ends at the key or at an empty slot
  (\<open>clean_probe\<close>), makes the table answer with the new value for the key and as before for every other
  key; the returned flag says whether the key is new, and the table stays free of cut paths. Each of the conditions is
  needed: \<open>ht_set_swap_loses_key\<close>, \<open>ht_set_tombstone_hides_key\<close> and \<open>ht_shrink_loses_key\<close> show the losses.\<close>

theorem ht_get_after_set:
  assumes "good ht" "\<not> load_high ht" "clean_probe ht key" "ht_set ht key v = Some (ht', r)"
  shows "good ht' \<and> ht_get ht' k = (if k = key then Some (Some v) else ht_get ht k) \<and>
    (r = 1 \<longleftrightarrow> ht_get ht key = Some None)"
proof -
  note ok = set_ok_no_growth [OF assms(1-3)]
  show ?thesis
    using tbl.get_put [OF assms(1) ok assms(4), of k] tbl.put_lookup [OF assms(1) ok, of v] assms(4)
      tbl.put_reports [OF assms(1) ok assms(4)] by auto
qed

theorem ht_get_after_set_witness:
  "good table_a \<and> ht_get table_a ''b'' = (if ''b'' = ''a'' then Some (Some 1) else ht_get (empty_table 64) ''b'') \<and>
   ((1::int) = 1 \<longleftrightarrow> ht_get (empty_table 64 :: int hashtable) ''a'' = Some None)"
  by (rule ht_get_after_set [OF good_empty_table [OF table_cap_64] empty_probe table_a_set])

text \<open>C16: on a table without cut probe paths (\<open>good\<close>), a deletion that does not shrink the table (it has
  the smallest capacity, or is at least a fifth full without the key) leaves no value for the key and the answers for every
  other key as they were; the return value says whether the key was there, and the table stays free of cut
  paths. Where the table shrinks, or holds the key twice, this fails: \<open>ht_shrink_loses_key\<close>,
  \<open>ht_set_tombstone_duplicates\<close>.\<close>

theorem ht_get_after_delete:
  assumes "good ht" "capacity ht \<le> 64 \<or> 20 \<le> (size_of ht - 1) * 100 div capacity ht" "ht_delete ht key = Some (ht', r)"
  shows "good ht' \<and> ht_get ht' k = (if k = key then Some None else ht_get ht k) \<and> (r = 0 \<longleftrightarrow> ht_get ht key = Some None)"
proof -
  note ok = del_ok_no_shrink [OF assms(1,2), of key]
  show ?thesis
    using tbl.get_del [OF assms(1) ok assms(3), of k] tbl.del_reports [OF assms(1) ok assms(3)]
      tbl.del_lookup [OF assms(1) ok] assms(3) by auto
qed

theorem ht_get_after_delete_witness:
  "good (bury table_a 44) \<and> ht_get (bury table_a 44) ''a'' = (if ''a'' = ''a'' then Some None else ht_get table_a ''a'') \<and>
   ((1::int) = 0 \<longleftrightarrow> ht_get table_a ''a'' = Some None)"
proof -
  have "ht_delete table_a ''a'' = Some (bury table_a 44, 1)"
    by (simp add: ht_eval table_a_def fill_slot_def)
  from ht_get_after_delete [OF table_a_good(1) _ this, of "''a''"] show ?thesis
    by (simp add: table_a_capacity)
qed

section \<open>Where the probing goes wrong\<close>

definition set_all :: "'v hashtable \<Rightarrow> (string \<times> 'v) list \<Rightarrow> 'v hashtable option" where
  "set_all ht kvs = foldl (\<lambda>t (k, v). Option.bind t (\<lambda>h. map_option fst (ht_set h k v))) (Some ht) kvs"

text \<open>C35: the Robin Hood swap of \<open>ht_set\<close> loses keys. After a swap the loop goes on with the displaced
  entry but with the probe counter of the other one, so the displaced entry skips slots; when one of
  these is empty the lookup stops there. Three insertions into an empty table (keys "z", "!", "a")
  make "z" unreachable although the table still holds it.\<close>

theorem ht_set_swap_loses_key:
  "\<exists>ht. set_all (empty_table 64) [(''z'', 1::int), (''!'', 2), (''a'', 3)] = Some ht \<and>
     wf_ht ht \<and> size_of ht = 3 \<and> (''z'', 1) \<in># ht_bag ht \<and> ht_get ht ''z'' = Some None"
proof -
  obtain h1 h2 h3 where
    s1: "ht_set (empty_table 64) ''z'' (1::int) = Some (h1, 1)" and
    s2: "ht_set h1 ''!'' 2 = Some (h2, 1)" and s3: "ht_set h2 ''a'' 3 = Some (h3, 1)" and
    g: "ht_get h3 ''z'' = Some None"
    by (simp add: ht_eval)
  have w1: "wf_ht h1" "ht_bag h1 = {#(''z'', 1)#}" "size_of h1 = 1"
    using ht_set_spec [OF wf_empty_table [OF table_cap_64], of "''z''" "1::int"] s1
    by (auto simp: inserted_def empty_table_def ht_bag_def)
  have w2: "wf_ht h2" "ht_bag h2 = {#(''!'', 2), (''z'', 1)#}" "size_of h2 = 2"
    using ht_set_spec [OF w1(1), of "''!''" 2] s2 w1 by (auto simp: inserted_def)
  have w3: "wf_ht h3" "ht_bag h3 = {#(''a'', 3), (''!'', 2), (''z'', 1)#}" "size_of h3 = 3"
    using ht_set_spec [OF w2(1), of "''a''" 3] s3 w2 by (auto simp: inserted_def)
  show ?thesis
    using s1 s2 s3 g w3 by (auto simp: set_all_def)
qed

text \<open>\<open>ht_set\<close> takes the first tombstone without looking whether the key is stored further on, so
  a key can be in the table twice; after \<open>ht_delete\<close> of that key the older value comes back.\<close>

theorem ht_set_tombstone_duplicates:
  "\<exists>t1 t2 t3 t4. set_all (empty_table 64) [(''!'', 1::int), (''a'', 2)] = Some t1 \<and>
     ht_delete t1 ''!'' = Some (t2, 1) \<and> ht_set t2 ''a'' 3 = Some (t3, 1) \<and>
     ht_get t3 ''a'' = Some (Some 3) \<and> size_of t3 = 2 \<and>
     ht_delete t3 ''a'' = Some (t4, 1) \<and> ht_get t4 ''a'' = Some (Some 2)"
  by (simp add: set_all_def ht_eval)

text \<open>Reusing a tombstone cuts the probe path of another key: with "!", "a" and "gb" of the same
  home slot, deleting "a" and inserting a key whose home is the tombstone makes the last one
  unreachable.\<close>

theorem ht_set_tombstone_hides_key:
  "\<exists>t1 t2 t3. set_all (empty_table 64) [(''!'', 1::int), (''a'', 2), (''gb'', 3)] = Some t1 \<and>
     ht_get t1 ''gb'' = Some (Some 3) \<and> ht_delete t1 ''a'' = Some (t2, 1) \<and>
     ht_set t2 ''z'' 4 = Some (t3, 1) \<and> ht_get t3 ''gb'' = Some None"
  by (simp add: set_all_def ht_eval)

text \<open>The 128 slots around those that the next example uses.\<close>

lemma slots_128:
  "entries (empty_table 128) = replicate 44 HtEmpty @ HtEmpty # HtEmpty # replicate 55 HtEmpty @ HtEmpty # replicate 6 HtEmpty @
     HtEmpty # replicate 19 HtEmpty"
  by (simp only: empty_table_def hashtable.select_convs replicate_Suc [symmetric] replicate_add [symmetric]) simp

lemma ht_rehash_skip:
  "ht_rehash cap (replicate n HtEmpty @ old) es m = ht_rehash cap old es m"
  "ht_rehash cap (replicate n HtEmpty) es m = Some (es, m)"
  by (induction n) auto

text \<open>The loop of \<open>ht_resize\<close> swaps with the same mistake. In a table of capacity 128 with the four keys "a",
  "z", "!" and "b", which all answer, deleting "b" shrinks the table, and then "z" is stored but not found.\<close>

theorem ht_shrink_loses_key:
  "\<exists>t1 t2. set_all (empty_table 128) [(''a'', 1::int), (''z'', 2), (''!'', 3), (''b'', 4)] = Some t1 \<and>
     ht_get t1 ''a'' = Some (Some 1) \<and> ht_get t1 ''z'' = Some (Some 2) \<and> ht_get t1 ''!'' = Some (Some 3) \<and>
     ht_get t1 ''b'' = Some (Some 4) \<and> ht_delete t1 ''b'' = Some (t2, 1) \<and>
     capacity t2 = 64 \<and> size_of t2 = 3 \<and> ht_get t2 ''z'' = Some None"
proof -
  have t0: "(empty_table 128 :: int hashtable) = \<lparr>entries = replicate 44 HtEmpty @ HtEmpty # HtEmpty # replicate 55 HtEmpty @
      HtEmpty # replicate 6 HtEmpty @ HtEmpty # replicate 19 HtEmpty, capacity = 128, size_of = 0, tombstones = 0\<rparr>"
    using slots_128 by (simp add: empty_table_def)
  show ?thesis
    unfolding t0
    by (simp add: set_all_def ht_eval ht_resize_def ht_resize_insert.simps ht_rehash_skip nth_append list_update_append)
qed

end
