(* ===== verification/Database_Props.thy ===== *)
theory Database_Props
  imports Database_Map HashTable_Props
begin

text \<open>
  The properties of \<open>db.c\<close>: lazy expiry, counters, expiry times, the list operations, the sweep;
  each with a witness at a concrete database.
\<close>

section \<open>A concrete database\<close>

text \<open>A database with the one key "a".\<close>

definition sample_db :: "db_entry \<Rightarrow> database" where
  "sample_db e = \<lparr>db_ht = fill_slot (empty_table 64) 44 ''a'' e, last_expire_sweep = 0, db_ticks = 0\<rparr>"

definition empty_db :: database where
  "empty_db = \<lparr>db_ht = empty_table 64, last_expire_sweep = 0, db_ticks = 0\<rparr>"

lemma set_a: "ht_set (empty_table 64) ''a'' e = Some (fill_slot (empty_table 64) 44 ''a'' e, 1)"
  by (simp add: ht_eval fill_slot_def)

lemma sample_db_facts [simp]:
  "good (db_ht (sample_db e))" "db_view (sample_db e) = [''a'' \<mapsto> e]" "db_ticks (sample_db e) = 0"
  "last_expire_sweep (sample_db e) = 0" "del_ok (db_ht (sample_db e)) k"
proof -
  have g: "good (db_ht (sample_db e))" "db_view (sample_db e) = [''a'' \<mapsto> e]"
    using ht_set_map [OF good_empty_table [OF table_cap_64] empty_set_ok, of "''a''" e] set_a [of e]
    by (auto simp: sample_db_def db_view_def ht_map_empty_table)
  then show "good (db_ht (sample_db e))" "db_view (sample_db e) = [''a'' \<mapsto> e]" .
  show "del_ok (db_ht (sample_db e)) k"
    by (rule del_ok_small [OF g(1)]) (simp add: sample_db_def fill_slot_def empty_table_def)
qed (simp_all add: sample_db_def)

lemma empty_db_facts [simp]:
  "good (db_ht empty_db)" "db_view empty_db = Map.empty" "db_ticks empty_db = 0" "set_ok (db_ht empty_db) k"
  using good_empty_table [OF table_cap_64] empty_set_ok
  by (simp_all add: empty_db_def db_view_def ht_map_empty_table)

lemma sample_db_pairs: "pairs_from (db_ht (sample_db e)) 0 = [(''a'', e)]"
proof -
  obtain ht where ht: "ht_set (empty_table 64) ''a'' e = Some (ht, 1)" "db_ht (sample_db e) = ht"
    using set_a [of e] by (simp add: sample_db_def)
  then have "ht_bag ht = {#(''a'', e)#}" and "wf_ht ht"
    using ht_set_spec [OF wf_empty_table [OF table_cap_64], of "''a''" e]
    by (auto simp: inserted_def ht_bag_def empty_table_def)
  then have "mset (pairs_from ht 0) = {#(''a'', e)#}" using mset_pairs_from [OF wf_htD(3)] by metis
  with ht(2) show ?thesis by simp
qed

lemma sample_db_bag: "ht_bag (db_ht (sample_db e)) = {#(''a'', e)#}"
  using mset_pairs_from [OF goodD(4) [OF sample_db_facts(1) [of e]]] by (simp add: sample_db_pairs)

section \<open>Reading and writing\<close>

text \<open>\<open>db_get\<close> expires lazily: it answers the value of the key unless its expiry time has passed,
  in which case it answers nothing and the key is removed; no other key changes.\<close>

theorem db_get_lazy_expiry:
  assumes "good (db_ht db)" "check_safe del_ok (db_now clk db) db key"
  shows "\<exists>db'. db_get clk db (Some key) = Inr (db', map_option obj (db_visible (db_now clk db) db key)) \<and>
    good (db_ht db') \<and> db_view db' = db_checked (db_now clk db) db key"
  using dbt.get_entry_view [OF assms] by (auto simp: db_get_def split: option.splits)

theorem db_get_lazy_expiry_witness:
  "\<exists>db'. db_get (\<lambda>n. 6) (sample_db \<lparr>obj = OBJ_INT 1, expire = 5\<rparr>) (Some ''a'') = Inr (db', None) \<and>
    good (db_ht db') \<and> db_view db' = Map.empty"
  using db_get_lazy_expiry [of "sample_db \<lparr>obj = OBJ_INT 1, expire = 5\<rparr>" "\<lambda>n. 6" "''a''"]
  by (simp add: check_safe_def db_now_def db_visible_def live_def db_checked_def)

text \<open>What \<open>db_set\<close> stores is what \<open>db_get\<close> answers, at any time: the value as an integer if the
  text reads as one and as a string otherwise, without an expiry time, even if the key had one.\<close>

theorem db_set_then_get:
  assumes "good (db_ht db)" "set_ok (db_ht db) key"
  shows "\<exists>db1 db2. db_set db (Some key) (Some v) = Inr (db1, 1) \<and>
    db_view db1 = (db_view db)(key \<mapsto> \<lparr>obj = obj_of_value (Some v), expire = -1\<rparr>) \<and>
    db_get clk db1 (Some key) = Inr (db2, Some (obj_of_value (Some v)))"
proof -
  obtain db1 where db1: "ht_put db key \<lparr>obj = obj_of_value (Some v), expire = -1\<rparr> = Inr db1" "good (db_ht db1)"
    "db_view db1 = (db_view db)(key \<mapsto> \<lparr>obj = obj_of_value (Some v), expire = -1\<rparr>)"
    by (rule dbt.put_view [OF assms]) auto
  have vis: "db_visible (db_now clk db1) db1 key = Some \<lparr>obj = obj_of_value (Some v), expire = -1\<rparr>"
    by (simp add: db_visible_def db1)
  then have "check_safe del_ok (db_now clk db1) db1 key" by (simp add: check_safe_def no_expired_def db1)
  from dbt.get_entry_view [OF db1(2) this] vis db1(1,3) show ?thesis
    by (auto simp: db_set_def db_get_def)
qed

theorem db_set_then_get_witness:
  "\<exists>db1 db2. db_set empty_db (Some ''k'') (Some ''v'') = Inr (db1, 1) \<and>
    db_view db1 = [''k'' \<mapsto> \<lparr>obj = obj_of_value (Some ''v''), expire = -1\<rparr>] \<and>
    db_get (\<lambda>n. 0) db1 (Some ''k'') = Inr (db2, Some (obj_of_value (Some ''v'')))"
  using db_set_then_get [of empty_db "''k''" "''v''" "\<lambda>n. 0"] by simp

section \<open>Counters\<close>

text \<open>The number an object stands for in \<open>db_incr\<close>.\<close>

definition obj_number :: "dbobj \<Rightarrow> int option" where
  "obj_number x = (case x of OBJ_INT n \<Rightarrow> Some n | OBJ_STRING s \<Rightarrow> obj_try_parse_int s | OBJ_LIST vs \<Rightarrow> None)"

text \<open>\<open>db_incr\<close> on every branch: a missing key starts at the delta; a number is replaced by the sum,
  keeping the expiry time, if the sum fits in 64 bits and is undefined behaviour otherwise; any other
  value is left alone and reported with \<open>INT64_MIN\<close>.\<close>

theorem db_incr_branches:
  assumes "good (db_ht db)" "no_expired (db_now clk db) db key" "db_view db key = None \<Longrightarrow> set_ok (db_ht db) key"
  shows "case db_view db key of
      None \<Rightarrow> \<exists>db'. db_incr clk db (Some key) d = Inr (db', d) \<and>
        db_view db' = (db_view db)(key \<mapsto> \<lparr>obj = OBJ_INT d, expire = -1\<rparr>)
    | Some e \<Rightarrow>
       (case obj_number (obj e) of
          None \<Rightarrow> \<exists>db'. db_incr clk db (Some key) d = Inr (db', INT64_MIN) \<and> db_view db' = db_view db
        | Some n \<Rightarrow>
           if in_int64 (n + d)
           then \<exists>db'. db_incr clk db (Some key) d = Inr (db', n + d) \<and>
                  db_view db' = (db_view db)(key \<mapsto> e\<lparr>obj := OBJ_INT (n + d)\<rparr>)
           else db_incr clk db (Some key) d = Inl SignedOverflow)"
proof -
  have safe: "check_safe del_ok (db_now clk db) db key" using assms(2) by (simp add: check_safe_def)
  show ?thesis
  proof (cases rule: dbt.lookup_cases [OF assms(1) safe])
    case (1 db1)
    with assms(2) show ?thesis by (simp add: no_expired_def)
  next
    case (2 db1)
    from 2 assms(3) have "set_ok (db_ht db1) key" by simp
    then obtain db' where "ht_put db1 key \<lparr>obj = OBJ_INT d, expire = -1\<rparr> = Inr db'"
      "db_view db' = (db_view db1)(key \<mapsto> \<lparr>obj = OBJ_INT d, expire = -1\<rparr>)"
      by (rule dbt.put_view [OF 2(3)]) auto
    with 2 show ?thesis by (simp add: db_incr_def obj_create_int_def)
  next
    case (3 db1 idx e)
    note w = dbt.write_view [OF 3(4,10)]
    show ?thesis
      using 3 w by (cases "obj e") (auto simp: db_incr_def obj_number_def int64_def obj_create_int_def split: option.splits)
  qed
qed

theorem db_incr_branches_witness:
  "\<exists>db'. db_incr (\<lambda>n. 0) (sample_db \<lparr>obj = OBJ_INT 41, expire = 7\<rparr>) (Some ''a'') 1 = Inr (db', 42) \<and>
     db_view db' = [''a'' \<mapsto> \<lparr>obj = OBJ_INT 42, expire = 7\<rparr>]"
  using db_incr_branches [of "sample_db \<lparr>obj = OBJ_INT 41, expire = 7\<rparr>" "\<lambda>n. 0" "''a''" 1]
  by (simp add: no_expired_def db_visible_def db_now_def live_def obj_number_def in_int64_def INT64_MIN_def INT64_MAX_def)

section \<open>Expiry times\<close>

text \<open>\<open>EXPIRE\<close> followed by \<open>TTL\<close> within a second answers the seconds given, or one less: the
  entry gets the time of the call plus \<open>seconds\<close>, and \<open>TTL\<close> rounds what is left down.\<close>

theorem db_expire_then_ttl:
  assumes g: "good (db_ht db)" and present: "db_visible (db_now clk db) db key = Some e"
    and secs: "0 < secs" "secs \<le> 1000000000000"
    and clock: "\<And>n. 0 \<le> clk n" "\<And>n. clk n \<le> 1000000000000000" "\<And>m n. m \<le> n \<Longrightarrow> clk m \<le> clk n"
      "\<And>m n. clk n - clk m < 1000"
  shows "\<exists>db1 db2 at r. db_expire clk db (Some key) secs = Inr (db1, 1) \<and>
    db_view db1 = (db_view db)(key \<mapsto> e\<lparr>expire := at\<rparr>) \<and> (\<exists>n. at = clk n + secs * 1000) \<and>
    db_ttl clk db1 (Some key) = Inr (db2, r) \<and> (r = secs \<or> r = secs - 1)"
proof -
  have range: "in_int64 (secs * 1000)" "in_int64 (clk n + secs * 1000)" for n
    using secs clock(1,2) [of n] by (simp_all add: in_int64_def INT64_MIN_def INT64_MAX_def)
  obtain db1 t where run: "db_expire clk db (Some key) secs = Inr (db1, 1)" "good (db_ht db1)"
    "db_view db1 = (db_view db)(key \<mapsto> e\<lparr>expire := clk t + secs * 1000\<rparr>)" "db_ticks db1 = Suc t"
    using g present range by (rule dbt.db_expire_view)
  define at where "at = clk t + secs * 1000"
  have "clk (Suc t) \<le> at" using clock(4) [of "Suc t" t] secs(1) by (simp add: at_def)
  then have vis: "db_visible (db_now clk db1) db1 key = Some (e\<lparr>expire := at\<rparr>)"
    by (simp add: db_visible_def run live_def db_now_def at_def)
  obtain db2 idx2 where
    db2: "db_get_entry clk db1 key = Inr (db2, Some idx2)" "entry_at db2 idx2 = Inr (e\<lparr>expire := at\<rparr>)"
      "db_ticks db1 \<le> db_ticks db2"
    using run(2) vis by (rule dbt.get_entry_visible)
  define left where "left = at - clk (db_ticks db2)"
  have left: "secs * 1000 - 1000 < left" "left \<le> secs * 1000"
    using clock(4) [where n = "db_ticks db2" and m = t] clock(3) [where m = t and n = "db_ticks db2"] db2(3) run(4)
    by (simp_all add: left_def at_def)
  have r: "left div 1000 = secs \<or> left div 1000 = secs - 1" "0 \<le> left" "0 \<le> at"
    using left secs(1) clock(1) [of t] by (auto simp: at_def)
  have "in_int64 left" using left r secs(2) by (simp add: in_int64_def INT64_MIN_def INT64_MAX_def)
  with r db2 secs(1) have "\<exists>db3. db_ttl clk db1 (Some key) = Inr (db3, left div 1000)"
    by (auto simp: db_ttl_def imdb_mstime_def int64_def left_def [symmetric])
  with run r(1) show ?thesis by (auto simp: at_def)
qed

theorem db_expire_then_ttl_witness:
  "\<exists>db1 db2 at r. db_expire (\<lambda>n. 5000) (sample_db \<lparr>obj = OBJ_INT 1, expire = -1\<rparr>) (Some ''a'') 10 = Inr (db1, 1) \<and>
    db_view db1 = [''a'' \<mapsto> \<lparr>obj = OBJ_INT 1, expire = at\<rparr>] \<and> (\<exists>n::nat. at = 5000 + 10 * 1000) \<and>
    db_ttl (\<lambda>n. 5000) db1 (Some ''a'') = Inr (db2, r) \<and> (r = 10 \<or> r = 10 - 1)"
  using db_expire_then_ttl [of "sample_db \<lparr>obj = OBJ_INT 1, expire = -1\<rparr>" "\<lambda>n. 5000" "''a''"
      "\<lparr>obj = OBJ_INT 1, expire = -1\<rparr>" 10]
  by (simp add: db_visible_def live_def)

text \<open>\<open>EXPIRE\<close> with so negative a time that the sum with the clock is negative does not expire the
  key: the entry then reads as having no expiry time, so that it stays visible at every time and
  \<open>TTL\<close> answers -1.\<close>

theorem db_expire_negative_keeps_key:
  assumes g: "good (db_ht db)" and present: "db_visible (db_now clk db) db key = Some e"
    and secs: "secs < 0" "- 1000000000000 \<le> secs"
    and clock: "\<And>n. 0 \<le> clk n" "\<And>n. clk n < - secs * 1000"
  shows "\<exists>db1 db2. db_expire clk db (Some key) secs = Inr (db1, 1) \<and>
    (\<forall>now. db_visible now db1 key = db_view db1 key) \<and> db_view db1 key \<noteq> None \<and>
    db_ttl clk db1 (Some key) = Inr (db2, -1)"
proof -
  have range: "in_int64 (secs * 1000)" "in_int64 (clk n + secs * 1000)" "clk n + secs * 1000 < 0" for n
    using secs clock [of n] by (simp_all add: in_int64_def INT64_MIN_def INT64_MAX_def)
  obtain db1 t where run: "db_expire clk db (Some key) secs = Inr (db1, 1)" "good (db_ht db1)"
    "db_view db1 = (db_view db)(key \<mapsto> e\<lparr>expire := clk t + secs * 1000\<rparr>)"
    using g present range(1,2) by (rule dbt.db_expire_view)
  have vis: "db_visible now db1 key = Some (e\<lparr>expire := clk t + secs * 1000\<rparr>)" for now
    using range(3) by (simp add: db_visible_def run)
  obtain db2 idx2 where "db_get_entry clk db1 key = Inr (db2, Some idx2)"
      "entry_at db2 idx2 = Inr (e\<lparr>expire := clk t + secs * 1000\<rparr>)"
    using run(2) vis by (rule dbt.get_entry_visible)
  then have "db_ttl clk db1 (Some key) = Inr (db2, -1)" using range(3) by (simp add: db_ttl_def)
  with run vis show ?thesis by auto
qed

theorem db_expire_negative_keeps_key_witness:
  "\<exists>db1 db2. db_expire (\<lambda>n. 5000) (sample_db \<lparr>obj = OBJ_INT 1, expire = -1\<rparr>) (Some ''a'') (- 10) = Inr (db1, 1) \<and>
    (\<forall>now. db_visible now db1 ''a'' = db_view db1 ''a'') \<and> db_view db1 ''a'' \<noteq> None \<and>
    db_ttl (\<lambda>n. 5000) db1 (Some ''a'') = Inr (db2, -1)"
  by (rule db_expire_negative_keeps_key [where e = "\<lparr>obj = OBJ_INT 1, expire = -1\<rparr>"])
    (simp_all add: db_visible_def live_def)

text \<open>\<open>PERSIST\<close> answers 1 exactly if the key is visible with an expiry time, and then the entry loses
  that time and nothing else changes.\<close>

theorem db_persist_clears_expiry:
  assumes "good (db_ht db)" "check_safe del_ok (db_now clk db) db key"
  shows "\<exists>db'. db_persist clk db (Some key) =
      Inr (db', case db_visible (db_now clk db) db key of Some e \<Rightarrow> if expire e < 0 then 0 else 1 | None \<Rightarrow> 0) \<and>
    db_view db' = (db_checked (db_now clk db) db key)
      (key := map_option (\<lambda>e. if expire e < 0 then e else e\<lparr>expire := -1\<rparr>) (db_visible (db_now clk db) db key))"
proof -
  from dbt.get_entry_view [OF assms] obtain db1 p where db1: "db_get_entry clk db key = Inr (db1, p)" "good (db_ht db1)"
      "db_view db1 = db_checked (db_now clk db) db key"
      "case db_visible (db_now clk db) db key of None \<Rightarrow> p = None
       | Some e \<Rightarrow> \<exists>idx. p = Some idx \<and> entry_at db1 idx = Inr e \<and> ht_find (db_ht db1) key = Some (Some idx)"
    by blast
  show ?thesis
  proof (cases "db_visible (db_now clk db) db key")
    case None
    with db1 show ?thesis by (simp add: db_persist_def db_checked_def)
  next
    case (Some e)
    with db1(4) obtain idx where idx: "p = Some idx" "entry_at db1 idx = Inr e" "ht_find (db_ht db1) key = Some (Some idx)"
      by auto
    from dbt.write_view [OF db1(2) idx(3), of "e\<lparr>expire := -1\<rparr>"] Some db1(1,3) idx(1,2)
    show ?thesis by (simp add: db_persist_def db_checked_def)
  qed
qed

theorem db_persist_clears_expiry_witness:
  "\<exists>db'. db_persist (\<lambda>n. 3) (sample_db \<lparr>obj = OBJ_INT 1, expire = 5\<rparr>) (Some ''a'') = Inr (db', 1) \<and>
    db_view db' = [''a'' \<mapsto> \<lparr>obj = OBJ_INT 1, expire = -1\<rparr>]"
  using db_persist_clears_expiry [of "sample_db \<lparr>obj = OBJ_INT 1, expire = 5\<rparr>" "\<lambda>n. 3" "''a''"]
  by (simp add: check_safe_def db_visible_def live_def db_now_def db_checked_def)

section \<open>Lists\<close>

text \<open>The list operations of the database by the name of the list operation they use, with the integer
  or the string pointer they return.\<close>

fun db_list_op :: "clock \<Rightarrow> database \<Rightarrow> string \<Rightarrow> list_op \<Rightarrow> (database \<times> (int + cstr)) res" where
  "db_list_op clk db key (LPush v) = bindR (db_lpush clk db (Some key) v) (\<lambda>(db', n). Inr (db', Inl n))"
| "db_list_op clk db key (RPush v) = bindR (db_rpush clk db (Some key) v) (\<lambda>(db', n). Inr (db', Inl n))"
| "db_list_op clk db key LPop = bindR (db_lpop clk db (Some key)) (\<lambda>(db', p). Inr (db', Inr p))"
| "db_list_op clk db key RPop = bindR (db_rpop clk db (Some key)) (\<lambda>(db', p). Inr (db', Inr p))"

definition list_reply :: "cstr list \<Rightarrow> list_op \<Rightarrow> int + cstr" where
  "list_reply vs x = (case x of
     LPop \<Rightarrow> Inr (if vs = [] then None else hd vs)
   | RPop \<Rightarrow> Inr (if vs = [] then None else last vs)
   | _ \<Rightarrow> Inl (to_int32 (int (length vs + 1))))"

text \<open>The list a key stands for; a missing key is an empty list without expiry time.\<close>

definition key_list :: "database \<Rightarrow> string \<Rightarrow> cstr list option" where
  "key_list db key = (case db_view db key of
     None \<Rightarrow> Some [] | Some e \<Rightarrow> (case obj e of OBJ_LIST vs \<Rightarrow> Some vs | _ \<Rightarrow> None))"

definition key_expire :: "database \<Rightarrow> string \<Rightarrow> int" where
  "key_expire db key = (case db_view db key of None \<Rightarrow> -1 | Some e \<Rightarrow> expire e)"

lemma pop_found:
  assumes run: "check_expired clk db key = Inr (db1, False)" "entry_ptr db1 key = Inr (Some idx)"
      "entry_at db1 idx = Inr e" "obj e = OBJ_LIST vs"
    and g: "good (db_ht db1)" and d: "del_ok (db_ht db1) key" and f: "ht_find (db_ht db1) key = Some (Some idx)"
    and step: "vlist_step vs which = (vs', r)"
  shows "\<exists>db'. db_pop which clk db (Some key) = Inr (db', case r of None \<Rightarrow> None | Some v \<Rightarrow> v) \<and>
    db_view db' = (db_view db1)(key := if vs' = [] then None else Some (e\<lparr>obj := OBJ_LIST vs'\<rparr>))"
proof -
  let ?db2 = "write_entry db1 idx (e\<lparr>obj := OBJ_LIST vs'\<rparr>)"
  note w = dbt.write_view [OF g f, of "e\<lparr>obj := OBJ_LIST vs'\<rparr>"]
  have "ht_delete (db_ht ?db2) key = ht_delete (db_ht db1) key"
    using ht_delete_poke [OF goodD(1) [OF g] f] by (simp add: write_entry_def)
  with d have "del_ok (db_ht ?db2) key" by (simp add: del_ok_def)
  with w(1) obtain db' where "ht_remove ?db2 key = Inr (db', if db_view ?db2 key = None then 0 else 1)"
    "db_view db' = (db_view ?db2)(key := None)"
    by (rule dbt.remove_view)
  with w(2) run step show ?thesis by (cases "vs' = []") (auto simp: db_pop_def)
qed

text \<open>On a key that holds a list, or is missing, each of LPUSH, RPUSH, LPOP and RPOP does to the
  stored list what the deque operation does and answers the new length or the popped value; a missing
  key is created by a push, and the key disappears when its list becomes empty.\<close>

theorem db_list_ops_deque:
  assumes g: "good (db_ht db)" and now: "no_expired (db_now clk db) db key" and l: "key_list db key = Some vs"
    and d: "del_ok (db_ht db) key" and s: "db_view db key = None \<Longrightarrow> set_ok (db_ht db) key"
    and vs': "fst (vlist_step vs x) = vs'"
  shows "\<exists>db'. db_list_op clk db key x = Inr (db', list_reply vs x) \<and>
    db_view db' = (db_view db)(key := if vs' = [] then None
        else Some \<lparr>obj = OBJ_LIST vs', expire = key_expire db key\<rparr>)"
proof -
  have safe: "check_safe del_ok (db_now clk db) db key" using now by (simp add: check_safe_def)
  note run = db_lpush_def db_rpush_def db_lpop_def db_rpop_def get_or_create_list_def save_entry_def
    obj_create_list_def key_list_def key_expire_def list_reply_def
  show ?thesis
  proof (cases rule: dbt.lookup_cases [OF g safe])
    case (1 db1)
    with now show ?thesis by (simp add: no_expired_def)
  next
    case (2 db1)
    then have vs: "vs = []" using l by (simp add: key_list_def)
    from 2 s have ok: "set_ok (db_ht db1) key" by simp
    have put: "\<exists>db'. ht_put db1 key e = Inr db' \<and> db_view db' = (db_view db)(key \<mapsto> e)" for e
      by (rule dbt.put_view [OF 2(3) ok, of e]) (use 2 in auto)
    from put [of "\<lparr>obj = OBJ_LIST vs', expire = -1\<rparr>"] 2 vs vs' show ?thesis
      by (cases x) (auto simp: run db_pop_def fun_upd_idem)
  next
    case (3 db1 idx e)
    then have e: "obj e = OBJ_LIST vs" using l by (simp add: key_list_def split: dbobj.splits)
    have d1: "del_ok (db_ht db1) key" using d 3(5) by simp
    obtain r where step: "vlist_step vs x = (vs', r)" using vs' by (cases "vlist_step vs x") auto
    have e': "e\<lparr>obj := y\<rparr> = \<lparr>obj = y, expire = expire e\<rparr>" for y by (cases e) simp
    note pop = pop_found [OF 3(1-3) e 3(4) d1 3(10) step]
    show ?thesis
    proof (cases x)
      case (LPush v)
      with step dbt.write_view(2) [OF 3(4,10), of "e\<lparr>obj := OBJ_LIST vs'\<rparr>"] 3 e show ?thesis by (auto simp: run e')
    next
      case (RPush v)
      with step dbt.write_view(2) [OF 3(4,10), of "e\<lparr>obj := OBJ_LIST vs'\<rparr>"] 3 e show ?thesis by (auto simp: run e')
    next
      case LPop
      then have "(case r of None \<Rightarrow> None | Some v \<Rightarrow> v) = (if vs = [] then None else hd vs)"
        using step by (cases vs) auto
      with pop LPop 3(6,8) show ?thesis by (auto simp: run e')
    next
      case RPop
      then have "(case r of None \<Rightarrow> None | Some v \<Rightarrow> v) = (if vs = [] then None else last vs)"
        using step by (auto split: if_splits)
      with pop RPop 3(6,8) show ?thesis by (auto simp: run e')
    qed
  qed
qed

theorem db_list_ops_deque_witness:
  "\<exists>db'. db_list_op (\<lambda>n. 0) (sample_db \<lparr>obj = OBJ_LIST [Some ''x''], expire = 9\<rparr>) ''a'' LPop =
      Inr (db', Inr (Some ''x'')) \<and> db_view db' = Map.empty"
  using db_list_ops_deque [of "sample_db \<lparr>obj = OBJ_LIST [Some ''x''], expire = 9\<rparr>" "\<lambda>n. 0" "''a''" "[Some ''x'']" LPop]
  by (simp add: no_expired_def db_visible_def live_def db_now_def key_list_def list_reply_def)

text \<open>On a key that holds a string or a number the list operations change nothing: the pushes answer
  -1, but the pops answer NULL, as if the key were missing.\<close>

theorem db_list_ops_wrongtype:
  assumes "good (db_ht db)" "db_visible (db_now clk db) db key = Some e" "\<forall>vs. obj e \<noteq> OBJ_LIST vs"
  shows "\<exists>db'. db_list_op clk db key x =
      Inr (db', case x of LPop \<Rightarrow> Inr None | RPop \<Rightarrow> Inr None | _ \<Rightarrow> Inl (- 1)) \<and> db_view db' = db_view db"
proof -
  note run = db_lpush_def db_rpush_def db_lpop_def db_rpop_def db_pop_def get_or_create_list_def
  show ?thesis
    by (cases rule: dbt.lookup_cases [OF assms(1) visible_safe [OF assms(2)]]; cases x; cases "obj e")
      (use assms(2,3) in \<open>auto simp: run\<close>)
qed

theorem db_list_ops_wrongtype_witness:
  "\<exists>db'. db_list_op (\<lambda>n. 0) (sample_db \<lparr>obj = OBJ_INT 1, expire = -1\<rparr>) ''a'' LPop = Inr (db', Inr None) \<and>
     db_view db' = [''a'' \<mapsto> \<lparr>obj = OBJ_INT 1, expire = -1\<rparr>]"
  using db_list_ops_wrongtype [of "sample_db \<lparr>obj = OBJ_INT 1, expire = -1\<rparr>" "\<lambda>n. 0" "''a''"
      "\<lparr>obj = OBJ_INT 1, expire = -1\<rparr>" LPop]
  by (simp add: db_visible_def)

section \<open>The sweep\<close>

text \<open>What the sweep takes out of the table belongs to keys that the table held with an expired entry.\<close>

definition expired_keys :: "int \<Rightarrow> (string \<times> db_entry) multiset \<Rightarrow> (string \<times> db_entry) multiset \<Rightarrow> bool" where
  "expired_keys now B R \<longleftrightarrow> (\<forall>(k, e) \<in># R. \<exists>x. (k, x) \<in># B \<and> \<not> live now x)"

lemma sweep_loop_bag:
  assumes "wf_ht (db_ht db)"
  shows "\<exists>db' R. sweep_loop n now db index = Inr db' \<and> wf_ht (db_ht db') \<and>
    ht_bag (db_ht db) = ht_bag (db_ht db') + R \<and> size R \<le> n \<and> expired_keys now (ht_bag (db_ht db)) R"
  using assms
proof (induction n arbitrary: db index)
  case 0
  then show ?case by (simp add: expired_keys_def)
next
  case (Suc n)
  obtain i' p where iter: "ht_iter_next (db_ht db) index = (i', p)" by (cases "ht_iter_next (db_ht db) index")
  show ?case
  proof (cases p)
    case None
    with iter Suc.prems show ?thesis by (simp add: expired_keys_def)
  next
    case (Some s)
    with iter obtain k h e where e: "s < capacity (db_ht db)" "entries (db_ht db) ! s = HtOccupied k h e"
      by (auto elim: ht_iter_next_Some)
    have mem: "(k, e) \<in># ht_bag (db_ht db)"
      using e wf_htD(3) [OF Suc.prems] by (auto simp: ht_bag_def in_slots_bag)
    obtain ht' r where del: "ht_delete (db_ht db) k = Some (ht', r)" "wf_ht ht'"
      and eff: "r = 0 \<and> ht' = db_ht db \<or> (\<exists>v. add_mset (k, v) (ht_bag ht') = ht_bag (db_ht db))"
      using ht_delete_spec [OF Suc.prems, of k] by blast
    show ?thesis
    proof (cases "live now e")
      case True
      with Suc.IH [OF Suc.prems, of i'] iter Some e show ?thesis by (fastforce simp: live_def)
    next
      case False
      let ?db1 = "db\<lparr>db_ht := ht'\<rparr>"
      from Suc.IH [of ?db1 0] del(2) obtain db' R where
        R: "sweep_loop n now ?db1 0 = Inr db'" "wf_ht (db_ht db')" "ht_bag ht' = ht_bag (db_ht db') + R"
          "size R \<le> n" "expired_keys now (ht_bag ht') R" by auto
      have run: "sweep_loop (Suc n) now db index = Inr db'"
        using iter Some e del(1) R(1) False by (simp add: live_def ht_remove_def)
      from eff show ?thesis
      proof (elim conjE disjE exE)
        assume "ht' = db_ht db"
        with run R show ?thesis by (intro exI [of _ db'] exI [of _ R]) auto
      next
        fix v assume eq: "add_mset (k, v) (ht_bag ht') = ht_bag (db_ht db)"
        then have "expired_keys now (ht_bag (db_ht db)) (add_mset (k, v) R)"
          using R(5) mem False unfolding expired_keys_def eq [symmetric] by fastforce
        with run R eq show ?thesis by (intro exI [of _ db'] exI [of _ "add_mset (k, v) R"]) auto
      qed
    qed
  qed
qed

text \<open>On a table without cut probe paths an expired entry among those that the sweep looks at leads to a removal.\<close>

lemma sweep_loop_removes:
  assumes "good (db_ht db)"
  shows "\<exists>(k, e) \<in> set (take n (pairs_from (db_ht db) i)). \<not> live now e \<Longrightarrow> sweep_loop n now db i = Inr db' \<Longrightarrow>
    ht_bag (db_ht db') \<noteq> ht_bag (db_ht db)"
proof (induction n arbitrary: i)
  case (Suc n)
  obtain i' p where iter: "ht_iter_next (db_ht db) i = (i', p)" by (cases "ht_iter_next (db_ht db) i")
  show ?case
  proof (cases p)
    case None
    with iter pairs_from_next [of "db_ht db" i] Suc.prems(1) show ?thesis by simp
  next
    case (Some s)
    with iter pairs_from_next [of "db_ht db" i] obtain k h e where
      e: "entries (db_ht db) ! s = HtOccupied k h e" "pairs_from (db_ht db) i = (k, e) # pairs_from (db_ht db) i'" by auto
    have s: "s < capacity (db_ht db)" using iter Some by (auto elim: ht_iter_next_Some)
    show ?thesis
    proof (cases "live now e")
      case True
      have "\<exists>(k, e) \<in> set (take n (pairs_from (db_ht db) i')). \<not> live now e" using Suc.prems(1) e True by auto
      moreover have "sweep_loop n now db i' = Inr db'" using Suc.prems(2) iter Some e True by (simp add: live_def split: if_splits)
      ultimately show ?thesis by (rule Suc.IH)
    next
      case False
      obtain ht' r where del: "ht_delete (db_ht db) k = Some (ht', r)" "wf_ht ht'"
        and eff: "ht_find (db_ht db) k = Some None \<or> (\<exists>v. add_mset (k, v) (ht_bag ht') = ht_bag (db_ht db))"
        using ht_delete_spec [OF goodD(1) [OF assms], of k] by blast
      have "(k, e) \<in># ht_bag (db_ht db)" using e s goodD(4) [OF assms] by (auto simp: ht_bag_def in_slots_bag)
      then have "ht_map (db_ht db) k = Some e" using ht_map_bag [OF goodD(2) [OF assms]] by simp
      with eff ht_map_None_iff [OF assms, of k] obtain v where v: "add_mset (k, v) (ht_bag ht') = ht_bag (db_ht db)" by auto
      have "sweep_loop n now (db\<lparr>db_ht := ht'\<rparr>) 0 = Inr db'"
        using Suc.prems(2) iter Some e del(1) False by (simp add: live_def ht_remove_def)
      with sweep_loop_bag [of "db\<lparr>db_ht := ht'\<rparr>" n now 0] del(2) obtain R where "ht_bag ht' = ht_bag (db_ht db') + R" by auto
      with v have "size (ht_bag (db_ht db)) = Suc (size (ht_bag (db_ht db')) + size R)" by (metis size_add_mset size_union)
      then show ?thesis by auto
    qed
  qed
qed simp

text \<open>C30: the periodic sweep on any well-formed table returns, keeps the table well formed and takes at most 20 entries
  out of it. Each of them belongs to a key of which the table held an expired entry (of which the expiry time lies
  before the reading of the clock that the sweep starts with); so a key that is stored once and has not expired is never
  removed. A key that is stored twice can lose its live entry (\<open>Duplicate_Keys\<close>). And if 100 ms have
  passed since the last sweep, no probe path is cut (\<open>good\<close>), and one of the first 20 entries in slot order has expired,
  something is removed.\<close>

theorem db_sweep_removes_only_expired:
  assumes "wf_ht (db_ht db)" "in_int64 (db_now clk db - last_expire_sweep db)"
  shows "\<exists>db' R. db_expire_sweep clk db = Inr db' \<and> wf_ht (db_ht db') \<and>
    ht_bag (db_ht db) = ht_bag (db_ht db') + R \<and> size R \<le> 20 \<and>
    (\<forall>(k, e) \<in># R. \<exists>x. (k, x) \<in># ht_bag (db_ht db) \<and> \<not> live (db_now clk db) x) \<and>
    (good (db_ht db) \<and> 100 \<le> db_now clk db - last_expire_sweep db \<and>
       (\<exists>(k, e) \<in> set (take 20 (pairs_from (db_ht db) 0)). \<not> live (db_now clk db) e) \<longrightarrow> R \<noteq> {#})"
proof -
  let ?now = "db_now clk db"
  let ?db2 = "db\<lparr>db_ticks := Suc (db_ticks db), last_expire_sweep := ?now\<rparr>"
  let ?due = "good (db_ht db) \<and> 100 \<le> ?now - last_expire_sweep db \<and>
       (\<exists>(k, e) \<in> set (take 20 (pairs_from (db_ht db) 0)). \<not> live ?now e)"
  have run: "db_expire_sweep clk db =
      (if ?now - last_expire_sweep db < 100 then Inr (db\<lparr>db_ticks := Suc (db_ticks db)\<rparr>)
       else if ht_size (db_ht db) = 0 then Inr ?db2 else sweep_loop 20 ?now ?db2 0)"
    using assms(2) by (simp add: db_expire_sweep_def imdb_mstime_def db_now_def Let_def int64_def
        EXPIRE_SWEEP_INTERVAL_def EXPIRE_SWEEP_SAMPLES_def)
  obtain db' R where sweep: "sweep_loop 20 ?now ?db2 0 = Inr db'" "wf_ht (db_ht db')"
      "ht_bag (db_ht db) = ht_bag (db_ht db') + R" "size R \<le> 20" "expired_keys ?now (ht_bag (db_ht db)) R"
    using sweep_loop_bag [of ?db2 20 ?now 0] assms(1) by auto
  have due: "R \<noteq> {#}" if ?due
    using sweep_loop_removes [of ?db2 20 0 ?now db'] that sweep(1,3) by auto
  have empty: "\<not> ?due" if "ht_size (db_ht db) = 0"
  proof -
    have "size (ht_bag (db_ht db)) = 0" using that wf_htD(4) [OF assms(1)] by (simp add: ht_size_def ht_bag_def size_slots_bag)
    then have "pairs_from (db_ht db) 0 = []" using mset_pairs_from [OF wf_htD(3) [OF assms(1)]] by simp
    then show ?thesis by simp
  qed
  consider "db_expire_sweep clk db = sweep_loop 20 ?now ?db2 0"
    | db1 where "db_expire_sweep clk db = Inr db1" "db_ht db1 = db_ht db" "\<not> ?due"
    unfolding run using empty by (cases "?now - last_expire_sweep db < 100"; cases "ht_size (db_ht db) = 0") auto
  then show ?thesis
  proof cases
    case 1
    show ?thesis unfolding 1 using sweep due unfolding expired_keys_def by (intro exI [of _ db'] exI [of _ R]) auto
  next
    case 2
    with assms(1) show ?thesis by (intro exI [of _ db1] exI [of _ "{#}"]) auto
  qed
qed

theorem db_sweep_removes_only_expired_witness:
  "\<exists>db' R. db_expire_sweep (\<lambda>n. 500) (sample_db \<lparr>obj = OBJ_INT 1, expire = 5\<rparr>) = Inr db' \<and> wf_ht (db_ht db') \<and>
    ht_bag (db_ht (sample_db \<lparr>obj = OBJ_INT 1, expire = 5\<rparr>)) = ht_bag (db_ht db') + R \<and> size R \<le> 20 \<and> R \<noteq> {#}"
proof -
  let ?db = "sample_db \<lparr>obj = OBJ_INT 1, expire = 5\<rparr>"
  from db_sweep_removes_only_expired [of ?db "\<lambda>n. 500", OF goodD(1)] show ?thesis
    by (auto simp: db_now_def live_def in_int64_def INT64_MIN_def INT64_MAX_def sample_db_pairs)
qed

lemma sweep_loop_idle:
  "\<forall>(k, e) \<in> set (take n (pairs_from (db_ht db) i)). live now e \<Longrightarrow> sweep_loop n now db i = Inr db"
proof (induction n arbitrary: i)
  case (Suc n)
  obtain i' p where iter: "ht_iter_next (db_ht db) i = (i', p)" by (cases "ht_iter_next (db_ht db) i")
  show ?case
  proof (cases p)
    case (Some s)
    with iter pairs_from_next [of "db_ht db" i] obtain k h v where
      v: "entries (db_ht db) ! s = HtOccupied k h v" "pairs_from (db_ht db) i = (k, v) # pairs_from (db_ht db) i'" by auto
    with Suc have "live now v" "sweep_loop n now db i' = Inr db" by auto
    with Some iter v show ?thesis by (auto simp: live_def)
  qed (simp add: iter)
qed simp

text \<open>The sweep samples nothing at random: it looks at the first 20 entries in slot order, and as
  long as these have not expired it removes no key, however many expired ones the table holds further
  on.\<close>

theorem db_sweep_first_entries_only:
  assumes "\<forall>(k, e) \<in> set (take 20 (pairs_from (db_ht db) 0)). live (db_now clk db) e"
    and "in_int64 (db_now clk db - last_expire_sweep db)"
  shows "\<exists>db'. db_expire_sweep clk db = Inr db' \<and> db_ht db' = db_ht db"
  using assms sweep_loop_idle [of 20 "db\<lparr>db_ticks := Suc (db_ticks db), last_expire_sweep := db_now clk db\<rparr>" 0 "db_now clk db"]
  by (simp add: db_expire_sweep_def imdb_mstime_def db_now_def Let_def int64_def EXPIRE_SWEEP_SAMPLES_def)

theorem db_sweep_first_entries_only_witness:
  "\<exists>db'. db_expire_sweep (\<lambda>n. 500) empty_db = Inr db' \<and> db_ht db' = db_ht empty_db"
proof -
  have "pairs_from (empty_table 64 :: db_entry hashtable) 0 = []" by (simp add: pairs_from_def empty_table_def)
  then show ?thesis
    using db_sweep_first_entries_only [of empty_db "\<lambda>n. 500"]
    by (simp add: empty_db_def db_now_def in_int64_def INT64_MIN_def INT64_MAX_def)
qed

end
