(* ===== verification/Persist_Props.thy ===== *)
theory Persist_Props
  imports Persist Database_Props
begin

text \<open>
  The dump file: the bytes a save writes, the round trip through a load, what a failed save leaves on
  the disk, and that a load of any file keeps the database well formed.
\<close>

section \<open>Numbers and strings\<close>

lemma length_bytes_le [simp]: "length (bytes_le n k) = n"
  by (induction n arbitrary: k) auto

lemma of_bytes_le: "of_bytes (bytes_le n k) = k mod 256 ^ n"
proof (induction n arbitrary: k)
  case (Suc n)
  have "k mod 256 ^ Suc n = k mod 256 + 256 * (k div 256 mod 256 ^ n)"
    by (simp add: mod_mult2_eq)
  with Suc show ?case by simp
qed simp

lemma fread_exact: "length bs = n \<Longrightarrow> fread n (bs @ r) = (Some bs, r)"
  by (auto simp: fread_def)

lemma read_write_uint32: "read_uint32 (bytes_le 4 (unat w) @ r) = (Some w, r)"
proof -
  have "unat w < 2 ^ 32" using unsigned_less [where w = w and 'a = nat] by simp
  then have "unat w mod 256 ^ 4 = unat w" by simp
  then show ?thesis by (simp add: read_uint32_def fread_exact of_bytes_le del: power_numeral)
qed

lemma read_write_int64:
  assumes "in_int64 v"
  shows "read_int64 (bytes_le 8 (nat (v mod 2 ^ 64)) @ r) = (Some v, r)"
proof -
  have "of_bytes (bytes_le 8 (nat (v mod 2 ^ 64))) = nat (v mod 2 ^ 64)"
    by (simp add: of_bytes_le)
  moreover have "(v mod 2 ^ 64 < 2 ^ 63 \<longrightarrow> v mod 2 ^ 64 = v) \<and> (\<not> v mod 2 ^ 64 < 2 ^ 63 \<longrightarrow> v mod 2 ^ 64 - 2 ^ 64 = v)"
  proof (cases "v < 0")
    case True
    have "v mod 2 ^ 64 = (v + 2 ^ 64) mod 2 ^ 64" by (rule mod_add_self2 [symmetric])
    also have "\<dots> = v + 2 ^ 64"
      by (rule mod_pos_pos_trivial) (use True assms in \<open>simp_all add: in_int64_def INT64_MIN_def\<close>)
    finally show ?thesis using assms by (simp add: in_int64_def INT64_MIN_def)
  next
    case False
    then have "v mod 2 ^ 64 = v"
      by (intro mod_pos_pos_trivial) (use assms in \<open>simp_all add: in_int64_def INT64_MAX_def\<close>)
    then show ?thesis using assms by (simp add: in_int64_def INT64_MAX_def)
  qed
  ultimately show ?thesis by (simp add: read_int64_def fread_exact Let_def)
qed

text \<open>The bytes of a string, of a value, of an entry and of a dump. Lengths are cut to 32 bits.\<close>

definition enc_str :: "string \<Rightarrow> string" where
  "enc_str s = bytes_le 4 (unat (of_nat (length s) :: 32 word)) @ take (unat (of_nat (length s) :: 32 word)) s"

definition text_of :: "cstr \<Rightarrow> string" where
  "text_of p = (case p of None \<Rightarrow> [] | Some s \<Rightarrow> s)"

definition enc_obj :: "dbobj \<Rightarrow> string" where
  "enc_obj x = (case x of
     OBJ_STRING s \<Rightarrow> enc_str (text_of s)
   | OBJ_INT n \<Rightarrow> bytes_le 8 (nat (n mod 2 ^ 64))
   | OBJ_LIST vs \<Rightarrow> bytes_le 4 (unat (of_nat (length vs) :: 32 word)) @ concat (map (enc_str \<circ> text_of) vs))"

definition enc_entry :: "string \<times> db_entry \<Rightarrow> string" where
  "enc_entry ke = (case ke of (k, e) \<Rightarrow>
     char_of (rdb_type (obj e)) # bytes_le 8 (nat (expire e mod 2 ^ 64)) @ enc_str k @ enc_obj (obj e))"

definition dump_of :: "db_entry hashtable \<Rightarrow> string" where
  "dump_of ht = RDB_MAGIC @ concat (map enc_entry (pairs_from ht 0)) @ [char_of RDB_EOF]"

section \<open>A save is one write\<close>

text \<open>A sequence of writes succeeds and leaves the same file as one write of all the bytes.\<close>

lemma fwrite_Nil [simp]: "fwrite f [] = Some f"
  by (simp add: fwrite_def)

lemma fwrite_append: "Option.bind (fwrite f a) (\<lambda>f1. fwrite f1 b) = fwrite f (a @ b)"
  by (auto simp: fwrite_def)

lemma bindW_fwrite: "(\<And>f1. k f1 = Inr (fwrite f1 b)) \<Longrightarrow> bindW (Inr (fwrite f a)) k = Inr (fwrite f (a @ b))"
  using fwrite_append [of f a b] by (cases "fwrite f a") (auto simp: bindW_def)

lemma write_cstr_bytes: "write_cstr f (Some s) = Inr (fwrite f (enc_str s))"
proof (cases "(of_nat (length s) :: 32 word) > 0")
  case True
  then show ?thesis by (simp add: write_cstr_def write_string_def write_uint32_def enc_str_def fwrite_append)
next
  case False
  then have "(of_nat (length s) :: 32 word) = 0" by (simp add: word_gt_0)
  then show ?thesis
    by (cases "fwrite f (bytes_le 4 0)") (simp_all add: write_cstr_def write_string_def write_uint32_def enc_str_def)
qed

lemma write_nodes_bytes:
  "\<forall>v \<in> set vs. v \<noteq> None \<Longrightarrow> write_nodes f vs = Inr (fwrite f (concat (map (enc_str \<circ> text_of) vs)))"
proof (induction vs arbitrary: f)
  case (Cons v vs)
  then obtain s where "v = Some s" by auto
  with Cons show ?case by (simp add: write_cstr_bytes text_of_def) (rule bindW_fwrite, simp)
qed simp

lemma write_value_bytes: "obj_ok x \<Longrightarrow> write_value_data f x = Inr (fwrite f (enc_obj x))"
proof (cases x)
  case (OBJ_LIST vs)
  moreover assume "obj_ok x"
  ultimately have "\<forall>v \<in> set vs. v \<noteq> None" by auto
  with OBJ_LIST show ?thesis
    by (simp add: write_value_data_def enc_obj_def write_uint32_def) (rule bindW_fwrite, simp add: write_nodes_bytes)
next
  case (OBJ_STRING s)
  moreover assume "obj_ok x"
  ultimately show ?thesis by (cases s) (auto simp: write_value_data_def enc_obj_def text_of_def write_cstr_bytes)
qed (simp add: write_value_data_def enc_obj_def write_int64_def)

lemma write_entry_bytes: "obj_ok (obj e) \<Longrightarrow> write_dump_entry f k e = Inr (fwrite f (enc_entry (k, e)))"
proof -
  assume "obj_ok (obj e)"
  then have "write_dump_entry f k e = Inr (fwrite f ([char_of (rdb_type (obj e))] @
      bytes_le 8 (nat (expire e mod 2 ^ 64)) @ enc_str k @ enc_obj (obj e)))"
    unfolding write_dump_entry_def write_int64_def
    by (intro bindW_fwrite) (simp add: write_cstr_bytes, intro bindW_fwrite, simp add: write_value_bytes)
  then show ?thesis by (simp add: enc_entry_def)
qed

lemma write_entries_bytes:
  assumes "\<forall>(k, e) \<in> set (pairs_from ht i). obj_ok (obj e)"
  shows "write_entries f ht i = Inr (fwrite f (concat (map enc_entry (pairs_from ht i))))"
  using assms
proof (induction f ht i rule: write_entries.induct)
  case (1 f ht i)
  obtain i' p where iter: "ht_iter_next ht i = (i', p)" by (cases "ht_iter_next ht i")
  show ?case
  proof (cases p)
    case None
    with iter pairs_from_next [of ht i] show ?thesis by (simp add: write_entries.simps [of f ht i])
  next
    case (Some s)
    with iter pairs_from_next [of ht i] obtain k h e where
      e: "entries ht ! s = HtOccupied k h e" "pairs_from ht i = (k, e) # pairs_from ht i'" by auto
    have "write_entries f1 ht i' = Inr (fwrite f1 (concat (map enc_entry (pairs_from ht i'))))" for f1
      using "1.IH" [OF iter [symmetric] Some e(1)] "1.prems" e(2) by simp
    moreover have "write_dump_entry f k e = Inr (fwrite f (enc_entry (k, e)))"
      using "1.prems" e(2) by (simp add: write_entry_bytes)
    ultimately show ?thesis
      using iter Some e by (simp add: write_entries.simps [of f ht i]) (rule bindW_fwrite, simp)
  qed
qed

lemma db_ok_pairs: "db_ok db \<Longrightarrow> (k, e) \<in> set (pairs_from (db_ht db) 0) \<Longrightarrow> cstr_ok k \<and> entry_ok e"
proof -
  assume ok: "db_ok db" and m: "(k, e) \<in> set (pairs_from (db_ht db) 0)"
  have "mset (pairs_from (db_ht db) 0) = ht_bag (db_ht db)"
    using wf_htD(3) [OF db_ok_wf [OF ok]] by (rule mset_pairs_from)
  with m have "(k, e) \<in># ht_bag (db_ht db)" by (metis set_mset_mset)
  with ok show ?thesis by (simp add: db_ok_def ht_all_def)
qed

lemma persist_save_bytes:
  assumes "db_ok db" and tmp: "tmp_name filename \<noteq> filename"
  shows "persist_save env db d filename =
    (if \<not> io_open env then Inr (d, -1)
     else if length (dump_of (db_ht db)) \<le> io_room env
     then (if io_rename env then Inr (d(tmp_name filename := None, filename \<mapsto> dump_of (db_ht db)), 0)
           else Inr (d(tmp_name filename := None, filename := None), -1))
     else Inr (d(tmp_name filename := None), -1))"
proof -
  have "write_entries f (db_ht db) 0 = Inr (fwrite f (concat (map enc_entry (pairs_from (db_ht db) 0))))" for f
    by (rule write_entries_bytes) (use db_ok_pairs [OF assms(1)] in \<open>auto simp: entry_ok_def\<close>)
  then have run: "bindW (Inr (fwrite f RDB_MAGIC)) (\<lambda>f1. bindW (write_entries f1 (db_ht db) 0) (\<lambda>f2.
      Inr (fwrite f2 [char_of RDB_EOF]))) = Inr (fwrite f (dump_of (db_ht db)))" for f
    unfolding dump_of_def by (intro bindW_fwrite) (simp, rule bindW_fwrite, simp)
  show ?thesis
    unfolding persist_save_def Let_def run using tmp by (simp add: fwrite_def fun_upd_twist)
qed

section \<open>Reading back what was saved\<close>

text \<open>Entries whose lengths fit the 32-bit fields (the largest length is the one \<open>read_string\<close> cannot
  hold).\<close>

definition str_fits :: "string \<Rightarrow> bool" where
  "str_fits s \<longleftrightarrow> cstr_ok s \<and> length s < 2 ^ 32 - 1"

fun obj_fits :: "dbobj \<Rightarrow> bool" where
  "obj_fits (OBJ_STRING p) = (\<exists>s. p = Some s \<and> str_fits s)"
| "obj_fits (OBJ_INT n) = in_int64 n"
| "obj_fits (OBJ_LIST vs) = (length vs < 2 ^ 32 \<and> (\<forall>v \<in> set vs. \<exists>s. v = Some s \<and> str_fits s))"

definition entry_fits :: "string \<times> db_entry \<Rightarrow> bool" where
  "entry_fits ke \<longleftrightarrow> str_fits (fst ke) \<and> obj_fits (obj (snd ke)) \<and> in_int64 (expire (snd ke))"

lemma unat_of_nat_small: "n < 2 ^ 32 \<Longrightarrow> unat (of_nat n :: 32 word) = n"
  by (simp add: unat_of_nat)

lemma read_string_enc:
  assumes "str_fits s"
  shows "read_string (enc_str s @ r) = Inr (Some s, r)"
proof -
  let ?n = "of_nat (length s) :: 32 word"
  have len: "length s < 2 ^ 32 - 1" and ok: "cstr_ok s" using assms by (auto simp: str_fits_def)
  then have n: "unat ?n = length s" by (intro unat_of_nat_small) simp
  have "\<not> 2 ^ LENGTH(32) dvd Suc (length s)" using len by (auto dest!: dvd_imp_le)
  then have "(of_nat (Suc (length s)) :: 32 word) \<noteq> 0" unfolding word_of_nat_eq_0_iff .
  then have nz: "?n + 1 \<noteq> 0" by (simp add: add.commute)
  have "takeWhile (\<lambda>c. c \<noteq> NUL) s = s" using ok by (auto simp: cstr_ok_def)
  moreover have "?n > 0 \<longleftrightarrow> s \<noteq> []" using n by (auto simp: word_gt_0 unat_eq_0 [symmetric])
  moreover have "read_uint32 (enc_str s @ r) = (Some ?n, s @ r)"
    using read_write_uint32 [of ?n "s @ r"] n by (simp add: enc_str_def)
  ultimately show ?thesis using nz n by (auto simp: read_string_def fread_exact)
qed

lemma read_strings_enc:
  "\<forall>v \<in> set vs. \<exists>s. v = Some s \<and> str_fits s \<Longrightarrow>
   read_strings (length vs) (concat (map (enc_str \<circ> text_of) vs) @ r) acc = Inr (acc @ vs, r)"
proof (induction vs arbitrary: acc)
  case (Cons v vs)
  then obtain s where "v = Some s" "str_fits s" by auto
  with Cons read_string_enc [of s] show ?case by (simp add: text_of_def imdb_strdup_def)
qed simp

lemma skip_strings_enc:
  "\<forall>v \<in> set vs. \<exists>s. v = Some s \<and> str_fits s \<Longrightarrow>
   skip_strings (length vs) (concat (map (enc_str \<circ> text_of) vs) @ r) = Inr r"
proof (induction vs)
  case (Cons v vs)
  then obtain s where "v = Some s" "str_fits s" by auto
  with Cons read_string_enc [of s] show ?case by (simp add: text_of_def)
qed simp

lemmas rdb_types = RDB_TYPE_STRING_def RDB_TYPE_INT_def RDB_TYPE_LIST_def RDB_EOF_def rdb_type_def

lemma read_value_enc:
  assumes "obj_fits x"
  shows "read_value (rdb_type x) (enc_obj x @ r) = Inr (Some x, r)"
    and "skip_value (rdb_type x) (enc_obj x @ r) = Inr r"
proof -
  have "read_value (rdb_type x) (enc_obj x @ r) = Inr (Some x, r) \<and> skip_value (rdb_type x) (enc_obj x @ r) = Inr r"
  proof (cases x)
    case (OBJ_STRING p)
    with assms obtain s where "p = Some s" "str_fits s" by auto
    with OBJ_STRING read_string_enc [of s r] show ?thesis
      by (simp add: read_value_def skip_value_def rdb_types enc_obj_def text_of_def obj_create_string_def imdb_strdup_def)
  next
    case (OBJ_INT n)
    with assms read_write_int64 [of n r] show ?thesis
      by (simp add: read_value_def skip_value_def rdb_types enc_obj_def obj_create_int_def)
  next
    case (OBJ_LIST vs)
    let ?n = "of_nat (length vs) :: 32 word" and ?body = "concat (map (enc_str \<circ> text_of) vs)"
    have vs: "length vs < 2 ^ 32" "\<forall>v \<in> set vs. \<exists>s. v = Some s \<and> str_fits s" using assms OBJ_LIST by auto
    have "read_uint32 (bytes_le 4 (unat ?n) @ ?body @ r) = (Some ?n, ?body @ r)" by (rule read_write_uint32)
    moreover have "unat ?n = length vs" by (rule unat_of_nat_small [OF vs(1)])
    ultimately show ?thesis
      using read_strings_enc [OF vs(2), of r "[]"] skip_strings_enc [OF vs(2), of r] OBJ_LIST
      by (simp add: read_value_def skip_value_def rdb_types enc_obj_def)
  qed
  then show "read_value (rdb_type x) (enc_obj x @ r) = Inr (Some x, r)"
    and "skip_value (rdb_type x) (enc_obj x @ r) = Inr r" by auto
qed

lemma rdb_type_char: "of_char (char_of (rdb_type x) :: char) = rdb_type x" "rdb_type x \<noteq> RDB_EOF"
  by (cases x; simp add: rdb_types)+

text \<open>One round of the load loop on an entry that was saved.\<close>

lemma load_entry_saved:
  assumes "entry_fits (k, e)"
  shows "load_entry clk db (rdb_type (obj e)) (tl (enc_entry (k, e)) @ r) =
    (if live (db_now clk db) e
     then bindR (ht_put (db\<lparr>db_ticks := (if expire e \<ge> 0 then Suc (db_ticks db) else db_ticks db)\<rparr>) k e)
            (\<lambda>db2. Inr (db2, Some (r, 1)))
     else Inr (db\<lparr>db_ticks := Suc (db_ticks db)\<rparr>, Some (r, 0)))"
proof -
  have k: "str_fits k" and x: "obj_fits (obj e)" and at: "in_int64 (expire e)"
    using assms by (simp_all add: entry_fits_def)
  have e: "\<lparr>obj = obj e, expire = expire e\<rparr> = e" by simp
  note reads = read_write_int64 [OF at, of "enc_str k @ enc_obj (obj e) @ r"]
    read_string_enc [OF k, of "enc_obj (obj e) @ r"] read_value_enc [OF x, of r]
  have "load_entry clk db (rdb_type (obj e)) (bytes_le 8 (nat (expire e mod 2 ^ 64)) @ enc_str k @ enc_obj (obj e) @ r) =
    (if live (db_now clk db) e
     then bindR (ht_put (db\<lparr>db_ticks := (if expire e \<ge> 0 then Suc (db_ticks db) else db_ticks db)\<rparr>) k e)
            (\<lambda>db2. Inr (db2, Some (r, 1)))
     else Inr (db\<lparr>db_ticks := Suc (db_ticks db)\<rparr>, Some (r, 0)))"
    unfolding load_entry_def Let_def reads
    by (cases "expire e \<ge> 0") (auto simp: reads live_def db_now_def imdb_mstime_def e)
  then show ?thesis by (simp add: enc_entry_def)
qed

lemma load_entries_step:
  assumes "entry_fits (k, e)"
  shows "load_entries clk db (enc_entry (k, e) @ r) n =
    (if live (db_now clk db) e
     then bindR (ht_put (db\<lparr>db_ticks := (if expire e \<ge> 0 then Suc (db_ticks db) else db_ticks db)\<rparr>) k e)
            (\<lambda>db2. load_entries clk db2 r (n + 1))
     else load_entries clk (db\<lparr>db_ticks := Suc (db_ticks db)\<rparr>) r n)"
proof -
  have "enc_entry (k, e) @ r = char_of (rdb_type (obj e)) # tl (enc_entry (k, e)) @ r" by (simp add: enc_entry_def)
  then have "load_entries clk db (enc_entry (k, e) @ r) n =
      bindR (load_entry clk db (rdb_type (obj e)) (tl (enc_entry (k, e)) @ r)) (\<lambda>(db1, more).
        case more of None \<Rightarrow> Inr (db1, n) | Some (r, m) \<Rightarrow> load_entries clk db1 r (n + m))"
    by (simp only: load_entries.simps(2) rdb_type_char if_False)
  then show ?thesis
    unfolding load_entry_saved [OF assms]
    by (cases "ht_put (db\<lparr>db_ticks := (if expire e \<ge> 0 then Suc (db_ticks db) else db_ticks db)\<rparr>) k e") auto
qed

text \<open>
  The whole loop on entries that were saved. Every binding loaded is a live one of the file, and every key with
  a live one is loaded; when a key is in the file more than once, a later binding replaces an earlier one.
\<close>

definition loaded_from :: "int \<Rightarrow> (string \<times> db_entry) list \<Rightarrow> (string \<times> db_entry) multiset \<Rightarrow> (string \<times> db_entry) multiset \<Rightarrow> bool" where
  "loaded_from now kvs B B' \<longleftrightarrow>
     set_mset B' \<subseteq> set_mset B \<union> {ke \<in> set kvs. live now (snd ke)} \<and>
     fst ` set_mset B' = fst ` (set_mset B \<union> {ke \<in> set kvs. live now (snd ke)}) \<and>
     (distinct (map fst kvs) \<and> fst ` set_mset B \<inter> fst ` set kvs = {} \<longrightarrow>
        B' = B + filter_mset (\<lambda>ke. live now (snd ke)) (mset kvs))"

lemma loaded_from_skip: "\<not> live now e \<Longrightarrow> loaded_from now kvs B B' \<Longrightarrow> loaded_from now ((k, e) # kvs) B B'"
  by (auto simp: loaded_from_def)

lemma loaded_from_put:
  assumes live: "live now e" and rest: "loaded_from now kvs B1 B'"
    and ins: "inserted k B (k, e) B1 r" and apart: "\<forall>(k', x) \<in># B. ht_hash k' = ht_hash k \<longrightarrow> k' = k"
  shows "loaded_from now ((k, e) # kvs) B B'"
proof -
  note keys = inserted_keys [OF ins apart]
  have "B1 = add_mset (k, e) B" if "k \<notin> fst ` set_mset B"
  proof (rule inserted_fresh(2) [OF ins])
    fix k' x assume "(k', x) \<in># B"
    with apart that show "ht_hash k' \<noteq> ht_hash k" by force
  qed
  then have once: "distinct (map fst ((k, e) # kvs)) \<and> fst ` set_mset B \<inter> fst ` set ((k, e) # kvs) = {} \<Longrightarrow>
      B' = B + filter_mset (\<lambda>ke. live now (snd ke)) (mset ((k, e) # kvs))"
    using rest live keys(2) unfolding loaded_from_def by simp
  have "set_mset B' \<subseteq> set_mset B1 \<union> {ke \<in> set kvs. live now (snd ke)}"
    "fst ` set_mset B' = fst ` set_mset B1 \<union> fst ` {ke \<in> set kvs. live now (snd ke)}"
    using rest by (simp_all add: loaded_from_def image_Un)
  moreover have "{ke \<in> set ((k, e) # kvs). live now (snd ke)} = insert (k, e) {ke \<in> set kvs. live now (snd ke)}"
    using live by auto
  ultimately show ?thesis
    unfolding loaded_from_def using keys once by (simp add: image_Un) blast
qed

lemma load_entries_saved:
  assumes "wf_ht (db_ht db)" "\<forall>ke \<in> set kvs. entry_fits ke"
    and "inj_on ht_hash (fst ` (set_mset (ht_bag (db_ht db)) \<union> set kvs))"
    and now: "\<And>n. clk n = now"
  shows "\<exists>db' m. load_entries clk db (concat (map enc_entry kvs) @ [char_of RDB_EOF]) n = Inr (db', m) \<and>
    wf_ht (db_ht db') \<and> loaded_from now kvs (ht_bag (db_ht db)) (ht_bag (db_ht db'))"
  using assms(1-3)
proof (induction kvs arbitrary: db n)
  case Nil
  then show ?case by (simp add: load_entries.simps RDB_EOF_def loaded_from_def)
next
  case (Cons ke kvs)
  obtain k e where ke: "ke = (k, e)" by (cases ke)
  have step: "load_entries clk db (concat (map enc_entry (ke # kvs)) @ [char_of RDB_EOF]) n =
    (if live now e
     then bindR (ht_put (db\<lparr>db_ticks := (if expire e \<ge> 0 then Suc (db_ticks db) else db_ticks db)\<rparr>) k e)
            (\<lambda>db2. load_entries clk db2 (concat (map enc_entry kvs) @ [char_of RDB_EOF]) (n + 1))
     else load_entries clk (db\<lparr>db_ticks := Suc (db_ticks db)\<rparr>) (concat (map enc_entry kvs) @ [char_of RDB_EOF]) n)"
    using load_entries_step [of k e clk db "concat (map enc_entry kvs) @ [char_of RDB_EOF]" n] Cons.prems(2)
    by (simp add: ke db_now_def now)
  show ?case
  proof (cases "live now e")
    case False
    have "\<exists>db' m. load_entries clk (db\<lparr>db_ticks := Suc (db_ticks db)\<rparr>) (concat (map enc_entry kvs) @ [char_of RDB_EOF]) n
        = Inr (db', m) \<and> wf_ht (db_ht db') \<and>
        loaded_from now kvs (ht_bag (db_ht (db\<lparr>db_ticks := Suc (db_ticks db)\<rparr>))) (ht_bag (db_ht db'))"
      by (rule Cons.IH) (use Cons.prems in \<open>auto elim: inj_on_subset\<close>)
    with step False ke loaded_from_skip [OF False] show ?thesis by auto
  next
    case True
    define db1 where "db1 = db\<lparr>db_ticks := (if expire e \<ge> 0 then Suc (db_ticks db) else db_ticks db)\<rparr>"
    obtain ht' r where set: "ht_set (db_ht db) k e = Some (ht', r)" "wf_ht ht'" "inserted k (ht_bag (db_ht db)) (k, e) (ht_bag ht') r"
      using ht_set_spec [OF Cons.prems(1), of k e] by auto
    have apart: "\<forall>(k', x) \<in># ht_bag (db_ht db). ht_hash k' = ht_hash k \<longrightarrow> k' = k"
      using Cons.prems(3) ke by (force simp: inj_on_def)
    let ?db2 = "db1\<lparr>db_ht := ht'\<rparr>"
    have put: "ht_put db1 k e = Inr ?db2" using set(1) by (simp add: ht_put_def db1_def)
    have "fst ` (set_mset (ht_bag ht') \<union> set kvs) \<subseteq> fst ` (set_mset (ht_bag (db_ht db)) \<union> set (ke # kvs))"
      using inserted_keys(2) [OF set(3) apart] ke by auto
    then have "inj_on ht_hash (fst ` (set_mset (ht_bag ht') \<union> set kvs))" by (rule inj_on_subset [OF Cons.prems(3)])
    then have "\<exists>db' m. load_entries clk ?db2 (concat (map enc_entry kvs) @ [char_of RDB_EOF]) (n + 1) = Inr (db', m) \<and>
        wf_ht (db_ht db') \<and> loaded_from now kvs (ht_bag (db_ht ?db2)) (ht_bag (db_ht db'))"
      by (intro Cons.IH) (use Cons.prems set(2) in auto)
    then obtain db' m where "load_entries clk ?db2 (concat (map enc_entry kvs) @ [char_of RDB_EOF]) (n + 1) = Inr (db', m)"
        "wf_ht (db_ht db')" "loaded_from now kvs (ht_bag ht') (ht_bag (db_ht db'))" by auto
    with step True put loaded_from_put [OF True _ set(3) apart] ke show ?thesis by (auto simp: db1_def [symmetric])
  qed
qed

section \<open>Any file\<close>

lemma read_string_ok: "res_ok {OutOfBounds} (\<lambda>(p, r). \<forall>s. p = Some s \<longrightarrow> cstr_ok s) (read_string rest)"
  by (auto simp: read_string_def cstr_ok_def split: prod.split option.split dest: set_takeWhileD)

lemma skip_strings_ok: "res_ok {OutOfBounds} (\<lambda>r. True) (skip_strings n rest)"
proof (induction n arbitrary: rest)
  case (Suc n)
  show ?case unfolding skip_strings.simps
    by (rule res_ok_bind [OF read_string_ok]) (use Suc in auto)
qed simp

lemma skip_value_ok: "res_ok {OutOfBounds} (\<lambda>r. True) (skip_value ty rest)"
  by (auto simp: skip_value_def skip_strings_ok split: prod.split option.split
      intro!: res_ok_bind [OF read_string_ok])

lemma read_strings_ok:
  "\<forall>v \<in> set vs. \<exists>s. v = Some s \<and> cstr_ok s \<Longrightarrow>
   res_ok {OutOfBounds} (\<lambda>(ws, r). \<forall>v \<in> set ws. \<exists>s. v = Some s \<and> cstr_ok s) (read_strings n rest vs)"
proof (induction n arbitrary: rest vs)
  case (Suc n)
  show ?case unfolding read_strings.simps
    by (rule res_ok_bind [OF read_string_ok])
       (use Suc in \<open>auto simp: imdb_strdup_def split: option.split\<close>)
qed simp

lemma of_bytes_less: "of_bytes bs < 256 ^ length bs"
proof (induction bs)
  case (Cons c cs)
  have "of_char c + 256 * of_bytes cs < 256 * Suc (of_bytes cs)" by simp
  also have "\<dots> \<le> 256 * 256 ^ length cs" using Cons by (intro mult_le_mono) auto
  finally show ?case by simp
qed simp

lemma read_int64_range: "read_int64 rest = (Some n, r) \<Longrightarrow> in_int64 n"
proof -
  assume n: "read_int64 rest = (Some n, r)"
  then obtain bs where "fread 8 rest = (Some bs, r)" by (auto simp: read_int64_def Let_def split: prod.splits option.splits)
  then have "length bs = 8" by (auto simp: fread_def split: if_splits)
  then have "int (of_bytes bs) < 2 ^ 64" using of_bytes_less [of bs] by simp
  with n \<open>fread 8 rest = (Some bs, r)\<close> show ?thesis
    by (auto simp: read_int64_def Let_def in_int64_def INT64_MIN_def INT64_MAX_def split: if_splits)
qed

lemma read_value_ok: "res_ok {OutOfBounds} (\<lambda>(p, r). \<forall>x. p = Some x \<longrightarrow> obj_ok x) (read_value ty rest)"
proof -
  have str: "res_ok {OutOfBounds} (\<lambda>(p, r). \<forall>x. p = Some x \<longrightarrow> obj_ok x)
      (bindR (read_string rest) (\<lambda>(v, r). Inr (case v of None \<Rightarrow> None | Some s \<Rightarrow> Some (obj_create_string (Some s)), r)))"
    by (rule res_ok_bind [OF read_string_ok]) (auto simp: obj_create_string_def imdb_strdup_def split: option.splits)
  have lst: "res_ok {OutOfBounds} (\<lambda>(p, r). \<forall>x. p = Some x \<longrightarrow> obj_ok x)
      (bindR (read_strings n r []) (\<lambda>(vs, r2). Inr (Some (OBJ_LIST vs), r2)))" for n r
    by (rule res_ok_bind [OF read_strings_ok]) auto
  have num: "res_ok {OutOfBounds} (\<lambda>(p, r). \<forall>x. p = Some x \<longrightarrow> obj_ok x)
      (case read_int64 rest of (n, r) \<Rightarrow> Inr (map_option obj_create_int n, r))"
    using read_int64_range [of rest] by (auto simp: obj_create_int_def split: prod.split)
  from str lst num show ?thesis
    by (simp add: read_value_def split: prod.split option.split)
qed

lemma load_entry_ok:
  assumes ok: "db_ok db"
  shows "res_ok {OutOfBounds} (\<lambda>(db', more). db_ok db') (load_entry clk db ty rest)"
proof -
  obtain e r1 where e: "read_int64 rest = (e, r1)" by (cases "read_int64 rest")
  have skip: "res_ok {OutOfBounds} (\<lambda>(db', more). db_ok db')
      (bindR (skip_value ty r2) (\<lambda>r3. Inr (db1, Some (r3, 0))))" if "db_ok db1" for r2 db1
    by (rule res_ok_bind [OF skip_value_ok]) (simp add: that)
  have put: "res_ok {OutOfBounds} (\<lambda>(db', more). db_ok db')
        (bindR (ht_put db1 k \<lparr>obj = x, expire = ex\<rparr>) (\<lambda>db2. Inr (db2, Some (r3, 1))))"
    if "db_ok db1" "cstr_ok k" "in_int64 ex" "obj_ok x" for db1 k ex x and r3 :: string
    by (rule res_ok_bind [OF put_ok]) (use that in \<open>auto simp: entry_ok_def\<close>)
  have val: "res_ok {OutOfBounds} (\<lambda>(db', more). db_ok db')
      (bindR (read_value ty r2) (\<lambda>(v, r3). case v of
                None \<Rightarrow> Inr (db1, None)
              | Some x \<Rightarrow> bindR (ht_put db1 k \<lparr>obj = x, expire = ex\<rparr>) (\<lambda>db2. Inr (db2, Some (r3, 1)))))"
    if "db_ok db1" "cstr_ok k" "in_int64 ex" for r2 db1 k ex
    by (rule res_ok_bind [OF read_value_ok]) (use that put in \<open>auto split: option.split\<close>)
  show ?thesis
  proof (cases e)
    case None
    with ok e show ?thesis by (simp add: load_entry_def)
  next
    case (Some ex)
    have "res_ok {OutOfBounds} (\<lambda>(db', more). db_ok db')
      (bindR (read_string r1) (\<lambda>(key, r2). case key of None \<Rightarrow> Inr (db, None) | Some k \<Rightarrow>
              (let (now, db1) = (if ex \<ge> 0 then imdb_mstime clk db else (0, db)) in
               if ex \<ge> 0 \<and> now > ex then bindR (skip_value ty r2) (\<lambda>r3. Inr (db1, Some (r3, 0)))
               else bindR (read_value ty r2) (\<lambda>(v, r3). case v of None \<Rightarrow> Inr (db1, None)
                    | Some x \<Rightarrow> bindR (ht_put db1 k \<lparr>obj = x, expire = ex\<rparr>) (\<lambda>db2. Inr (db2, Some (r3, 1)))))))"
      by (rule res_ok_bind [OF read_string_ok])
         (use ok read_int64_range [of rest ex r1] e Some in
          \<open>auto simp: imdb_mstime_def intro!: skip val split: option.split\<close>)
    then show ?thesis by (simp add: load_entry_def e Some)
  qed
qed

lemma load_entries_ok:
  "db_ok db \<Longrightarrow> res_ok {OutOfBounds} (\<lambda>(db', n). db_ok db') (load_entries clk db rest n)"
proof (induction clk db rest n rule: load_entries.induct)
  case (2 clk db t rest n)
  have "res_ok {OutOfBounds} (\<lambda>(db', n). db_ok db') (case more of None \<Rightarrow> Inr (db1, n)
      | Some (r, m) \<Rightarrow> load_entries clk db1 r (n + m))"
    if "of_char t \<noteq> RDB_EOF" "load_entry clk db (of_char t) rest = Inr (db1, more)" "db_ok db1" for db1 more
    using "2.IH" [OF that(1,2) refl] that by (auto split: option.split)
  with 2 load_entry_ok [of db clk "of_char t" rest] show ?case
    by (cases "load_entry clk db (of_char t) rest") (auto simp: load_entries.simps)
qed (simp add: load_entries.simps)

section \<open>Properties\<close>

lemma sample_db_ok: "entry_ok e \<Longrightarrow> db_ok (sample_db e)"
proof -
  assume e: "entry_ok e"
  have "ht_bag (db_ht (sample_db e)) = {#(''a'', e)#}"
    using mset_pairs_from [OF goodD(4) [OF sample_db_facts(1) [of e]]] by (simp add: sample_db_pairs)
  with e goodD(1) [OF sample_db_facts(1) [of e]] show ?thesis
    by (simp add: db_ok_def ht_all_def cstr_ok_def NUL_def)
qed

definition sample_entry :: db_entry where
  "sample_entry = \<lparr>obj = OBJ_LIST [Some ''x'', Some ''yz''], expire = 77\<rparr>"

lemma sample_entry_ok: "entry_ok sample_entry" "entry_fits (''a'', sample_entry)" "db_ok (sample_db sample_entry)"
proof -
  show "entry_ok sample_entry"
    by (simp add: sample_entry_def entry_ok_def cstr_ok_def NUL_def in_int64_def INT64_MIN_def INT64_MAX_def)
  then show "db_ok (sample_db sample_entry)" by (rule sample_db_ok)
  show "entry_fits (''a'', sample_entry)"
    by (simp add: sample_entry_def entry_fits_def str_fits_def cstr_ok_def NUL_def in_int64_def INT64_MIN_def INT64_MAX_def)
qed

text \<open>What a load gets back of the bag of entries that was saved.\<close>

definition restored :: "int \<Rightarrow> db_entry hashtable \<Rightarrow> db_entry hashtable \<Rightarrow> bool" where
  "restored now old new \<longleftrightarrow>
     (\<forall>(k, e) \<in># ht_bag new. (k, e) \<in># ht_bag old \<and> live now e) \<and>
     (\<forall>(k, e) \<in># ht_bag old. live now e \<longrightarrow> (\<exists>x. (k, x) \<in># ht_bag new)) \<and>
     (distinct (map fst (pairs_from old 0)) \<longrightarrow> ht_bag new = {#(k, e) \<in># ht_bag old. live now e#})"

lemma loaded_restored:
  assumes l: "loaded_from now (pairs_from old 0) {#} (ht_bag new)" and bag: "mset (pairs_from old 0) = ht_bag old"
  shows "restored now old new"
proof -
  have set: "set (pairs_from old 0) = set_mset (ht_bag old)" using bag by (metis set_mset_mset)
  have "(k, e) \<in># ht_bag old \<and> live now e" if "(k, e) \<in># ht_bag new" for k e
    using l that unfolding loaded_from_def set by auto
  moreover have "\<exists>x. (k, x) \<in># ht_bag new" if "(k, e) \<in># ht_bag old" "live now e" for k e
  proof -
    have "fst (k, e) \<in> fst ` {ke \<in> set_mset (ht_bag old). live now (snd ke)}" by (rule imageI) (use that in simp)
    then have "k \<in> fst ` set_mset (ht_bag new)" using l unfolding loaded_from_def set by simp
    then show ?thesis by auto
  qed
  moreover have "ht_bag new = {#(k, e) \<in># ht_bag old. live now e#}" if "distinct (map fst (pairs_from old 0))"
    using l that unfolding loaded_from_def bag by (simp add: case_prod_beta')
  ultimately show ?thesis unfolding restored_def by blast
qed

lemma save_then_load:
  assumes "db_ok db" and fits: "\<forall>ke \<in> set (pairs_from (db_ht db) 0). entry_fits ke"
    and hashes: "inj_on ht_hash (fst ` set_mset (ht_bag (db_ht db)))"
    and disk: "tmp_name filename \<noteq> filename" "io_open env" "io_rename env" "length (dump_of (db_ht db)) \<le> io_room env"
    and fresh: "db_create clk0 = Inr db0" and now: "\<And>n. clk n = now"
  shows "\<exists>d' db1. persist_save env db d filename = Inr (d', 0) \<and>
    persist_load clk db0 d' filename = Inr (db1, 0) \<and> wf_ht (db_ht db1) \<and> restored now (db_ht db) (db_ht db1)"
proof -
  let ?kvs = "pairs_from (db_ht db) 0"
  have bag: "mset ?kvs = ht_bag (db_ht db)" by (rule mset_pairs_from [OF wf_htD(3) [OF db_ok_wf [OF assms(1)]]])
  then have set: "set ?kvs = set_mset (ht_bag (db_ht db))" by (metis set_mset_mset)
  have save: "persist_save env db d filename = Inr (d(tmp_name filename := None, filename \<mapsto> dump_of (db_ht db)), 0)"
    using persist_save_bytes [OF assms(1) disk(1), of env d] disk by simp
  have db0: "db_ht db0 = empty_table 64" using fresh by (auto simp: db_create_eq)
  have none: "ht_bag (db_ht db0) = {#}" by (simp add: db0 ht_bag_def empty_table_def)
  have "wf_ht (db_ht db0)" unfolding db0 by (rule wf_empty_table [OF table_cap_64])
  moreover have "inj_on ht_hash (fst ` (set_mset (ht_bag (db_ht db0)) \<union> set ?kvs))" using hashes by (simp add: none set)
  ultimately obtain db1 m where
    load: "load_entries clk db0 (concat (map enc_entry ?kvs) @ [char_of RDB_EOF]) 0 = Inr (db1, m)" "wf_ht (db_ht db1)"
      "loaded_from now ?kvs {#} (ht_bag (db_ht db1))"
    using load_entries_saved [where clk = clk and now = now and n = 0 and db = db0, OF _ fits _ now] none by auto
  have rest: "restored now (db_ht db) (db_ht db1)" by (rule loaded_restored [OF load(3) bag])
  have "fread RDB_MAGIC_LEN (dump_of (db_ht db)) = (Some RDB_MAGIC, concat (map enc_entry ?kvs) @ [char_of RDB_EOF])"
    unfolding dump_of_def by (rule fread_exact) (simp add: RDB_MAGIC_def RDB_MAGIC_LEN_def)
  with load have "persist_load clk db0 (d(tmp_name filename := None, filename \<mapsto> dump_of (db_ht db))) filename = Inr (db1, 0)"
    by (simp add: persist_load_def)
  with rest save load(2) show ?thesis by auto
qed

text \<open>C21: a database is saved and loaded into a fresh one, at a time \<open>now\<close>. If the file operations succeed and there is
  room for the dump, no string is 2^32-1 bytes or longer and no list has 2^32 items (\<open>entry_fits\<close>), and no two different
  stored keys have the same 32-bit hash, then both report success; every entry that comes back was stored and has not expired,
  with its value, type and expiry time; every key with an entry that has not expired comes back; and if no key is
  stored twice, exactly the entries that have not expired come back. (A key that the table holds twice comes back with one
  of its entries, and that may be the old one (\<open>Duplicate_Keys\<close>).)\<close>

theorem persist_save_load_roundtrip:
  assumes "db_ok db" and fits: "\<forall>ke \<in> set (pairs_from (db_ht db) 0). entry_fits ke"
    and hashes: "inj_on ht_hash (fst ` set_mset (ht_bag (db_ht db)))"
    and disk: "tmp_name filename \<noteq> filename" "io_open env" "io_rename env" "length (dump_of (db_ht db)) \<le> io_room env"
    and fresh: "db_create clk0 = Inr db0" and now: "\<And>n. clk n = now"
  shows "\<exists>d' db1. persist_save env db d filename = Inr (d', 0) \<and>
    persist_load clk db0 d' filename = Inr (db1, 0) \<and> wf_ht (db_ht db1) \<and>
    (\<forall>(k, e) \<in># ht_bag (db_ht db1). (k, e) \<in># ht_bag (db_ht db) \<and> live now e) \<and>
    (\<forall>(k, e) \<in># ht_bag (db_ht db). live now e \<longrightarrow> (\<exists>x. (k, x) \<in># ht_bag (db_ht db1))) \<and>
    (distinct (map fst (pairs_from (db_ht db) 0)) \<longrightarrow>
       ht_bag (db_ht db1) = {#(k, e) \<in># ht_bag (db_ht db). live now e#})"
  using save_then_load [OF assms] by (simp only: restored_def)

theorem persist_save_load_roundtrip_witness:
  "\<exists>d' db1. persist_save \<lparr>io_open = True, io_room = length (dump_of (db_ht (sample_db sample_entry))), io_rename = True\<rparr>
      (sample_db sample_entry) Map.empty ''dump.rdb'' = Inr (d', 0) \<and>
    persist_load (\<lambda>n. 50) \<lparr>db_ht = empty_table 64, last_expire_sweep = 50, db_ticks = 1\<rparr> d' ''dump.rdb'' = Inr (db1, 0) \<and>
    wf_ht (db_ht db1) \<and> ht_bag (db_ht db1) = {#(''a'', sample_entry)#}"
proof -
  have "\<exists>d' db1. persist_save \<lparr>io_open = True, io_room = length (dump_of (db_ht (sample_db sample_entry))), io_rename = True\<rparr>
      (sample_db sample_entry) Map.empty ''dump.rdb'' = Inr (d', 0) \<and>
    persist_load (\<lambda>n. 50) \<lparr>db_ht = empty_table 64, last_expire_sweep = 50, db_ticks = 1\<rparr> d' ''dump.rdb'' = Inr (db1, 0) \<and>
    wf_ht (db_ht db1) \<and>
    (\<forall>(k, e) \<in># ht_bag (db_ht db1). (k, e) \<in># ht_bag (db_ht (sample_db sample_entry)) \<and> live 50 e) \<and>
    (\<forall>(k, e) \<in># ht_bag (db_ht (sample_db sample_entry)). live 50 e \<longrightarrow> (\<exists>x. (k, x) \<in># ht_bag (db_ht db1))) \<and>
    (distinct (map fst (pairs_from (db_ht (sample_db sample_entry)) 0)) \<longrightarrow>
       ht_bag (db_ht db1) = {#(k, e) \<in># ht_bag (db_ht (sample_db sample_entry)). live 50 e#})"
    by (rule persist_save_load_roundtrip [OF sample_entry_ok(3), where clk0 = "\<lambda>n. 50"])
      (simp_all add: sample_db_pairs sample_db_bag sample_entry_ok tmp_name_def db_create_eq)
  then show ?thesis by (auto simp: sample_db_pairs sample_db_bag live_def sample_entry_def)
qed

text \<open>When the temporary file cannot be opened or the disk is full, the save reports -1, the old dump
  is as it was and no temporary file is left behind.\<close>

theorem persist_save_failure_keeps_dump:
  assumes "db_ok db" "tmp_name filename \<noteq> filename"
    and "\<not> io_open env \<and> d (tmp_name filename) = None \<or> io_open env \<and> io_room env < length (dump_of (db_ht db))"
  shows "\<exists>d'. persist_save env db d filename = Inr (d', -1) \<and> d' (tmp_name filename) = None \<and>
    (\<forall>f. f \<noteq> tmp_name filename \<longrightarrow> d' f = d f)"
  using assms(3) persist_save_bytes [OF assms(1,2), of env d] by auto

theorem persist_save_failure_keeps_dump_witness:
  "\<exists>d'. persist_save \<lparr>io_open = True, io_room = 0, io_rename = True\<rparr> (sample_db sample_entry)
      [''dump.rdb'' \<mapsto> ''old''] ''dump.rdb'' = Inr (d', -1) \<and> d' (tmp_name ''dump.rdb'') = None \<and>
    (\<forall>f. f \<noteq> tmp_name ''dump.rdb'' \<longrightarrow> d' f = [''dump.rdb'' \<mapsto> ''old''] f)"
  by (rule persist_save_failure_keeps_dump [OF sample_entry_ok(3)]) (simp_all add: tmp_name_def dump_of_def)

text \<open>The replacement of the dump is not atomic: the old dump is removed before the rename, and when
  the rename fails the new one is removed as well, so that no dump is left.\<close>

theorem persist_save_rename_failure_loses_dump:
  assumes "db_ok db" "tmp_name filename \<noteq> filename" "io_open env"
    and "length (dump_of (db_ht db)) \<le> io_room env" "\<not> io_rename env"
  shows "\<exists>d'. persist_save env db d filename = Inr (d', -1) \<and> d' filename = None \<and> d' (tmp_name filename) = None"
  using assms(2-) persist_save_bytes [OF assms(1,2), of env d] by auto

theorem persist_save_rename_failure_loses_dump_witness:
  "\<exists>d'. persist_save \<lparr>io_open = True, io_room = length (dump_of (db_ht (sample_db sample_entry))), io_rename = False\<rparr>
      (sample_db sample_entry) [''dump.rdb'' \<mapsto> ''old''] ''dump.rdb'' = Inr (d', -1) \<and>
    d' ''dump.rdb'' = None \<and> d' (tmp_name ''dump.rdb'') = None"
  by (rule persist_save_rename_failure_loses_dump [OF sample_entry_ok(3)]) (simp_all add: tmp_name_def)

lemma load_ok:
  assumes "db_ok db"
  shows "res_ok {OutOfBounds} (\<lambda>(db', r). db_ok db' \<and> (r = 0 \<or> r = -1)) (persist_load clk db d filename)"
proof -
  have "res_ok {OutOfBounds} (\<lambda>(db', r). db_ok db' \<and> (r = 0 \<or> r = -1))
      (bindR (load_entries clk db r 0) (\<lambda>(db1, loaded). Inr (db1, 0)))" for r
    by (rule res_ok_bind [OF load_entries_ok [OF assms]]) auto
  with assms show ?thesis by (auto simp: persist_load_def split: option.split prod.split)
qed

text \<open>C26: loading any file whatever returns and keeps the database well formed, with the one exception of a
  string length of 2^32-1, for which the buffer size wraps to 0.\<close>

theorem persist_load_any_file:
  assumes "db_ok db"
  shows "res_ok {OutOfBounds} (\<lambda>(db', r). db_ok db' \<and> (r = 0 \<or> r = -1)) (persist_load clk db d filename)"
  by (rule load_ok [OF assms])

theorem persist_load_any_file_witness:
  "res_ok {OutOfBounds} (\<lambda>(db', r). db_ok db' \<and> (r = 0 \<or> r = -1))
    (persist_load (\<lambda>n. 0) (sample_db sample_entry) [''f'' \<mapsto> ''IMDB0001?''] ''f'')"
  by (rule persist_load_any_file [OF sample_entry_ok(3)])

lemma persist_load_dump:
  "persist_load clk db [f \<mapsto> RDB_MAGIC @ rest] f = bindR (load_entries clk db rest 0) (\<lambda>(db1, loaded). Inr (db1, 0))"
proof -
  have "fread RDB_MAGIC_LEN (RDB_MAGIC @ rest) = (Some RDB_MAGIC, rest)"
    by (rule fread_exact) (simp add: RDB_MAGIC_def RDB_MAGIC_LEN_def)
  then show ?thesis by (simp add: persist_load_def)
qed

lemma read_uint32_bytes: "n < 2 ^ 32 \<Longrightarrow> read_uint32 (bytes_le 4 n @ r) = (Some (of_nat n), r)"
  using read_write_uint32 [of "of_nat n" r] by (simp add: unat_of_nat)

lemma read_string_char: "c \<noteq> NUL \<Longrightarrow> read_string (bytes_le 4 1 @ c # r) = Inr (Some [c], r)"
  by (simp add: read_string_def read_uint32_bytes fread_def)

text \<open>C39: a dump that gives a string the length 2^32-1 makes the load write behind a heap buffer of size
  0, and a dump that is cut off inside a list loads the part that is there and still reports success.\<close>

theorem persist_load_corrupt_files:
  "persist_load (\<lambda>n. 0) empty_db
     [''f'' \<mapsto> RDB_MAGIC @ char_of (0::nat) # bytes_le 8 0 @ bytes_le 4 4294967295 @ ''k''] ''f'' = Inl OutOfBounds \<and>
   (\<exists>db'. persist_load (\<lambda>n. 0) empty_db
     [''f'' \<mapsto> RDB_MAGIC @ char_of (2::nat) # bytes_le 8 0 @ bytes_le 4 1 @ ''a'' @ bytes_le 4 3 @
               bytes_le 4 1 @ ''x''] ''f'' = Inr (db', 0) \<and>
     db_view db' = [''a'' \<mapsto> \<lparr>obj = OBJ_LIST [Some ''x''], expire = 0\<rparr>])"
proof
  have num: "read_int64 (bytes_le 8 0 @ r) = (Some 0, r)" for r
    using read_write_int64 [of 0 r] by (simp add: int64_small)
  have types: "of_char (char_of (0::nat) :: char) \<noteq> RDB_EOF" "of_char (char_of (2::nat) :: char) \<noteq> RDB_EOF"
    by (simp_all add: RDB_EOF_def)
  have "read_string (bytes_le 4 4294967295 @ ''k'') = Inl OutOfBounds"
    by (simp add: read_string_def read_uint32_bytes)
  then show "persist_load (\<lambda>n. 0) empty_db
     [''f'' \<mapsto> RDB_MAGIC @ char_of (0::nat) # bytes_le 8 0 @ bytes_le 4 4294967295 @ ''k''] ''f'' = Inl OutOfBounds"
    unfolding persist_load_dump load_entries.simps(2) using types by (simp add: load_entry_def num)
  let ?e = "\<lparr>obj = OBJ_LIST [Some ''x''], expire = 0\<rparr>" and ?list = "bytes_le 4 3 @ bytes_le 4 1 @ ''x''"
  have "read_string (bytes_le 4 1 @ ''x'') = Inr (Some ''x'', [])" "read_string [] = Inr (None, [])"
    using read_string_char [of "CHR ''x''" "[]"] by (simp_all add: NUL_def read_string_def read_uint32_def fread_def)
  then have "read_strings 3 (bytes_le 4 1 @ ''x'') [] = Inr ([Some ''x''], [])"
    by (simp add: numeral_3_eq_3 imdb_strdup_def)
  then have val: "read_value 2 ?list = Inr (Some (OBJ_LIST [Some ''x'']), [])"
    by (simp add: read_value_def rdb_types read_uint32_bytes)
  obtain db' where db': "ht_put (empty_db\<lparr>db_ticks := 1\<rparr>) ''a'' ?e = Inr db'" "db_view db' = [''a'' \<mapsto> ?e]"
    by (rule dbt.put_view [of "empty_db\<lparr>db_ticks := 1\<rparr>" "''a''" ?e]) simp_all
  have "read_string (bytes_le 4 1 @ CHR ''a'' # ?list) = Inr (Some ''a'', ?list)"
    by (rule read_string_char) (simp add: NUL_def)
  with val db'(1) have "load_entry (\<lambda>n. 0) empty_db 2 (bytes_le 8 0 @ bytes_le 4 1 @ ''a'' @ ?list) = Inr (db', Some ([], 1))"
    by (simp add: load_entry_def num imdb_mstime_def)
  then have "load_entries (\<lambda>n. 0) empty_db (char_of (2::nat) # bytes_le 8 0 @ bytes_le 4 1 @ ''a'' @ ?list) 0 = Inr (db', 1)"
    unfolding load_entries.simps(2) using types by (simp add: load_entries.simps(1))
  with db'(2) show "\<exists>db'. persist_load (\<lambda>n. 0) empty_db
     [''f'' \<mapsto> RDB_MAGIC @ char_of (2::nat) # bytes_le 8 0 @ bytes_le 4 1 @ ''a'' @ ?list] ''f'' = Inr (db', 0) \<and>
     db_view db' = [''a'' \<mapsto> ?e]"
    unfolding persist_load_dump by simp
qed

end
