(* ===== verification/Command_Props.thy ===== *)
theory Command_Props
  imports Command Resp_Props Persist_Props
begin

text \<open>
  The commands: every command whose arguments are strings runs without touching a null pointer or
  memory it does not own, keeps the database well formed and appends exactly one value of the
  protocol to the reply; how names are dispatched; and the inputs that break the handlers.
\<close>

section \<open>What a handler has to do\<close>

text \<open>All arguments are strings without NUL, as they are when a client sends an array of bulk strings.\<close>

definition string_args :: "resp_value \<Rightarrow> bool" where
  "string_args cmd \<longleftrightarrow> (\<forall>i<arg_count cmd. \<exists>s. get_arg cmd i = Some s \<and> cstr_ok s)"

definition world_ok :: "world \<Rightarrow> bool" where
  "world_ok w \<longleftrightarrow> db_ok (w_db w)"

text \<open>The world stays well formed and the reply grows by the encoding of one value; and more strongly, one of which
  the lines hold no CR, so that nobody can take it for two.\<close>

definition some_reply :: "resp_buf \<Rightarrow> world \<times> resp_buf \<Rightarrow> bool" where
  "some_reply rb = (\<lambda>(w', rb'). world_ok w' \<and> rb_ok rb' \<and> (\<exists>v. rb_data rb' = rb_data rb @ encode v))"

definition one_reply :: "resp_buf \<Rightarrow> world \<times> resp_buf \<Rightarrow> bool" where
  "one_reply rb = (\<lambda>(w', rb'). world_ok w' \<and> rb_ok rb' \<and> (\<exists>v. one_line v \<and> rb_data rb' = rb_data rb @ encode v))"

abbreviation handled :: "resp_buf \<Rightarrow> (world \<times> resp_buf) res \<Rightarrow> bool" where
  "handled rb m \<equiv> res_ok {SignedOverflow} (one_reply rb) m"

lemma some_of_one: "one_reply rb x \<Longrightarrow> some_reply rb x"
  by (auto simp: one_reply_def some_reply_def)

lemma reply_handled:
  "world_ok w \<Longrightarrow> one_line v \<Longrightarrow> appends rb (encode v) m \<Longrightarrow> handled rb (reply_with w m)"
  by (auto simp: appends_def reply_with_def one_reply_def)

lemma on_db_ok:
  assumes "res_ok {SignedOverflow} (\<lambda>(db', x). db_ok db' \<and> P x) (f (w_db w))"
    and "\<And>w' x. world_ok w' \<Longrightarrow> P x \<Longrightarrow> res_ok {SignedOverflow} Q (k w' x)"
  shows "res_ok {SignedOverflow} Q (on_db w f k)"
  unfolding on_db_def
  by (rule res_ok_bind [OF assms(1)]) (auto simp: world_ok_def intro: assms(2))

lemma world_db [simp]: "world_ok w \<Longrightarrow> db_ok (w_db w)" "world_ok (w\<lparr>w_disk := d\<rparr>) = world_ok w"
  "world_ok (w\<lparr>w_running := b\<rparr>) = world_ok w" "world_ok (w\<lparr>w_db := db\<rparr>) = db_ok db"
  by (simp_all add: world_ok_def)

text \<open>The replies of the writers, as encodings.\<close>

lemma writer_replies:
  assumes "rb_ok rb"
  shows "length s \<le> 124 \<Longrightarrow> appends rb (encode (RESP_SIMPLE_STRING s)) (resp_write_simple_string rb s)"
    and "length s \<le> 124 \<Longrightarrow> appends rb (encode (RESP_ERROR s)) (resp_write_error rb s)"
    and "appends rb (encode (RESP_INTEGER n)) (resp_write_integer rb n)"
    and "appends rb (encode RESP_NIL) (resp_write_nil rb)"
    and "appends rb (encode (RESP_BULK_STRING s)) (resp_write_bulk_string rb s)"
    and "appends rb (encode (RESP_BULK_STRING s)) (write_bulk rb (Some s))"
  using writers_append [OF assms] bulk_appends [OF assms] by (simp_all add: write_bulk_def)

text \<open>The texts of the messages hold no CR.\<close>

primrec no_CR :: "string \<Rightarrow> bool" where
  "no_CR [] = True"
| "no_CR (c # cs) = (c \<noteq> CHR 0x0D \<and> no_CR cs)"

lemma no_CR_iff: "no_CR s \<longleftrightarrow> CR \<notin> set s"
  by (induction s) (auto simp: CR_def)

lemma no_CR_append [simp]: "no_CR (s @ t) \<longleftrightarrow> no_CR s \<and> no_CR t"
  by (induction s) auto

lemma message_chars [simp]: "no_CR (wrong_args name) = no_CR name" "no_CR wrong_type" "no_CR not_integer"
  by (simp_all add: wrong_args_def wrong_type_def not_integer_def)

lemma handled_replies:
  assumes "rb_ok rb" "world_ok w"
  shows "length s \<le> 124 \<Longrightarrow> no_CR s \<Longrightarrow> handled rb (reply_with w (resp_write_simple_string rb s))"
    and "length s \<le> 124 \<Longrightarrow> no_CR s \<Longrightarrow> handled rb (reply_with w (resp_write_error rb s))"
    and "handled rb (reply_with w (resp_write_integer rb n))"
    and "handled rb (reply_with w (resp_write_nil rb))"
    and "handled rb (reply_with w (resp_write_bulk_string rb s))"
    and "handled rb (reply_with w (write_bulk rb (Some s)))"
  by (rule reply_handled [OF assms(2) _ writer_replies(1) [OF assms(1)]], simp_all add: no_CR_iff)
    (rule reply_handled [OF assms(2) _ writer_replies(2) [OF assms(1)]] reply_handled [OF assms(2) _ writer_replies(3) [OF assms(1)]]
      reply_handled [OF assms(2) _ writer_replies(4) [OF assms(1)]] reply_handled [OF assms(2) _ writer_replies(5) [OF assms(1)]]
      reply_handled [OF assms(2) _ writer_replies(6) [OF assms(1)]], simp_all)+

lemma message_lengths [simp]:
  "length (wrong_args name) = 44 + length name" "length wrong_type = 65" "length not_integer = 43"
  by (simp_all add: wrong_args_def wrong_type_def not_integer_def)

lemma get_string_arg:
  assumes "string_args cmd" "i < arg_count cmd"
  obtains s where "get_arg cmd i = Some s" "cstr_ok s"
  using assms by (auto simp: string_args_def)

section \<open>Every handler\<close>

lemmas db_steps = db_set_ok db_get_ok db_del_ok db_exists_ok db_incr_ok db_lpush_ok db_rpush_ok db_llen_ok
  db_lrange_ok db_expire_ok db_ttl_ok db_persist_ok

lemma res_ok_pair: "res_ok E (\<lambda>(db', x). db_ok db') m \<Longrightarrow> res_ok E (\<lambda>(db', x). db_ok db' \<and> True) m"
  by simp

lemma ping_handled: "string_args cmd \<Longrightarrow> world_ok w \<Longrightarrow> rb_ok rb \<Longrightarrow> handled rb (cmd_ping clk env w cmd rb)"
  by (auto simp: cmd_ping_def handled_replies elim: get_string_arg [of cmd 1])

lemma set_options_ok:
  assumes "string_args cmd" "1 < arg_count cmd"
  shows "world_ok w \<Longrightarrow> res_ok {SignedOverflow} world_ok (set_options clk w cmd i)"
proof (induction "arg_count cmd - i" arbitrary: w i rule: less_induct)
  case less
  show ?case
  proof (cases "i + 1 < arg_count cmd")
    case False
    with less.prems show ?thesis by (simp add: set_options.simps [of clk w cmd i])
  next
    case True
    obtain opt where opt: "get_arg cmd i = Some opt" by (rule get_string_arg [of cmd i]) (use assms True in auto)
    obtain val where val: "get_arg cmd (i + 1) = Some val" by (rule get_string_arg [of cmd "i + 1"]) (use assms True in auto)
    obtain key where key: "get_arg cmd 1 = Some key" by (rule get_string_arg [of cmd 1]) (use assms in auto)
    have step: "res_ok {SignedOverflow} world_ok (on_db w (\<lambda>db. db_expire clk db (Some key) secs) (\<lambda>w1 r. Inr w1))" for secs
      by (rule on_db_ok [OF db_expire_ok]) (use less.prems in auto)
    have IH: "world_ok w' \<Longrightarrow> res_ok {SignedOverflow} world_ok (set_options clk w' cmd (i + 2))" for w'
      by (rule less.hyps) (use True in auto)
    show ?thesis
      unfolding set_options.simps [of clk w cmd i] opt val key
      using True less.prems step by (auto simp: Let_def simp del: add_2_eq_Suc' intro!: res_ok_bind [where R = world_ok] IH)
  qed
qed

lemma set_handled:
  assumes "string_args cmd" "world_ok w" "rb_ok rb"
  shows "handled rb (cmd_set clk env w cmd rb)"
proof (cases "arg_count cmd < 3")
  case True
  with assms show ?thesis by (simp add: cmd_set_def handled_replies)
next
  case False
  obtain key where key: "get_arg cmd 1 = Some key" "cstr_ok key" by (rule get_string_arg [of cmd 1]) (use assms False in auto)
  obtain val where val: "get_arg cmd 2 = Some val" "cstr_ok val" by (rule get_string_arg [of cmd 2]) (use assms False in auto)
  have opts: "handled rb (bindR (set_options clk w1 cmd 3) (\<lambda>w2. reply_with w2 (resp_write_simple_string rb ''OK'')))"
    if "world_ok w1" for w1
    by (rule res_ok_bind [OF set_options_ok]) (use assms False that in \<open>auto intro: handled_replies\<close>)
  have "handled rb (on_db w (\<lambda>db. db_set db (Some key) (Some val)) (\<lambda>w1 r.
      bindR (set_options clk w1 cmd 3) (\<lambda>w2. reply_with w2 (resp_write_simple_string rb ''OK''))))"
    by (rule on_db_ok [OF res_ok_pair [OF db_set_ok]]) (use assms key val opts in auto)
  with False key val show ?thesis by (simp add: cmd_set_def)
qed

text \<open>The reply for a value in GET, and for one in MGET.\<close>

lemma get_reply_handled:
  assumes "world_ok w" "rb_ok rb" "\<forall>x. p = Some x \<longrightarrow> obj_ok x"
  shows "handled rb (reply_with w (case p of None \<Rightarrow> resp_write_nil rb | Some (OBJ_STRING s) \<Rightarrow> write_bulk rb s
      | Some (OBJ_INT n) \<Rightarrow> resp_write_bulk_string rb (dec_int n) | Some (OBJ_LIST vs) \<Rightarrow> resp_write_error rb wrong_type))"
proof (cases p)
  case (Some x)
  with assms show ?thesis by (cases x rule: obj_ok.cases) (auto simp: handled_replies)
qed (simp add: handled_replies assms)

lemma get_handled:
  assumes "string_args cmd" "world_ok w" "rb_ok rb"
  shows "handled rb (cmd_get clk env w cmd rb)"
proof (cases "arg_count cmd < 2")
  case True
  with assms show ?thesis by (simp add: cmd_get_def handled_replies)
next
  case False
  obtain key where key: "get_arg cmd 1 = Some key" by (rule get_string_arg [of cmd 1]) (use assms False in auto)
  show ?thesis
    unfolding cmd_get_def key using False
    by (simp, intro on_db_ok [OF db_get_ok]) (use assms in \<open>auto intro: get_reply_handled\<close>)
qed

text \<open>Most handlers count their arguments and then make one call with the key.\<close>

lemma key_handled:
  assumes "string_args cmd" "world_ok w" "rb_ok rb" "2 \<le> n" "length name \<le> 80 \<and> no_CR name"
    and "\<And>key db. cstr_ok key \<Longrightarrow> db_ok db \<Longrightarrow> res_ok {SignedOverflow} (\<lambda>(db', x). db_ok db' \<and> P x) (f db (Some key))"
    and "\<And>w' x. world_ok w' \<Longrightarrow> P x \<Longrightarrow> handled rb (k w' x)"
  shows "handled rb (if arg_count cmd < n then reply_with w (resp_write_error rb (wrong_args name))
     else on_db w (\<lambda>db. f db (get_arg cmd 1)) k)"
proof (cases "arg_count cmd < n")
  case True
  with assms show ?thesis by (simp add: handled_replies)
next
  case False
  obtain key where key: "get_arg cmd 1 = Some key" "cstr_ok key"
    by (rule get_string_arg [OF assms(1), of 1]) (use False assms(4) in auto)
  have "handled rb (on_db w (\<lambda>db. f db (Some key)) k)"
    by (rule on_db_ok [OF assms(6)]) (use key assms in auto)
  with False key show ?thesis by simp
qed

lemma del_loop_ok:
  assumes "string_args cmd"
  shows "world_ok w \<Longrightarrow> res_ok {SignedOverflow} (\<lambda>(w', n). world_ok w') (del_loop clk w cmd i deleted)"
proof (induction "arg_count cmd - i" arbitrary: w i deleted rule: less_induct)
  case less
  show ?case
  proof (cases "i < arg_count cmd")
    case True
    obtain key where key: "get_arg cmd i = Some key" by (rule get_string_arg [OF assms True])
    show ?thesis
      unfolding del_loop.simps [of clk w cmd i] key using True less
      by simp (rule on_db_ok [OF db_del_ok], auto)
  qed (simp add: del_loop.simps [of clk w cmd i] less.prems)
qed

lemma del_handled:
  assumes "string_args cmd" "world_ok w" "rb_ok rb"
  shows "handled rb (cmd_del clk env w cmd rb)"
  using assms by (auto simp: cmd_del_def handled_replies intro!: res_ok_bind [OF del_loop_ok])

lemma incr_handled:
  assumes "string_args cmd" "world_ok w" "rb_ok rb" "in_int64 d" "length name \<le> 80 \<and> no_CR name"
  shows "handled rb (incr_by name d clk env w cmd rb)"
  unfolding incr_by_def
  by (rule key_handled [OF assms(1-3) _ assms(5), where P = in_int64])
     (use db_incr_ok assms in \<open>auto simp: handled_replies\<close>)

lemma mset_loop_ok:
  assumes "string_args cmd"
  shows "world_ok w \<Longrightarrow> res_ok {SignedOverflow} world_ok (mset_loop w cmd i)"
proof (induction "arg_count cmd - i" arbitrary: w i rule: less_induct)
  case less
  show ?case
  proof (cases "i + 1 < arg_count cmd")
    case True
    obtain key where key: "get_arg cmd i = Some key" "cstr_ok key" by (rule get_string_arg [OF assms, of i]) (use True in auto)
    obtain val where val: "get_arg cmd (i + 1) = Some val" "cstr_ok val" by (rule get_string_arg [OF assms True])
    show ?thesis
      unfolding mset_loop.simps [of w cmd i] key val using True less key val
      by simp (rule on_db_ok [OF res_ok_pair [OF db_set_ok]], auto)
  qed (simp add: mset_loop.simps [of w cmd i] less.prems)
qed

lemma mset_handled:
  assumes "string_args cmd" "world_ok w" "rb_ok rb"
  shows "handled rb (cmd_mset clk env w cmd rb)"
  using assms by (auto simp: cmd_mset_def handled_replies intro!: res_ok_bind [OF mset_loop_ok])

text \<open>An array reply under construction: the header and some items.\<close>

lemma mget_loop_ok:
  assumes "string_args cmd"
  shows "world_ok w \<Longrightarrow> rb_ok rb \<Longrightarrow> res_ok {SignedOverflow}
    (\<lambda>(w', rb'). world_ok w' \<and> rb_ok rb' \<and> (\<exists>vs. length vs = arg_count cmd - i \<and> list_all one_line vs \<and>
       rb_data rb' = rb_data rb @ concat (map encode vs))) (mget_loop clk w cmd i rb)"
proof (induction "arg_count cmd - i" arbitrary: w i rb rule: less_induct)
  case less
  let ?Q = "\<lambda>i rb (w', rb'). world_ok w' \<and> rb_ok rb' \<and> (\<exists>vs. length vs = arg_count cmd - i \<and> list_all one_line vs \<and>
       rb_data rb' = rb_data rb @ concat (map encode vs))"
  show ?case
  proof (cases "i < arg_count cmd")
    case True
    obtain key where key: "get_arg cmd i = Some key" by (rule get_string_arg [OF assms True])
    have IH: "res_ok {SignedOverflow} (?Q i rb) (mget_loop clk w' cmd (i + 1) rb')"
      if "world_ok w'" "rb_ok rb'" "one_line v" "rb_data rb' = rb_data rb @ encode v" for w' rb' v
    proof (rule res_ok_mono [OF less.hyps [of "i + 1"]])
      fix x assume "?Q (i + 1) rb' x"
      then obtain w2 rb2 vs where "x = (w2, rb2)" "world_ok w2" "rb_ok rb2" "length vs = arg_count cmd - (i + 1)"
        "list_all one_line vs" "rb_data rb2 = rb_data rb' @ concat (map encode vs)" by auto
      with that True show "?Q i rb x" by (auto intro!: exI [of _ "v # vs"])
    qed (use that True in auto)
    have item: "res_ok {SignedOverflow} (?Q i rb) (bindR m (\<lambda>rb1. mget_loop clk w' cmd (i + 1) rb1))"
      if "appends rb (encode v) m" "world_ok w'" "one_line v" for m v w'
      using that IH by (auto simp: appends_def)
    have reply: "res_ok {SignedOverflow} (?Q i rb) (bindR (case p of None \<Rightarrow> resp_write_nil rb
        | Some (OBJ_STRING s) \<Rightarrow> write_bulk rb s | Some (OBJ_INT n) \<Rightarrow> resp_write_bulk_string rb (dec_int n)
        | Some (OBJ_LIST vs) \<Rightarrow> resp_write_nil rb) (\<lambda>rb1. mget_loop clk w' cmd (i + 1) rb1))"
      if "world_ok w'" "\<forall>x. p = Some x \<longrightarrow> obj_ok x" for w' p
    proof (cases p)
      case None
      with that item [OF writer_replies(4) [OF less.prems(2)]] show ?thesis by simp
    next
      case (Some x)
      with that item [OF writer_replies(4) [OF less.prems(2)]] item [OF writer_replies(5) [OF less.prems(2)]]
        item [OF writer_replies(6) [OF less.prems(2)]]
      show ?thesis by (cases x rule: obj_ok.cases) auto
    qed
    show ?thesis
      unfolding mget_loop.simps [of clk w cmd i] key using True
      by simp (rule on_db_ok [OF db_get_ok], use reply less.prems in auto)
  next
    case False
    then show ?thesis by (simp add: mget_loop.simps [of clk w cmd i] less.prems)
  qed
qed

lemma array_reply:
  assumes "appends rb (''*'' @ dec_nat n @ CRLF) m" and "\<And>rb1. rb_ok rb1 \<Longrightarrow> rb_data rb1 = rb_data rb @ ''*'' @ dec_nat n @ CRLF \<Longrightarrow>
    res_ok {SignedOverflow} (\<lambda>(w', rb'). world_ok w' \<and> rb_ok rb' \<and> (\<exists>vs. length vs = n \<and> list_all one_line vs \<and>
       rb_data rb' = rb_data rb1 @ concat (map encode vs))) (f rb1)"
  shows "handled rb (bindR m f)"
proof -
  obtain rb1 where rb1: "m = Inr rb1" "rb_ok rb1" "rb_data rb1 = rb_data rb @ ''*'' @ dec_nat n @ CRLF"
    using assms(1) by (auto simp: appends_def)
  have "handled rb (f rb1)"
    by (rule res_ok_mono [OF assms(2) [OF rb1(2,3)]])
       (auto simp: one_reply_def rb1(3) intro: exI [of _ "RESP_ARRAY vs" for vs])
  with rb1(1) show ?thesis by simp
qed

lemma mget_handled:
  assumes "string_args cmd" "world_ok w" "rb_ok rb"
  shows "handled rb (cmd_mget clk env w cmd rb)"
  using assms mget_loop_ok [OF assms(1,2), where clk = clk and i = 1]
  by (auto simp: cmd_mget_def handled_replies intro!: array_reply [OF writers_append(5)])

lemma push_loop_ok:
  assumes "string_args cmd" "1 < arg_count cmd"
    and push: "\<And>db key val. db_ok db \<Longrightarrow> cstr_ok key \<Longrightarrow> cstr_ok val \<Longrightarrow>
      res_ok {SignedOverflow} (\<lambda>(db', r). db_ok db') (push db (Some key) (Some val))"
  shows "world_ok w \<Longrightarrow> res_ok {SignedOverflow} (\<lambda>(w', r). world_ok w') (push_loop push w cmd i r)"
proof (induction "arg_count cmd - i" arbitrary: w i r rule: less_induct)
  case less
  show ?case
  proof (cases "i < arg_count cmd")
    case True
    obtain key where key: "get_arg cmd 1 = Some key" "cstr_ok key" by (rule get_string_arg [OF assms(1,2)])
    obtain val where val: "get_arg cmd i = Some val" "cstr_ok val" by (rule get_string_arg [OF assms(1) True])
    have step: "res_ok {SignedOverflow} (\<lambda>(db', r). db_ok db' \<and> True) (push (w_db w) (Some key) (Some val))"
      by (rule res_ok_pair [OF push]) (use less.prems key val in auto)
    show ?thesis
      unfolding push_loop.simps [of push w cmd i] key val using True less
      by simp (rule on_db_ok [where f = "\<lambda>db. push db (Some key) (Some val)" and P = "\<lambda>r. True", OF step], auto)
  qed (simp add: push_loop.simps [of push w cmd i] less.prems)
qed

lemma push_handled:
  assumes "string_args cmd" "world_ok w" "rb_ok rb" "length name \<le> 80 \<and> no_CR name"
    and "\<And>db key val. db_ok db \<Longrightarrow> cstr_ok key \<Longrightarrow> cstr_ok val \<Longrightarrow>
      res_ok {SignedOverflow} (\<lambda>(db', r). db_ok db') (push clk db (Some key) (Some val))"
  shows "handled rb (push_with name push clk env w cmd rb)"
  using assms(1-4) by (auto simp: push_with_def handled_replies intro!: res_ok_bind [OF push_loop_ok] assms(5))

lemma push_commands_handled:
  assumes "string_args cmd" "world_ok w" "rb_ok rb"
  shows "handled rb (cmd_lpush clk env w cmd rb)" "handled rb (cmd_rpush clk env w cmd rb)"
  unfolding cmd_lpush_def cmd_rpush_def
  by (rule push_handled [OF assms], simp, rule db_lpush_ok db_rpush_ok; assumption)+

lemma pop_handled:
  assumes "string_args cmd" "world_ok w" "rb_ok rb" "length name \<le> 80 \<and> no_CR name" "pop = db_lpop \<or> pop = db_rpop"
  shows "handled rb (pop_with name pop clk env w cmd rb)"
  unfolding pop_with_def
  by (rule key_handled [OF assms(1-3) _ assms(4), where P = cstr_result])
     (use assms in \<open>auto simp: handled_replies db_lpop_def db_rpop_def intro: db_pop_ok split: option.split\<close>)

lemma write_items_appends:
  "rb_ok rb \<Longrightarrow> \<forall>v \<in> set vs. \<exists>s. v = Some s \<Longrightarrow>
   appends rb (concat (map (\<lambda>v. encode (RESP_BULK_STRING (the v))) vs)) (write_items rb vs)"
proof (induction vs arbitrary: rb)
  case (Cons v vs)
  then obtain s where v: "v = Some s" by auto
  have "appends rb (encode (RESP_BULK_STRING s) @ concat (map (\<lambda>v. encode (RESP_BULK_STRING (the v))) vs))
      (bindR (write_bulk rb (Some s)) (\<lambda>rb1. write_items rb1 vs))"
    by (rule appends_bind [OF writer_replies(6) [OF Cons.prems(1)]]) (use Cons in auto)
  with v show ?case by simp
qed (simp add: appends_refl)

lemma items_reply:
  assumes "rb_ok rb" "world_ok w" "\<forall>v \<in> set vs. \<exists>s. v = Some s"
  shows "handled rb (bindR (resp_write_array_header rb (length vs)) (\<lambda>rb1. reply_with w (write_items rb1 vs)))"
proof (rule array_reply [OF writers_append(5) [OF assms(1)]])
  fix rb1 assume "rb_ok rb1"
  from write_items_appends [OF this assms(3)] obtain rb2 where
    rb2: "write_items rb1 vs = Inr rb2" "rb_ok rb2"
      "rb_data rb2 = rb_data rb1 @ concat (map (\<lambda>v. encode (RESP_BULK_STRING (the v))) vs)"
    by (auto simp: appends_def)
  then show "res_ok {SignedOverflow} (\<lambda>(w', rb'). world_ok w' \<and> rb_ok rb' \<and> (\<exists>ws. length ws = length vs \<and> list_all one_line ws \<and>
       rb_data rb' = rb_data rb1 @ concat (map encode ws))) (reply_with w (write_items rb1 vs))"
    using assms(2) by (auto simp: reply_with_def comp_def list_all_iff intro!: exI [of _ "map (\<lambda>v. RESP_BULK_STRING (the v)) vs"])
qed

lemma lrange_handled:
  assumes "string_args cmd" "world_ok w" "rb_ok rb"
  shows "handled rb (cmd_lrange clk env w cmd rb)"
proof (cases "arg_count cmd < 4")
  case True
  with assms show ?thesis by (simp add: cmd_lrange_def handled_replies)
next
  case False
  obtain key where key: "get_arg cmd 1 = Some key" by (rule get_string_arg [OF assms(1), of 1]) (use False in auto)
  obtain s2 where s2: "get_arg cmd 2 = Some s2" by (rule get_string_arg [OF assms(1), of 2]) (use False in auto)
  obtain s3 where s3: "get_arg cmd 3 = Some s3" by (rule get_string_arg [OF assms(1), of 3]) (use False in auto)
  have items: "handled rb (let items = case p of None \<Rightarrow> [] | Some vs \<Rightarrow> vs in
      bindR (resp_write_array_header rb (length items)) (\<lambda>rb1. reply_with w' (write_items rb1 items)))"
    if "world_ok w'" "\<forall>xs. p = Some xs \<longrightarrow> (\<forall>v\<in>set xs. \<exists>s. v = Some s \<and> cstr_ok s)" for w' p
    unfolding Let_def by (rule items_reply [OF assms(3)]) (use that in \<open>auto split: option.splits\<close>)
  have "handled rb (on_db w (\<lambda>db. db_lrange clk db (Some key) (atoi s2) (atoi s3)) (\<lambda>w' p.
      let items = case p of None \<Rightarrow> [] | Some vs \<Rightarrow> vs in
      bindR (resp_write_array_header rb (length items)) (\<lambda>rb1. reply_with w' (write_items rb1 items))))"
    by (rule on_db_ok [OF db_lrange_ok]) (use assms items in auto)
  with False key s2 s3 show ?thesis by (simp add: cmd_lrange_def)
qed

lemma expire_handled:
  assumes "string_args cmd" "world_ok w" "rb_ok rb"
  shows "handled rb (cmd_expire clk env w cmd rb)"
proof (cases "arg_count cmd < 3")
  case True
  with assms show ?thesis by (simp add: cmd_expire_def handled_replies)
next
  case False
  obtain key where key: "get_arg cmd 1 = Some key" by (rule get_string_arg [OF assms(1), of 1]) (use False in auto)
  obtain s2 where s2: "get_arg cmd 2 = Some s2" by (rule get_string_arg [OF assms(1), of 2]) (use False in auto)
  show ?thesis
    unfolding cmd_expire_def key s2 using False
    by (simp, intro on_db_ok [OF db_expire_ok]) (use assms in \<open>auto simp: handled_replies\<close>)
qed

lemma key_commands_handled:
  assumes "string_args cmd" "world_ok w" "rb_ok rb"
  shows "handled rb (cmd_exists clk env w cmd rb)" "handled rb (cmd_llen clk env w cmd rb)"
    "handled rb (cmd_ttl clk env w cmd rb)" "handled rb (cmd_persist clk env w cmd rb)"
proof -
  note key = key_handled [OF assms]
  show "handled rb (cmd_exists clk env w cmd rb)" unfolding cmd_exists_def
    by (rule key [where P = in_int64]) (use assms in \<open>auto simp: handled_replies intro: db_exists_ok\<close>)
  show "handled rb (cmd_llen clk env w cmd rb)" unfolding cmd_llen_def
    by (rule key [where P = "\<lambda>x. True"]) (use assms in \<open>auto simp: handled_replies intro: db_llen_ok\<close>)
  show "handled rb (cmd_ttl clk env w cmd rb)" unfolding cmd_ttl_def
    by (rule key [where P = in_int64]) (use assms in \<open>auto simp: handled_replies intro: db_ttl_ok\<close>)
  show "handled rb (cmd_persist clk env w cmd rb)" unfolding cmd_persist_def
    by (rule key [where P = in_int64]) (use assms in \<open>auto simp: handled_replies intro: db_persist_ok\<close>)
qed

lemma save_total: "world_ok w \<Longrightarrow> \<exists>d r. persist_save env (w_db w) (w_disk w) dump_name = Inr (d, r)"
  using persist_save_bytes [of "w_db w" dump_name env "w_disk w"]
  by (auto simp: dump_name_def tmp_name_def split: if_splits)

lemma server_commands_handled:
  assumes "world_ok w" "rb_ok rb"
  shows "handled rb (cmd_dbsize clk env w cmd rb)" "handled rb (cmd_flushdb clk env w cmd rb)"
    "handled rb (cmd_info clk env w cmd rb)" "handled rb (cmd_save clk env w cmd rb)"
    "handled rb (cmd_shutdown clk env w cmd rb)"
proof -
  obtain d r where save: "persist_save env (w_db w) (w_disk w) dump_name = Inr (d, r)" using save_total [OF assms(1)] by blast
  have ok: "appends rb (encode (RESP_SIMPLE_STRING ''OK'')) (resp_write_simple_string rb ''OK'')"
    by (rule writer_replies(1) [OF assms(2)]) simp
  have flushed: "world_ok (w\<lparr>w_db := (w_db w)\<lparr>db_ht := empty_table 64\<rparr>\<rparr>)"
    by (simp add: db_ok_def ht_all_empty)
  show "handled rb (cmd_dbsize clk env w cmd rb)" "handled rb (cmd_info clk env w cmd rb)"
    using assms by (simp_all add: cmd_dbsize_def cmd_info_def Let_def handled_replies)
  show "handled rb (cmd_flushdb clk env w cmd rb)"
    using reply_handled [OF flushed _ ok] by (simp add: cmd_flushdb_def db_flush_eq CR_def)
  show "handled rb (cmd_save clk env w cmd rb)"
    using assms by (simp add: cmd_save_def save handled_replies)
  show "handled rb (cmd_shutdown clk env w cmd rb)"
    using assms ok by (auto simp: cmd_shutdown_def save appends_def one_reply_def CR_def simp del: encode.simps
        intro!: exI [of _ "RESP_SIMPLE_STRING ''OK''"])
qed

section \<open>Dispatch\<close>

lemma table_handled:
  assumes "string_args cmd" "world_ok w" "rb_ok rb" "(n, h) \<in> set command_table"
  shows "handled rb (h clk env w cmd rb)"
proof -
  have d: "in_int64 1" "in_int64 (- 1)" by (simp_all add: int64_small)
  note all = ping_handled [OF assms(1-3)] set_handled [OF assms(1-3)] get_handled [OF assms(1-3)]
    del_handled [OF assms(1-3)] incr_handled [OF assms(1-3) d(1)] incr_handled [OF assms(1-3) d(2)]
    mset_handled [OF assms(1-3)] mget_handled [OF assms(1-3)]
    push_commands_handled [OF assms(1-3)]
    pop_handled [OF assms(1-3)] lrange_handled [OF assms(1-3)] expire_handled [OF assms(1-3)]
    key_commands_handled [OF assms(1-3)] server_commands_handled [OF assms(2,3)]
  from assms(4) show ?thesis
    unfolding command_table_def
    by (auto simp: all cmd_incr_def cmd_decr_def cmd_lpop_def cmd_rpop_def)
qed

lemma find_command_in: "find_command name es = Some h \<Longrightarrow> \<exists>n. (n, h) \<in> set es"
  by (induction es) (auto split: if_splits)

lemma find_command_same:
  "find_command name es = Some h \<Longrightarrow> \<exists>n. (n, h) \<in> set es \<and> imdb_strcasecmp name n = 0"
  by (induction es) (auto split: if_splits)

lemma find_command_unique:
  assumes "distinct (map (map c_tolower \<circ> fst) es)" "\<forall>(n, h) \<in> set es. cstr_ok n" "cstr_ok name"
    and "(n, h) \<in> set es" "map c_tolower name = map c_tolower n"
  shows "find_command name es = Some h"
  using assms
proof (induction es)
  case (Cons e es)
  obtain m g where e: "e = (m, g)" by (cases e)
  have eq: "imdb_strcasecmp name m = 0 \<longleftrightarrow> map c_tolower name = map c_tolower m"
    using Cons.prems e by (intro strcasecmp_eq_0) auto
  show ?case
  proof (cases "(n, h) = (m, g)")
    case True
    with e eq Cons.prems show ?thesis by simp
  next
    case False
    then have mem: "(n, h) \<in> set es" using Cons.prems(4) e by auto
    then have "map c_tolower n \<in> set (map (map c_tolower \<circ> fst) es)" by force
    moreover have "map c_tolower m \<notin> set (map (map c_tolower \<circ> fst) es)" using Cons.prems(1) e by simp
    ultimately have "map c_tolower name \<noteq> map c_tolower m" using Cons.prems(5) by metis
    with e eq Cons mem show ?thesis by simp
  qed
qed simp

lemma command_names: "distinct (map (map c_tolower \<circ> fst) command_table)" "\<forall>(n, h) \<in> set command_table. cstr_ok n"
  by (simp_all add: command_table_def c_tolower_def cstr_ok_def NUL_def)

lemma execute_known:
  assumes "(n, h) \<in> set command_table" "cstr_ok name" "map c_tolower name = map c_tolower n"
  shows "command_execute clk env w (Some (RESP_ARRAY (RESP_BULK_STRING name # args))) rb =
    h clk env w (RESP_ARRAY (RESP_BULK_STRING name # args)) rb"
  using find_command_unique [OF command_names assms(2,1,3)]
  by (simp add: command_execute_def get_arg_def)

lemma execute_cases:
  assumes "string_args cmd" "world_ok w" "rb_ok rb"
  shows "handled rb (command_execute clk env w (Some cmd) rb) \<or>
    (\<exists>name. get_arg cmd 0 = Some name \<and> find_command name command_table = None \<and>
       command_execute clk env w (Some cmd) rb =
         reply_with w (resp_write_error rb (take 127 (''ERR unknown command '' @ [CHR 0x27] @ name @ [CHR 0x27]))))"
proof (cases "\<exists>items. cmd = RESP_ARRAY items \<and> items \<noteq> []")
  case False
  with assms(2,3) show ?thesis by (cases cmd) (auto simp: command_execute_def handled_replies)
next
  case True
  then obtain items where items: "cmd = RESP_ARRAY items" "items \<noteq> []" by auto
  obtain name where name: "get_arg cmd 0 = Some name"
    by (rule get_string_arg [OF assms(1), of 0]) (use items in \<open>auto simp: arg_count_def\<close>)
  show ?thesis
  proof (cases "find_command name command_table")
    case None
    with items name show ?thesis by (simp add: command_execute_def)
  next
    case (Some h)
    with find_command_in obtain n where "(n, h) \<in> set command_table" by blast
    from table_handled [OF assms(1-3) this, of clk env] Some items name show ?thesis
      by (simp add: command_execute_def)
  qed
qed

lemma execute_one_reply:
  assumes "string_args cmd" "world_ok w" "rb_ok rb"
    and "\<And>name. get_arg cmd 0 = Some name \<Longrightarrow> find_command name command_table = None \<Longrightarrow> length name \<le> 102 \<and> CR \<notin> set name"
  shows "handled rb (command_execute clk env w (Some cmd) rb)"
  using execute_cases [OF assms(1-3), of clk env]
proof (elim disjE exE conjE)
  fix name assume name: "get_arg cmd 0 = Some name" "find_command name command_table = None"
    and run: "command_execute clk env w (Some cmd) rb =
      reply_with w (resp_write_error rb (take 127 (''ERR unknown command '' @ [CHR 0x27] @ name @ [CHR 0x27])))"
  have "take 127 (''ERR unknown command '' @ [CHR 0x27] @ name @ [CHR 0x27]) = ''ERR unknown command '' @ [CHR 0x27] @ name @ [CHR 0x27]"
    by (rule take_all) (use assms(4) [OF name] in simp)
  then show ?thesis unfolding run using assms(4) [OF name]
    by (auto intro!: handled_replies(2) [OF assms(3,2)] simp: no_CR_iff [symmetric])
qed

lemma execute_handled:
  assumes "string_args cmd" "world_ok w" "rb_ok rb" "\<And>name. get_arg cmd 0 = Some name \<Longrightarrow> length name \<le> 102"
  shows "res_ok {SignedOverflow} (some_reply rb) (command_execute clk env w (Some cmd) rb)"
  using execute_cases [OF assms(1-3), of clk env]
proof (elim disjE exE conjE)
  assume "handled rb (command_execute clk env w (Some cmd) rb)"
  then show ?thesis by (rule res_ok_mono) (rule some_of_one)
next
  fix name assume name: "get_arg cmd 0 = Some name"
    and run: "command_execute clk env w (Some cmd) rb =
      reply_with w (resp_write_error rb (take 127 (''ERR unknown command '' @ [CHR 0x27] @ name @ [CHR 0x27])))"
  let ?msg = "take 127 (''ERR unknown command '' @ [CHR 0x27] @ name @ [CHR 0x27])"
  have "length ?msg \<le> 124" using assms(4) [OF name] by simp
  from writer_replies(2) [OF assms(3) this] assms(2) show ?thesis unfolding run
    by (auto simp: appends_def reply_with_def some_reply_def simp del: encode.simps intro!: exI [of _ "RESP_ERROR ?msg"])
qed

section \<open>Properties\<close>

text \<open>C12: a command whose arguments are strings, sent to a well-formed database, runs without reading a null
  or freed pointer or foreign memory and without a loop that does not end; a signed overflow, in INCR, DECR, SET,
  EXPIRE or TTL, is the only fault that is left. If it does not overflow, it keeps the database well formed and appends the
  encoding of exactly one value, and of no other: the lines of the value hold no CR, and there is only one such value with
  these bytes. For a name that is not in the table of commands this needs at most 102 characters and no CR:
  from 104 characters on the error reads beyond its buffer (\<open>unknown_command_overread\<close>), and a name with a line
  end makes two replies out of one (\<open>unknown_command_splits_reply\<close>).\<close>

theorem command_execute_safe:
  assumes "string_args cmd" "world_ok w" "rb_ok rb"
    and "\<And>name. get_arg cmd 0 = Some name \<Longrightarrow> find_command name command_table = None \<Longrightarrow> length name \<le> 102 \<and> CR \<notin> set name"
  shows "res_ok {SignedOverflow} (\<lambda>(w', rb'). world_ok w' \<and> rb_ok rb' \<and>
      (\<exists>!v. one_line v \<and> rb_data rb' = rb_data rb @ encode v)) (command_execute clk env w (Some cmd) rb)"
proof (rule res_ok_mono [OF execute_one_reply [OF assms]])
  fix x assume "one_reply rb x"
  then obtain w' rb' v where x: "x = (w', rb')" "world_ok w'" "rb_ok rb'" "one_line v" "rb_data rb' = rb_data rb @ encode v"
    by (cases x) (auto simp: one_reply_def)
  have "v' = v" if "one_line v' \<and> rb_data rb' = rb_data rb @ encode v'" for v'
    using encode_unique [of v' v "[]" "[]"] that x(4,5) by simp
  with x show "case x of (w', rb') \<Rightarrow> world_ok w' \<and> rb_ok rb' \<and> (\<exists>!v. one_line v \<and> rb_data rb' = rb_data rb @ encode v)"
    by (auto simp del: encode.simps)
qed

theorem command_execute_safe_witness:
  "res_ok {SignedOverflow} (\<lambda>(w', rb'). world_ok w' \<and> rb_ok rb' \<and> (\<exists>!v. one_line v \<and> rb_data rb' = [] @ encode v))
    (command_execute (\<lambda>n. 0) \<lparr>io_open = False, io_room = 0, io_rename = True\<rparr>
     \<lparr>w_db = sample_db sample_entry, w_disk = Map.empty, w_running = Some True\<rparr>
     (Some (RESP_ARRAY [RESP_BULK_STRING ''LPOP'', RESP_BULK_STRING ''a''])) resp_buf_init)"
  unfolding rb_ok_init(2) [symmetric]
  by (rule command_execute_safe)
    (simp_all add: string_args_def arg_count_def get_arg_def world_ok_def sample_entry_ok less_Suc_eq cstr_ok_def NUL_def
      All_less_Suc eval_nat_numeral CR_def)

text \<open>The error for an unknown command repeats the name as it was sent. A name with a line end in it makes two
  replies of one request, the second of the choice of whoever chose the name.\<close>

theorem unknown_command_splits_reply:
  "\<exists>rb'. command_execute clk env w (Some (RESP_ARRAY [RESP_BULK_STRING (''x'' @ CRLF @ ''+OK'')])) resp_buf_init = Inr (w, rb') \<and>
     rb_data rb' = encode (RESP_ERROR (''ERR unknown command '' @ [CHR 0x27] @ ''x'')) @ encode (RESP_SIMPLE_STRING (''OK'' @ [CHR 0x27]))"
proof -
  let ?name = "''x'' @ CRLF @ ''+OK''"
  have none: "find_command ?name command_table = None"
    by (simp add: command_table_def c_tolower_def CR_def LF_def Let_def)
  let ?msg = "''ERR unknown command '' @ [CHR 0x27] @ ?name @ [CHR 0x27]"
  obtain rb' where "resp_write_error resp_buf_init ?msg = Inr rb'" "rb_data rb' = encode (RESP_ERROR ?msg)"
    using writer_replies(2) [OF rb_ok_init(1), of ?msg] by (auto simp: appends_def simp del: encode.simps)
  then show ?thesis using none by (simp add: command_execute_def get_arg_def reply_with_def)
qed

text \<open>The name of a command is recognised in any mixture of cases, and each of the 23 names leads to
  its own handler: no entry of the table is shadowed by an earlier one.\<close>

theorem command_dispatch_any_case:
  assumes "(n, h) \<in> set command_table" "cstr_ok name" "map c_tolower name = map c_tolower n"
  shows "command_execute clk env w (Some (RESP_ARRAY (RESP_BULK_STRING name # args))) rb =
    h clk env w (RESP_ARRAY (RESP_BULK_STRING name # args)) rb"
  by (rule execute_known [OF assms])

theorem command_dispatch_any_case_witness:
  "\<forall>clk env w args rb. command_execute clk env w (Some (RESP_ARRAY (RESP_BULK_STRING ''dBsIzE'' # args))) rb =
    cmd_dbsize clk env w (RESP_ARRAY (RESP_BULK_STRING ''dBsIzE'' # args)) rb"
  by (intro allI, rule command_dispatch_any_case [of "''DBSIZE''"])
    (simp_all add: command_table_def cstr_ok_def NUL_def c_tolower_def)

text \<open>\<open>GET\<close> after \<open>SET\<close> answers with the text of the value, unless the text reads as a 64-bit
  integer: then the answer is the number printed anew, so that "007", "+5" and " 12" come back as "7",
  "5" and "12".\<close>

theorem get_after_set_reply:
  assumes g: "good (db_ht (w_db w))" and s: "set_ok (db_ht (w_db w)) k" and rb: "rb_ok rb"
  shows "\<exists>w1 rb1 w2. cmd_set clk env w (RESP_ARRAY [RESP_BULK_STRING ''SET'', RESP_BULK_STRING k, RESP_BULK_STRING v]) rb =
      Inr (w1, rb1) \<and> rb_data rb1 = rb_data rb @ encode (RESP_SIMPLE_STRING ''OK'') \<and>
    (\<exists>rb2. cmd_get clk env w1 (RESP_ARRAY [RESP_BULK_STRING ''GET'', RESP_BULK_STRING k]) rb1 = Inr (w2, rb2) \<and>
       rb_data rb2 = rb_data rb1 @ encode (RESP_BULK_STRING
         (case obj_try_parse_int (Some v) of None \<Rightarrow> v | Some n \<Rightarrow> dec_int n)))"
proof -
  define e where "e = \<lparr>obj = obj_of_value (Some v), expire = -1\<rparr>"
  obtain db1 where db1: "ht_put (w_db w) k e = Inr db1" "good (db_ht db1)" "db_view db1 = (db_view (w_db w))(k \<mapsto> e)"
    by (rule dbt.put_view [OF g s, of e])
  define w1 where "w1 = w\<lparr>w_db := db1\<rparr>"
  have vis: "db_visible (db_now clk db1) db1 k = Some e" by (simp add: db_visible_def db1 e_def)
  obtain db2 idx where db2: "db_get_entry clk db1 k = Inr (db2, Some idx)" "entry_at db2 idx = Inr e"
    using db1(2) vis by (rule dbt.get_entry_visible)
  obtain rb1 where rb1: "resp_write_simple_string rb ''OK'' = Inr rb1" "rb_ok rb1"
      "rb_data rb1 = rb_data rb @ encode (RESP_SIMPLE_STRING ''OK'')"
    using writer_replies(1) [OF rb, of "''OK''"] by (auto simp: appends_def simp del: encode.simps)
  let ?text = "case obj_try_parse_int (Some v) of None \<Rightarrow> v | Some n \<Rightarrow> dec_int n"
  obtain rb2 where rb2: "resp_write_bulk_string rb1 ?text = Inr rb2" "rb_data rb2 = rb_data rb1 @ encode (RESP_BULK_STRING ?text)"
    using writer_replies(5) [OF rb1(2), of ?text] by (auto simp: appends_def simp del: encode.simps)
  have set: "cmd_set clk env w (RESP_ARRAY [RESP_BULK_STRING ''SET'', RESP_BULK_STRING k, RESP_BULK_STRING v]) rb = Inr (w1, rb1)"
    using db1(1) rb1(1) by (simp add: cmd_set_def arg_count_def get_arg_def on_db_def db_set_def e_def [symmetric]
        set_options.simps reply_with_def w1_def)
  have "obj e = (case obj_try_parse_int (Some v) of None \<Rightarrow> OBJ_STRING (Some v) | Some n \<Rightarrow> OBJ_INT n)"
    by (simp add: e_def obj_of_value_def obj_create_int_def obj_create_string_def imdb_strdup_def split: option.split)
  with db2 rb2(1) have "cmd_get clk env w1 (RESP_ARRAY [RESP_BULK_STRING ''GET'', RESP_BULK_STRING k]) rb1 =
      Inr (w1\<lparr>w_db := db2\<rparr>, rb2)"
    by (cases "obj_try_parse_int (Some v)")
       (simp_all add: cmd_get_def arg_count_def get_arg_def on_db_def db_get_def w1_def reply_with_def write_bulk_def)
  with set rb1 rb2 show ?thesis by blast
qed

theorem get_after_set_reply_witness:
  "\<exists>w1 rb1 w2. cmd_set (\<lambda>n. 0) \<lparr>io_open = False, io_room = 0, io_rename = True\<rparr>
      \<lparr>w_db = empty_db, w_disk = Map.empty, w_running = Some True\<rparr>
      (RESP_ARRAY [RESP_BULK_STRING ''SET'', RESP_BULK_STRING ''k'', RESP_BULK_STRING ''007'']) resp_buf_init = Inr (w1, rb1) \<and>
    rb_data rb1 = rb_data resp_buf_init @ encode (RESP_SIMPLE_STRING ''OK'') \<and>
    (\<exists>rb2. cmd_get (\<lambda>n. 0) \<lparr>io_open = False, io_room = 0, io_rename = True\<rparr> w1
         (RESP_ARRAY [RESP_BULK_STRING ''GET'', RESP_BULK_STRING ''k'']) rb1 = Inr (w2, rb2) \<and>
       rb_data rb2 = rb_data rb1 @ encode (RESP_BULK_STRING ''7''))"
proof -
  have n: "obj_try_parse_int (Some ''007'') = Some 7"
    by (simp add: obj_try_parse_int_def strtoll_def split_sign_def c_isspace_def c_isdigit_def digits_val_def
        digit_val_def INT64_MIN_def INT64_MAX_def Let_def)
  have t: "dec_int 7 = ''7''" by code_simp
  show ?thesis
    using get_after_set_reply [of "\<lparr>w_db = empty_db, w_disk = Map.empty, w_running = Some True\<rparr>" "''k''" resp_buf_init
        "\<lambda>n. 0" "\<lparr>io_open = False, io_room = 0, io_rename = True\<rparr>" "''007''"]
    unfolding n option.case t by simp
qed

text \<open>A list with a NULL value in it cannot be saved.\<close>

definition null_list :: db_entry where
  "null_list = \<lparr>obj = OBJ_LIST [None], expire = -1\<rparr>"

lemma lpush_null:
  "\<exists>ht. db_lpush clk empty_db (Some ''k'') None = Inr (empty_db\<lparr>db_ht := ht\<rparr>, 1) \<and> pairs_from ht 0 = [(''k'', null_list)]"
proof -
  obtain ht r where set: "ht_set (empty_table 64) ''k'' null_list = Some (ht, r)" "wf_ht ht"
      "inserted ''k'' (ht_bag (empty_table 64)) (''k'', null_list) (ht_bag ht) r"
    using ht_set_spec [OF wf_empty_table [OF table_cap_64], of "''k''" null_list] by auto
  have bag: "ht_bag ht = {#(''k'', null_list)#}"
    using inserted_fresh(2) [OF set(3)] by (simp add: ht_bag_def empty_table_def)
  have "mset (pairs_from ht 0) = {#(''k'', null_list)#}" using mset_pairs_from [OF wf_htD(3) [OF set(2)]] bag by simp
  moreover have "ht_find (db_ht empty_db) ''k'' = Some None"
    using tbl.find_lookup [OF empty_db_facts(1), of "''k''"] empty_db_facts(2) by (simp add: db_view_def)
  ultimately show ?thesis
    using set(1) by (simp add: db_lpush_def get_or_create_list_def check_expired_def ht_get_entry_def entry_ptr_def
        obj_create_list_def save_entry_def ht_put_def null_list_def empty_db_def to_int32_def)
qed

lemma bindW_assoc:
  "bindW (Inr (fwrite f a)) (\<lambda>f1. bindW (Inr (fwrite f1 b)) k) = bindW (Inr (fwrite f (a @ b))) k"
  using fwrite_append [of f a b] by (cases "fwrite f a") (auto simp: bindW_def)

lemma save_null_list:
  assumes "pairs_from (db_ht db) 0 = [(''k'', null_list)]" "io_open env" "100 \<le> io_room env"
  shows "persist_save env db d name = Inl NullDeref"
proof -
  obtain i' p where iter: "ht_iter_next (db_ht db) 0 = (i', p)" by (cases "ht_iter_next (db_ht db) 0")
  with pairs_from_next [of "db_ht db" 0] assms(1) obtain s h where
    s: "p = Some s" "entries (db_ht db) ! s = HtOccupied ''k'' h null_list" by (cases p) auto
  have step: "\<exists>g. 5 \<le> room g \<and> bindW (Inr (fwrite f b)) k = k g" if "length b + 5 \<le> room f" for f b k
    using that by (intro exI [of _ "f\<lparr>written := written f @ b, room := room f - length b\<rparr>"]) (simp add: fwrite_def bindW_def)
  have data: "write_value_data f (obj null_list) = Inl NullDeref" if "5 \<le> room f" for f
    using that by (simp add: null_list_def write_value_data_def write_uint32_def fwrite_def bindW_def write_cstr_def)
  have head: "write_dump_entry f k null_list =
      bindW (Inr (fwrite f ([char_of (rdb_type (obj null_list))] @ bytes_le 8 (nat (- 1 mod 2 ^ 64)) @ enc_str k)))
        (\<lambda>f3. write_value_data f3 (obj null_list))" for f k
    by (simp add: write_dump_entry_def write_cstr_bytes write_int64_def null_list_def bindW_assoc)
  have "write_dump_entry f ''k'' null_list = Inl NullDeref" if "90 \<le> room f" for f
  proof -
    have "length (enc_str ''k'') = 5" by (simp add: enc_str_def)
    with that have "length ([char_of (rdb_type (obj null_list))] @ bytes_le 8 (nat (- 1 mod 2 ^ 64)) @ enc_str ''k'') + 5 \<le> room f"
      by simp
    from step [OF this, of "\<lambda>f3. write_value_data f3 (obj null_list)"] show ?thesis
      unfolding head by (auto simp del: append.simps simp: data)
  qed
  then have "write_entries f (db_ht db) 0 = Inl NullDeref" if "90 \<le> room f" for f
    using iter s that by (simp add: write_entries.simps [of f] bindW_def)
  with assms(2,3) show ?thesis by (simp add: persist_save_def Let_def bindW_def fwrite_def RDB_MAGIC_def)
qed

text \<open>C40: an argument that is no string is passed on as a null pointer: a GET or PING with an integer
  argument crashes the server at once, and an LPUSH with one is accepted and crashes the next SAVE.\<close>

theorem non_string_argument_crashes:
  "(\<forall>clk env w rb. command_execute clk env w (Some (RESP_ARRAY [RESP_BULK_STRING ''GET'', RESP_INTEGER 5])) rb = Inl NullDeref) \<and>
   (\<forall>clk env w rb. command_execute clk env w (Some (RESP_ARRAY [RESP_BULK_STRING ''PING'', RESP_INTEGER 5])) rb = Inl NullDeref) \<and>
   (\<exists>w1 rb1. command_execute (\<lambda>n. 0) \<lparr>io_open = True, io_room = 100, io_rename = True\<rparr>
        \<lparr>w_db = empty_db, w_disk = Map.empty, w_running = None\<rparr>
        (Some (RESP_ARRAY [RESP_BULK_STRING ''LPUSH'', RESP_BULK_STRING ''k'', RESP_INTEGER 5])) resp_buf_init = Inr (w1, rb1) \<and>
      command_execute (\<lambda>n. 0) \<lparr>io_open = True, io_room = 100, io_rename = True\<rparr> w1
        (Some (RESP_ARRAY [RESP_BULK_STRING ''SAVE''])) rb1 = Inl NullDeref)"
proof -
  have known: "(''GET'', cmd_get) \<in> set command_table" "(''PING'', cmd_ping) \<in> set command_table"
      "(''LPUSH'', cmd_lpush) \<in> set command_table" "(''SAVE'', cmd_save) \<in> set command_table"
    by (simp_all add: command_table_def)
  have ok: "cstr_ok ''GET''" "cstr_ok ''PING''" "cstr_ok ''LPUSH''" "cstr_ok ''SAVE''"
    by (simp_all add: cstr_ok_def NUL_def)
  note run = execute_known [OF known(1) ok(1) refl] execute_known [OF known(2) ok(2) refl]
    execute_known [OF known(3) ok(3) refl] execute_known [OF known(4) ok(4) refl]
  let ?env = "\<lparr>io_open = True, io_room = 100, io_rename = True\<rparr>"
  obtain ht where lpush: "db_lpush (\<lambda>n. 0) empty_db (Some ''k'') None = Inr (empty_db\<lparr>db_ht := ht\<rparr>, 1)"
      "pairs_from ht 0 = [(''k'', null_list)]" using lpush_null by blast
  obtain rb1 where rb1: "resp_write_integer resp_buf_init 1 = Inr rb1"
    using writer_replies(3) [OF rb_ok_init(1)] by (auto simp: appends_def simp del: encode.simps)
  have "cmd_lpush (\<lambda>n. 0) ?env \<lparr>w_db = empty_db, w_disk = Map.empty, w_running = None\<rparr>
      (RESP_ARRAY [RESP_BULK_STRING ''LPUSH'', RESP_BULK_STRING ''k'', RESP_INTEGER 5]) resp_buf_init =
    Inr (\<lparr>w_db = empty_db\<lparr>db_ht := ht\<rparr>, w_disk = Map.empty, w_running = None\<rparr>, rb1)"
    using lpush(1) rb1
    by (simp add: cmd_lpush_def push_with_def arg_count_def get_arg_def push_loop.simps on_db_def reply_with_def)
  moreover have "cmd_save (\<lambda>n. 0) ?env \<lparr>w_db = empty_db\<lparr>db_ht := ht\<rparr>, w_disk = Map.empty, w_running = None\<rparr>
      (RESP_ARRAY [RESP_BULK_STRING ''SAVE'']) rb1 = Inl NullDeref"
    using save_null_list [of "empty_db\<lparr>db_ht := ht\<rparr>" ?env] lpush(2) by (simp add: cmd_save_def)
  moreover have "cmd_get clk env w (RESP_ARRAY [RESP_BULK_STRING ''GET'', RESP_INTEGER 5]) rb = Inl NullDeref"
    "cmd_ping clk env w (RESP_ARRAY [RESP_BULK_STRING ''PING'', RESP_INTEGER 5]) rb = Inl NullDeref" for clk env w rb
    by (simp_all add: cmd_get_def cmd_ping_def arg_count_def get_arg_def on_db_def db_get_def write_bulk_def reply_with_def)
  ultimately show ?thesis unfolding run by blast
qed

text \<open>The error for an unknown command reads past the 128 bytes of the formatting buffer
  when the name has 104 characters or more.\<close>

theorem unknown_command_overread:
  assumes "find_command name command_table = None" "104 \<le> length name"
  shows "command_execute clk env w (Some (RESP_ARRAY (RESP_BULK_STRING name # args))) rb = Inl OutOfBounds"
proof -
  have long: "resp_write_error rb s = Inl OutOfBounds" if "126 \<le> length s" for s
    using that by (simp add: resp_write_error_def resp_buf_appendf_def Let_def)
  have "126 \<le> length (take 127 (''ERR unknown command '' @ [CHR 0x27] @ name @ [CHR 0x27]))"
    using assms(2) by simp
  from long [OF this] show ?thesis
    using assms(1) by (simp add: command_execute_def get_arg_def reply_with_def del: append.simps take_append take_Cons_numeral)
qed

theorem unknown_command_overread_witness:
  "\<forall>clk env w args rb. command_execute clk env w
     (Some (RESP_ARRAY (RESP_BULK_STRING (replicate 104 (CHR ''?'')) # args))) rb = Inl OutOfBounds"
proof -
  have "find_command (CHR ''?'' # s) command_table = None" for s
    by (simp add: command_table_def c_tolower_def Let_def)
  then have "find_command (replicate 104 (CHR ''?'')) command_table = None"
    by (metis replicate_Suc numeral_eq_Suc)
  from unknown_command_overread [OF this] show ?thesis by simp
qed

end
