(* ===== verification/Server_Conn.thy ===== *)
theory Server_Conn
  imports Server Command_Props
begin

text \<open>
  One connection of the server: the bounds of its buffers; that the received bytes are executed command
  by command, in whatever pieces they arrive; and that the bytes sent are the replies in order.
\<close>

section \<open>Connections\<close>

text \<open>The bounds of the two buffers of a client.\<close>

definition conn_ok :: "client \<Rightarrow> bool" where
  "conn_ok c \<longleftrightarrow> length (c_read_buf c) = CLIENT_BUF_SIZE \<and> c_read_len c \<le> CLIENT_BUF_SIZE \<and>
     c_write_pos c \<le> length (c_write_buf c) \<and> length (c_write_buf c) \<le> c_write_cap c \<and> 0 < c_write_cap c"

text \<open>The bytes received and not yet consumed, and those queued and not yet sent.\<close>

definition received :: "client \<Rightarrow> string" where
  "received c = take (c_read_len c) (c_read_buf c)"

definition pending :: "client \<Rightarrow> string" where
  "pending c = drop (c_write_pos c) (c_write_buf c)"

lemma conn_create [simp]:
  "conn_ok (client_create fd)" "received (client_create fd) = []" "pending (client_create fd) = []"
  "c_fd (client_create fd) = fd"
  by (simp_all add: conn_ok_def client_create_def received_def pending_def)

lemma received_length: "conn_ok c \<Longrightarrow> length (received c) = c_read_len c"
  by (simp add: conn_ok_def received_def)

lemma queue_ok:
  assumes "conn_ok c"
  obtains c' where "client_queue_write c d = Inr c'" "conn_ok c'" "pending c' = pending c @ d" "c_fd c' = c_fd c"
    "c_read_buf c' = c_read_buf c" "c_read_len c' = c_read_len c" "c_write_buf c' = c_write_buf c @ d"
    "c_write_pos c' = c_write_pos c"
proof -
  obtain cap where "grow_cap (length (c_write_buf c) + length d) (c_write_cap c) = Some cap"
      "length (c_write_buf c) + length d \<le> cap" "c_write_cap c \<le> cap"
    using grow_cap_total [of "c_write_cap c" "length (c_write_buf c) + length d"] assms by (auto simp: conn_ok_def)
  with assms show ?thesis
    by (intro that [of "c\<lparr>c_write_cap := cap, c_write_buf := c_write_buf c @ d\<rparr>"])
       (auto simp: client_queue_write_def conn_ok_def pending_def)
qed

lemma consume_ok:
  assumes "conn_ok c" "n \<le> c_read_len c"
  obtains c' where "consume_input c n = Inr c'" "conn_ok c'" "received c' = drop n (received c)" "c_fd c' = c_fd c"
    "c_write_buf c' = c_write_buf c" "c_write_pos c' = c_write_pos c" "c_read_len c' = c_read_len c - n"
    "c_read_len c - n < CLIENT_BUF_SIZE \<Longrightarrow> last (c_read_buf c') = last (c_read_buf c)"
proof -
  let ?left = "c_read_len c - n"
  let ?c = "c\<lparr>c_read_buf := take ?left (drop n (c_read_buf c)) @ drop ?left (c_read_buf c), c_read_len := ?left\<rparr>"
  have "?left < CLIENT_BUF_SIZE \<Longrightarrow> last (drop ?left (c_read_buf c)) = last (c_read_buf c)" "?left < CLIENT_BUF_SIZE \<Longrightarrow> drop ?left (c_read_buf c) \<noteq> []"
    using assms(1) by (auto simp: conn_ok_def)
  with assms show ?thesis
    by (intro that [of ?c]) (auto simp: consume_input_def conn_ok_def received_def Let_def drop_take min_def)
qed

lemma recv_ok:
  assumes "conn_ok c" "client_recv (Some bytes) c = Some c'"
  shows "conn_ok c'" "received c' = received c @ take (CLIENT_BUF_SIZE - c_read_len c) bytes" "c_fd c' = c_fd c"
    "c_write_buf c' = c_write_buf c" "c_write_pos c' = c_write_pos c"
    "c_read_len c' < CLIENT_BUF_SIZE \<Longrightarrow> last (c_read_buf c') = last (c_read_buf c)"
proof -
  let ?got = "take (CLIENT_BUF_SIZE - c_read_len c) bytes"
  have c': "c' = c\<lparr>c_read_buf := take (c_read_len c) (c_read_buf c) @ ?got @ drop (c_read_len c + length ?got) (c_read_buf c),
      c_read_len := c_read_len c + length ?got\<rparr>"
    using assms(2) by (auto simp: client_recv_def Let_def split: if_splits)
  have len: "length (c_read_buf c) = CLIENT_BUF_SIZE" "c_read_len c \<le> CLIENT_BUF_SIZE" using assms(1) by (auto simp: conn_ok_def)
  from assms(1) len show "conn_ok c'" unfolding c' by (auto simp: conn_ok_def)
  show "c_fd c' = c_fd c" "c_write_buf c' = c_write_buf c" "c_write_pos c' = c_write_pos c" by (simp_all add: c')
  show "received c' = received c @ ?got" using len by (simp add: c' received_def min_def)
  have "c_read_len c + length ?got < CLIENT_BUF_SIZE \<Longrightarrow> drop (c_read_len c + length ?got) (c_read_buf c) \<noteq> []"
    using len by auto
  then show "c_read_len c' < CLIENT_BUF_SIZE \<Longrightarrow> last (c_read_buf c') = last (c_read_buf c)"
    using len by (auto simp: c')
qed

lemma send_ok:
  assumes "conn_ok c" "client_send answer c = Some (c', sent)"
  shows "conn_ok c'" "sent @ pending c' = pending c" "c_fd c' = c_fd c" "sent \<noteq> []" "received c' = received c"
  using assms by (auto simp: client_send_def conn_ok_def pending_def received_def Let_def min_def
      drop_drop [symmetric] add.commute simp del: drop_drop split: option.splits if_splits)

lemma encode_nonempty: "encode v \<noteq> []"
  by (cases v) auto

section \<open>Processing input\<close>

text \<open>Processing keeps the connection in order, and only ever adds to the pending replies.\<close>

lemma process_ok:
  assumes "process_client_input clk env n w c = Inr (w', c')" "conn_ok c"
  shows "conn_ok c' \<and> c_fd c' = c_fd c \<and> (\<exists>d. pending c' = pending c @ d)"
  using assms
proof (induction clk env n w c rule: process_client_input.induct)
  case (1 clk env n w c)
  show ?case
  proof (cases "\<exists>k cmd. 0 < c_read_len c \<and> resp_parse (c_read_buf c) (c_read_len c) = Inr (Parsed k cmd) \<and> k \<noteq> 0")
    case False
    then show ?thesis
      using "1.prems" by (auto simp: process_client_input.simps [of clk env n w c] split: if_splits resp_outcome.splits)
  next
    case True
    then obtain k cmd where k: "0 < c_read_len c" "resp_parse (c_read_buf c) (c_read_len c) = Inr (Parsed k cmd)" "k \<noteq> 0" by auto
    then have "k \<le> c_read_len c" using parse_bounds(1) by (auto simp: resp_parse_def)
    from k "1.prems" obtain w1 reply where ex: "command_execute clk (env n) w (Some cmd) resp_buf_init = Inr (w1, reply)"
      by (auto simp: process_client_input.simps [of clk env n w c])
    obtain c1 where c1: "client_queue_write c (rb_data reply) = Inr c1" "conn_ok c1" "pending c1 = pending c @ rb_data reply"
        "c_fd c1 = c_fd c" "c_read_len c1 = c_read_len c"
      by (rule queue_ok [OF "1.prems"(2)])
    obtain c2 where c2: "consume_input c1 k = Inr c2" "conn_ok c2" "c_fd c2 = c_fd c1" "c_write_buf c2 = c_write_buf c1"
        "c_write_pos c2 = c_write_pos c1"
      by (rule consume_ok [OF c1(2), of k]) (use \<open>k \<le> c_read_len c\<close> c1 in auto)
    have "process_client_input clk env (Suc n) w1 c2 = Inr (w', c')"
      using "1.prems"(1) k ex c1(1) c2(1) by (simp add: process_client_input.simps [of clk env n w c])
    from "1.IH" [OF k(1,2) refl k(3) ex refl c1(1) c2(1) this c2(2)] c1 c2 show ?thesis by (auto simp: pending_def)
  qed
qed

text \<open>Commands executed one after the other, each with a reply buffer of its own.\<close>

fun exec_all :: "clock \<Rightarrow> (nat \<Rightarrow> io) \<Rightarrow> nat \<Rightarrow> world \<Rightarrow> resp_value list \<Rightarrow> (world \<times> string) res" where
  "exec_all clk env n w [] = Inr (w, [])"
| "exec_all clk env n w (v # vs) =
     bindR (command_execute clk (env n) w (Some v) resp_buf_init) (\<lambda>(w1, reply).
     bindR (exec_all clk env (Suc n) w1 vs) (\<lambda>(w2, out). Inr (w2, rb_data reply @ out)))"

lemma exec_all_shift: "exec_all clk (\<lambda>_. e) n w vs = exec_all clk (\<lambda>_. e) 0 w vs"
proof (induction vs arbitrary: n w)
  case (Cons v vs)
  have "exec_all clk (\<lambda>_. e) (Suc n) w1 vs = exec_all clk (\<lambda>_. e) (Suc 0) w1 vs" for w1
    using Cons [of "Suc n" w1] Cons [of "Suc 0" w1] by simp
  then show ?case by simp
qed simp

lemma exec_all_append:
  "exec_all clk (\<lambda>_. e) n w (us @ vs) =
     bindR (exec_all clk (\<lambda>_. e) n w us) (\<lambda>(w1, out1).
     bindR (exec_all clk (\<lambda>_. e) 0 w1 vs) (\<lambda>(w2, out2). Inr (w2, out1 @ out2)))"
proof (induction us arbitrary: n w)
  case Nil
  show ?case
    by (cases "exec_all clk (\<lambda>_. e) 0 w vs") (auto simp: exec_all_shift [of clk e n w vs])
next
  case (Cons u us)
  then show ?case by (auto simp: bindR_def split: sum.splits)
qed

text \<open>A buffer that has not been filled ends in a NUL.\<close>

definition fresh_tail :: "client \<Rightarrow> bool" where
  "fresh_tail c \<longleftrightarrow> conn_ok c \<and> c_read_len c < CLIENT_BUF_SIZE \<and> last (c_read_buf c) = NUL"

text \<open>What is left of a request that has not arrived as a whole.\<close>

definition partial :: "string \<Rightarrow> bool" where
  "partial p \<longleftrightarrow> (\<exists>v. value_ok v \<and> length p < length (encode v) \<and> p = take (length p) (encode v))"

lemma partial_Nil [simp]: "partial []"
  unfolding partial_def by (rule exI [of _ RESP_NIL]) simp

lemma buffer_split:
  assumes "fresh_tail c"
  obtains rest where "c_read_buf c = received c @ rest" "NUL \<in> set rest" "length (received c) = c_read_len c"
proof (rule that [of "drop (c_read_len c) (c_read_buf c)"])
  have "drop (c_read_len c) (c_read_buf c) \<noteq> []" using assms by (auto simp: fresh_tail_def conn_ok_def)
  then show "NUL \<in> set (drop (c_read_len c) (c_read_buf c))"
    using last_in_set [of "drop (c_read_len c) (c_read_buf c)"] assms by (simp add: fresh_tail_def last_drop)
qed (use assms in \<open>simp_all add: received_def fresh_tail_def received_length conn_ok_def\<close>)

lemma process_partial:
  assumes "fresh_tail c" "received c = p" "partial p"
  shows "process_client_input clk env n w c = Inr (w, c)"
proof -
  obtain rest where rest: "c_read_buf c = received c @ rest" "NUL \<in> set rest" "length (received c) = c_read_len c"
    using assms(1) by (rule buffer_split)
  obtain v where v: "value_ok v" "length p < length (encode v)" "p = take (length p) (encode v)"
    using assms(3) by (auto simp: partial_def)
  have "resp_parse (c_read_buf c) (c_read_len c) = Inr Incomplete"
    using parse_prefix [OF v(1) rest(2) v(2)] rest assms(2) v(3) by (simp add: resp_parse_def)
  then show ?thesis by (simp add: process_client_input.simps [of clk env n w c])
qed

text \<open>\<open>served\<close>: the outcome of processing is that of the commands, with their replies queued.\<close>

definition served :: "client \<Rightarrow> string \<Rightarrow> (world \<times> string) res \<Rightarrow> (world \<times> client) res \<Rightarrow> bool" where
  "served c p run m \<longleftrightarrow> (case run of
     Inl e \<Rightarrow> m = Inl e
   | Inr (w', out) \<Rightarrow> (\<exists>c'. m = Inr (w', c') \<and> fresh_tail c' \<and> received c' = p \<and> pending c' = pending c @ out \<and> c_fd c' = c_fd c))"

lemma process_stream:
  assumes "list_all value_ok vs" "partial p"
  shows "fresh_tail c \<Longrightarrow> received c = concat (map encode vs) @ p \<Longrightarrow>
    served c p (exec_all clk env n w vs) (process_client_input clk env n w c)"
  using assms(1)
proof (induction vs arbitrary: n w c)
  case Nil
  then show ?case using process_partial [OF Nil.prems(1) _ assms(2)] by (simp add: served_def)
next
  case (Cons v vs)
  obtain rest where rest: "c_read_buf c = received c @ rest" "NUL \<in> set rest" "length (received c) = c_read_len c"
    using Cons.prems(1) by (rule buffer_split)
  have v: "value_ok v" "0 < length (encode v)" using Cons.prems(3) by (auto simp: encode_nonempty)
  have le: "length (encode v) \<le> c_read_len c" using rest(3) Cons.prems(2) by simp
  have parse: "resp_parse (c_read_buf c) (c_read_len c) = Inr (Parsed (length (encode v)) v)"
    using parse_complete [OF v(1), of "concat (map encode vs) @ p @ rest" "c_read_len c"] rest le Cons.prems(2)
    by (simp add: resp_parse_def)
  have pos: "0 < c_read_len c" using le v(2) by linarith
  show ?case
  proof (cases "command_execute clk (env n) w (Some v) resp_buf_init")
    case (Inl e)
    with parse v le pos show ?thesis by (simp add: process_client_input.simps [of clk env n w c] served_def)
  next
    case (Inr r)
    then obtain w1 reply where ex: "command_execute clk (env n) w (Some v) resp_buf_init = Inr (w1, reply)" by (cases r) auto
    have conn: "conn_ok c" using Cons.prems(1) by (simp add: fresh_tail_def)
    obtain c1 where c1: "client_queue_write c (rb_data reply) = Inr c1" "conn_ok c1" "pending c1 = pending c @ rb_data reply"
        "c_fd c1 = c_fd c" "c_read_len c1 = c_read_len c" "c_read_buf c1 = c_read_buf c"
      by (rule queue_ok [OF conn])
    obtain c2 where c2: "consume_input c1 (length (encode v)) = Inr c2" "conn_ok c2"
        "received c2 = drop (length (encode v)) (received c1)" "c_fd c2 = c_fd c1" "c_write_buf c2 = c_write_buf c1"
        "c_write_pos c2 = c_write_pos c1" "c_read_len c2 = c_read_len c1 - length (encode v)"
        "c_read_len c1 - length (encode v) < CLIENT_BUF_SIZE \<Longrightarrow> last (c_read_buf c2) = last (c_read_buf c1)"
      by (rule consume_ok [OF c1(2), of "length (encode v)"]) (use le c1 in auto)
    have "fresh_tail c2" using Cons.prems(1) c1 c2 by (auto simp: fresh_tail_def)
    moreover have "received c2 = concat (map encode vs) @ p"
      using c2(3) c1 Cons.prems(2) by (simp add: received_def)
    ultimately have IH: "served c2 p (exec_all clk env (Suc n) w1 vs) (process_client_input clk env (Suc n) w1 c2)"
      using Cons.IH Cons.prems(3) by simp
    have run: "process_client_input clk env n w c = process_client_input clk env (Suc n) w1 c2"
      using parse v le pos ex c1(1) c2(1) by (simp add: process_client_input.simps [of clk env n w c])
    from IH show ?thesis
      unfolding run using ex c1 c2 by (auto simp: served_def pending_def split: sum.splits)
  qed
qed

text \<open>The bytes of a connection in the pieces in which \<open>recv\<close> delivers them.\<close>

fun feed :: "clock \<Rightarrow> io \<Rightarrow> world \<Rightarrow> client \<Rightarrow> string list \<Rightarrow> (world \<times> client option) res" where
  "feed clk e w c [] = Inr (w, Some c)"
| "feed clk e w c (x # xs) =
     (case client_recv (Some x) c of
        None \<Rightarrow> Inr (w, None)
      | Some c1 \<Rightarrow> bindR (process_client_input clk (\<lambda>_. e) 0 w c1) (\<lambda>(w1, c2). feed clk e w1 c2 xs))"

definition begins :: "string \<Rightarrow> resp_value list \<Rightarrow> bool" where
  "begins r ws \<longleftrightarrow> (case ws of [] \<Rightarrow> r = [] | v # ws' \<Rightarrow> length r < length (encode v) \<and> r = take (length r) (encode v))"

lemma begins_partial: "begins r ws \<Longrightarrow> list_all value_ok ws \<Longrightarrow> partial r"
  by (cases ws) (auto simp: begins_def partial_def [of r])

lemma split_stream:
  "p @ q = concat (map encode vs) \<Longrightarrow>
   \<exists>us ws r. vs = us @ ws \<and> p = concat (map encode us) @ r \<and> r @ q = concat (map encode ws) \<and> begins r ws"
proof (induction vs arbitrary: p)
  case Nil
  then show ?case by (auto simp: begins_def)
next
  case (Cons v vs)
  show ?case
  proof (cases "length p < length (encode v)")
    case True
    with Cons.prems have "p = take (length p) (encode v)"
      by (metis append_eq_append_conv2 append_eq_conv_conj concat.simps(2) less_imp_le list.simps(9) take_append take_all_iff
          append_take_drop_id diff_is_0_eq take0 append_Nil2)
    with True Cons.prems show ?thesis
      by (intro exI [of _ "[]"] exI [of _ "v # vs"] exI [of _ p]) (simp add: begins_def)
  next
    case False
    define p' where "p' = drop (length (encode v)) p"
    have "take (length (encode v)) (p @ q) = encode v" using Cons.prems by simp
    with False have "p = encode v @ p'" by (metis append_take_drop_id diff_is_0_eq linorder_not_less p'_def self_append_conv take0 take_append)
    with Cons.prems have p': "p = encode v @ p'" "p' @ q = concat (map encode vs)" by simp_all
    from Cons.IH [OF p'(2)] obtain us ws r where "vs = us @ ws" "p' = concat (map encode us) @ r"
        "r @ q = concat (map encode ws)" "begins r ws" by auto
    with p'(1) show ?thesis by (intro exI [of _ "v # us"] exI [of _ ws] exI [of _ r]) simp
  qed
qed

lemma recv_all:
  assumes "fresh_tail c" "x \<noteq> []" "c_read_len c + length x < CLIENT_BUF_SIZE"
  obtains c1 where "client_recv (Some x) c = Some c1" "fresh_tail c1" "received c1 = received c @ x" "pending c1 = pending c"
    "c_fd c1 = c_fd c"
proof -
  have conn: "conn_ok c" using assms(1) by (simp add: fresh_tail_def)
  obtain c1 where c1: "client_recv (Some x) c = Some c1" using assms(2,3) by (auto simp: client_recv_def Let_def)
  note f = recv_ok [OF conn c1]
  have "received c1 = received c @ x" using f(2) assms(3) by simp
  moreover from this have "c_read_len c1 < CLIENT_BUF_SIZE"
    using received_length [OF f(1)] received_length [OF conn] assms(3) by simp
  ultimately show ?thesis
    using f assms(1) c1 by (intro that [of c1]) (auto simp: fresh_tail_def pending_def)
qed

lemma feed_stream:
  assumes "list_all value_ok vs" "\<forall>x \<in> set xs. x \<noteq> []" "\<forall>v \<in> set vs. \<forall>x \<in> set xs. length (encode v) + length x \<le> CLIENT_BUF_SIZE"
    and "fresh_tail c" "begins (received c) vs" "received c @ concat xs = concat (map encode vs)"
  shows "case exec_all clk (\<lambda>_. e) 0 w vs of
      Inl fault \<Rightarrow> feed clk e w c xs = Inl fault
    | Inr (w', out) \<Rightarrow> (\<exists>c'. feed clk e w c xs = Inr (w', Some c') \<and> fresh_tail c' \<and> received c' = [] \<and> pending c' = pending c @ out)"
  using assms
proof (induction xs arbitrary: vs w c)
  case Nil
  then have "vs = []" by (cases vs) (auto simp: begins_def)
  with Nil show ?case by (simp add: begins_def)
next
  case (Cons x xs)
  then obtain v vs' where vs: "vs = v # vs'" by (cases vs) (auto simp: begins_def)
  have len: "length (received c) = c_read_len c" using Cons.prems(4) by (simp add: fresh_tail_def received_length)
  have "c_read_len c + length x < CLIENT_BUF_SIZE"
    using Cons.prems(3,5) len unfolding vs begins_def by fastforce
  then obtain c1 where c1: "client_recv (Some x) c = Some c1" "fresh_tail c1" "received c1 = received c @ x" "pending c1 = pending c"
    by (rule recv_all [OF Cons.prems(4), rotated]) (use Cons.prems(2) in auto)
  have "(received c @ x) @ concat xs = concat (map encode vs)" using Cons.prems(6) by simp
  from split_stream [OF this] obtain us ws r where s: "vs = us @ ws" "received c @ x = concat (map encode us) @ r"
      "r @ concat xs = concat (map encode ws)" "begins r ws" by auto
  have ok: "list_all value_ok us" "list_all value_ok ws" using Cons.prems(1) s(1) by simp_all
  from process_stream [OF ok(1) begins_partial [OF s(4) ok(2)] c1(2), where clk = clk and env = "\<lambda>_. e" and n = 0 and w = w] s(2) c1(3)
  have step: "served c1 r (exec_all clk (\<lambda>_. e) 0 w us) (process_client_input clk (\<lambda>_. e) 0 w c1)" by simp
  have app: "exec_all clk (\<lambda>_. e) 0 w vs = bindR (exec_all clk (\<lambda>_. e) 0 w us) (\<lambda>(w1, out1).
     bindR (exec_all clk (\<lambda>_. e) 0 w1 ws) (\<lambda>(w2, out2). Inr (w2, out1 @ out2)))"
    unfolding s(1) by (rule exec_all_append)
  show ?case
  proof (cases "exec_all clk (\<lambda>_. e) 0 w us")
    case (Inl fault)
    with step c1(1) show ?thesis by (simp add: served_def app)
  next
    case (Inr a)
    obtain w1 out1 where a: "a = (w1, out1)" by (cases a)
    obtain c2 where c2: "process_client_input clk (\<lambda>_. e) 0 w c1 = Inr (w1, c2)" "fresh_tail c2" "received c2 = r"
        "pending c2 = pending c1 @ out1"
      using step by (auto simp: served_def Inr a)
    have IH: "case exec_all clk (\<lambda>_. e) 0 w1 ws of Inl fault \<Rightarrow> feed clk e w1 c2 xs = Inl fault
      | Inr (w', out) \<Rightarrow> \<exists>c'. feed clk e w1 c2 xs = Inr (w', Some c') \<and> fresh_tail c' \<and> received c' = [] \<and> pending c' = pending c2 @ out"
      by (rule Cons.IH) (use ok c2 s Cons.prems(2,3) in auto)
    from c1(1) c2(1) have f: "feed clk e w c (x # xs) = feed clk e w1 c2 xs" by simp
    from IH show ?thesis unfolding f app Inr a using c1(4) c2(4) by (auto split: sum.splits)
  qed
qed

section \<open>Replies of a run of commands\<close>

text \<open>A request that no handler trips over: bulk or simple strings only, with a short name.\<close>

definition request_ok :: "resp_value \<Rightarrow> bool" where
  "request_ok v \<longleftrightarrow> value_ok v \<and> string_args v \<and> (\<forall>name. get_arg v 0 = Some name \<longrightarrow> length name \<le> 102)"

lemma requests_ok: "list_all request_ok vs \<Longrightarrow> list_all value_ok vs"
  by (auto simp: request_ok_def list_all_iff)

lemma exec_all_ok:
  assumes "list_all request_ok vs" "world_ok w"
  shows "res_ok {SignedOverflow} (\<lambda>(w', out). world_ok w' \<and> (\<exists>rs. length rs = length vs \<and> out = concat (map encode rs)))
    (exec_all clk env n w vs)"
  using assms
proof (induction vs arbitrary: n w)
  case (Cons v vs)
  let ?Q = "\<lambda>(w', out). world_ok w' \<and> (\<exists>rs. length rs = length (v # vs) \<and> out = concat (map encode rs))"
  have first: "res_ok {SignedOverflow} (some_reply resp_buf_init) (command_execute clk (env n) w (Some v) resp_buf_init)"
    by (rule execute_handled) (use Cons.prems in \<open>auto simp: request_ok_def\<close>)
  have rest: "res_ok {SignedOverflow} ?Q (bindR (exec_all clk env (Suc n) w1 vs) (\<lambda>(w2, out). Inr (w2, rb_data reply @ out)))"
    if one: "world_ok w1" "rb_data reply = encode r" for w1 reply r
  proof (rule res_ok_bind [OF Cons.IH])
    fix x assume "(\<lambda>(w', out). world_ok w' \<and> (\<exists>rs. length rs = length vs \<and> out = concat (map encode rs))) x"
    then obtain w2 rs where "x = (w2, concat (map encode rs))" "world_ok w2" "length rs = length vs" by auto
    with one show "res_ok {SignedOverflow} ?Q ((\<lambda>(w2, out). Inr (w2, rb_data reply @ out)) x)"
      by (auto intro: exI [of _ "r # rs"])
  qed (use Cons.prems one in auto)
  show ?case
    unfolding exec_all.simps
  proof (rule res_ok_bind [OF first])
    fix x assume "some_reply resp_buf_init x"
    then obtain w1 reply r where "x = (w1, reply)" "world_ok w1" "rb_data reply = encode r" by (auto simp: some_reply_def)
    with rest [of w1 reply r] show "res_ok {SignedOverflow} ?Q ((\<lambda>(w1, reply). bindR (exec_all clk env (Suc n) w1 vs)
        (\<lambda>(w2, out). Inr (w2, rb_data reply @ out))) x)" by simp
  qed
qed (auto intro: exI [of _ "[]"])

section \<open>Sending\<close>

text \<open>What happens on a connection: a reply is queued, bytes are taken by \<open>send\<close>.\<close>

datatype conn_event = Queued string | Sent string

inductive conn_trace :: "client \<Rightarrow> conn_event list \<Rightarrow> client \<Rightarrow> bool" for c0 where
  start: "conn_trace c0 [] c0"
| queue: "conn_trace c0 t c \<Longrightarrow> client_queue_write c d = Inr c' \<Longrightarrow> conn_trace c0 (t @ [Queued d]) c'"
| receive: "conn_trace c0 t c \<Longrightarrow> client_recv answer c = Some c' \<Longrightarrow> conn_trace c0 t c'"
| consume: "conn_trace c0 t c \<Longrightarrow> consume_input c n = Inr c' \<Longrightarrow> conn_trace c0 t c'"
| send: "conn_trace c0 t c \<Longrightarrow> client_send answer c = Some (c', s) \<Longrightarrow> conn_trace c0 (t @ [Sent s]) c'"

definition queued_bytes :: "conn_event list \<Rightarrow> string" where
  "queued_bytes t = concat (map (\<lambda>e. case e of Queued d \<Rightarrow> d | Sent s \<Rightarrow> []) t)"

definition sent_bytes :: "conn_event list \<Rightarrow> string" where
  "sent_bytes t = concat (map (\<lambda>e. case e of Queued d \<Rightarrow> [] | Sent s \<Rightarrow> s) t)"

lemma conn_trace_in_order:
  "conn_trace c0 t c \<Longrightarrow> conn_ok c0 \<Longrightarrow> conn_ok c \<and> sent_bytes t @ pending c = pending c0 @ queued_bytes t"
proof (induction rule: conn_trace.induct)
  case start
  then show ?case by (simp add: sent_bytes_def queued_bytes_def)
next
  case (queue t c d c')
  then show ?case using queue_ok [of c d] by (fastforce simp: sent_bytes_def queued_bytes_def)
next
  case (receive t c answer c')
  then obtain s where "answer = Some s" by (cases answer) (auto simp: client_recv_def)
  with receive show ?case using recv_ok [of c s c'] by (simp add: pending_def)
next
  case (consume t c n c')
  then show ?case using consume_ok [of c n] consume_input_length [of c n c'] by (fastforce simp: pending_def)
next
  case (send t c answer c' s)
  then show ?case using send_ok [of c answer c' s] by (simp add: sent_bytes_def queued_bytes_def)
qed

text \<open>Rounds in which the socket takes \<open>ms\<close> bytes; without pending bytes it is not asked.\<close>

fun send_rounds :: "client \<Rightarrow> nat list \<Rightarrow> (client \<times> string) option" where
  "send_rounds c [] = Some (c, [])"
| "send_rounds c (m # ms) =
     (if length (c_write_buf c) > c_write_pos c
      then (case client_send (Some m) c of
              None \<Rightarrow> None
            | Some (c1, s) \<Rightarrow> map_option (\<lambda>(c2, t). (c2, s @ t)) (send_rounds c1 ms))
      else send_rounds c ms)"

lemma send_rounds_drain:
  assumes "conn_ok c" "\<forall>m \<in> set ms. 0 < m" "length (pending c) \<le> length ms"
  shows "\<exists>c'. send_rounds c ms = Some (c', pending c) \<and> pending c' = [] \<and> conn_ok c'"
  using assms
proof (induction ms arbitrary: c)
  case (Cons m ms)
  show ?case
  proof (cases "pending c = []")
    case True
    then have idle: "\<not> length (c_write_buf c) > c_write_pos c" by (simp add: pending_def)
    with Cons.IH [OF Cons.prems(1)] Cons.prems(2) True show ?thesis by auto
  next
    case False
    then have busy: "length (c_write_buf c) > c_write_pos c" by (simp add: pending_def)
    obtain c1 s where s: "client_send (Some m) c = Some (c1, s)"
      using busy Cons.prems(2) by (fastforce simp: client_send_def Let_def)
    note ok = send_ok [OF Cons.prems(1) s]
    have "length s + length (pending c1) = length (pending c)" using ok(2) by (metis length_append)
    moreover have "0 < length s" using ok(4) by simp
    ultimately have "length (pending c1) \<le> length ms" using Cons.prems(3) unfolding list.size by linarith
    with Cons.IH [OF ok(1)] Cons.prems(2) obtain c' where "send_rounds c1 ms = Some (c', pending c1)" "pending c' = []" "conn_ok c'"
      by auto
    with busy s ok(2) show ?thesis by simp
  qed
qed simp

end
