(* ===== verification/Server_Table.thy ===== *)
theory Server_Table
  imports Server_Conn
begin

text \<open>
  The table of clients under the operations of the event loop: the count is the number of occupied
  slots, the slots of other clients do not change, and clients that send well-formed requests never
  make a round fail.
\<close>

section \<open>The client table\<close>

fun occupied :: "client option list \<Rightarrow> nat" where
  "occupied [] = 0"
| "occupied (None # cs) = occupied cs"
| "occupied (Some c # cs) = Suc (occupied cs)"

lemma occupied_le: "occupied cs \<le> length cs"
  by (induction cs rule: occupied.induct) auto

lemma occupied_replicate [simp]: "occupied (replicate n None) = 0"
  by (induction n) auto

definition table_ok :: "server \<Rightarrow> bool" where
  "table_ok srv \<longleftrightarrow> length (srv_clients srv) = MAX_CLIENTS \<and> srv_client_count srv = occupied (srv_clients srv) \<and>
     (\<forall>c. Some c \<in> set (srv_clients srv) \<longrightarrow> conn_ok c)"

lemma occupied_update:
  "i < length cs \<Longrightarrow> occupied (cs[i := x]) + (if cs ! i = None then 0 else 1) = occupied cs + (if x = None then 0 else 1)"
proof (induction cs arbitrary: i rule: occupied.induct)
  case (2 cs)
  then show ?case by (cases i; cases x) auto
next
  case (3 c cs)
  then show ?case by (cases i; cases x) auto
qed simp

lemma table_conn: "table_ok srv \<Longrightarrow> i < MAX_CLIENTS \<Longrightarrow> srv_clients srv ! i = Some c \<Longrightarrow> conn_ok c"
  unfolding table_ok_def by (metis nth_mem)

lemma table_set:
  assumes "table_ok srv" "i < MAX_CLIENTS" "srv_clients srv ! i = Some c" "conn_ok c'"
  shows "table_ok (srv\<lparr>srv_clients := (srv_clients srv)[i := Some c']\<rparr>)"
  using assms occupied_update [of i "srv_clients srv" "Some c'"]
  by (auto simp: table_ok_def dest!: set_update_subset_insert [THEN subsetD])

lemma table_world [simp]:
  "table_ok (srv\<lparr>srv_world := w\<rparr>) = table_ok srv" "table_ok (srv\<lparr>srv_net := l\<rparr>) = table_ok srv"
  by (simp_all add: table_ok_def)

lemma table_remove:
  assumes "table_ok srv" "i < MAX_CLIENTS" "srv_clients srv ! i = Some c"
  shows "table_ok (server_remove_client srv i)"
  using assms occupied_update [of i "srv_clients srv" None]
  by (auto simp: table_ok_def server_remove_client_def dest!: set_update_subset_insert [THEN subsetD])

lemma empty_slot_Some: "empty_slot cs = Some i \<Longrightarrow> i < length cs \<and> cs ! i = None \<and> (\<forall>j<i. cs ! j \<noteq> None)"
proof (induction cs arbitrary: i rule: empty_slot.induct)
  case (3 c cs)
  then show ?case by (auto simp: nth_Cons split: nat.split)
qed auto

lemma empty_slot_None: "empty_slot cs = None \<longleftrightarrow> occupied cs = length cs"
proof (induction cs rule: empty_slot.induct)
  case (2 cs)
  show ?case using occupied_le [of cs] by simp
qed auto

lemma table_accept:
  assumes "table_ok srv"
  shows "table_ok (server_accept answer srv)"
proof (cases "\<exists>fd i. answer = Some fd \<and> srv_client_count srv < MAX_CLIENTS \<and> empty_slot (srv_clients srv) = Some i")
  case False
  with assms show ?thesis by (auto simp: server_accept_def split: option.split)
next
  case True
  then obtain fd i where i: "answer = Some fd" "srv_client_count srv < MAX_CLIENTS" "empty_slot (srv_clients srv) = Some i" by auto
  with assms empty_slot_Some [OF i(3)] occupied_update [of i "srv_clients srv" "Some (client_create fd)"]
  show ?thesis
    by (auto simp: table_ok_def server_accept_def dest!: set_update_subset_insert [THEN subsetD])
qed

text \<open>What one step of the loop over the clients may touch.\<close>

definition only_slot :: "nat \<Rightarrow> server \<Rightarrow> server \<Rightarrow> bool" where
  "only_slot i srv srv' \<longleftrightarrow> srv_listen_fd srv' = srv_listen_fd srv \<and>
     length (srv_clients srv') = length (srv_clients srv) \<and> (\<forall>j. j \<noteq> i \<longrightarrow> srv_clients srv' ! j = srv_clients srv ! j)"

lemma serve_write_frame: "serve_write rdy writes i c srv = Inr srv' \<Longrightarrow> only_slot i srv srv' \<and> srv_world srv' = srv_world srv"
  by (auto simp: serve_write_def FD_ISSET_def only_slot_def server_remove_client_def split: if_splits option.splits)

lemma serve_write_table:
  assumes "serve_write rdy writes i c srv = Inr srv'" "table_ok srv" "i < MAX_CLIENTS" "srv_clients srv ! i = Some c"
  shows "table_ok srv'"
  using assms table_remove [OF assms(2-4)] table_set [OF assms(2-4)] send_ok(1) [OF table_conn [OF assms(2-4)]]
  by (fastforce simp: serve_write_def FD_ISSET_def split: if_splits option.splits)

lemma serve_client_frame: "serve_client clk rdy reads writes i srv = Inr srv' \<Longrightarrow> only_slot i srv srv'"
  by (fastforce simp: serve_client_def FD_ISSET_def only_slot_def server_remove_client_def split: option.splits if_splits
      dest!: serve_write_frame)

lemma serve_client_table:
  assumes "serve_client clk rdy reads writes i srv = Inr srv'" "table_ok srv" "i < MAX_CLIENTS"
  shows "table_ok srv'"
proof (cases "srv_clients srv ! i")
  case None
  with assms show ?thesis by (simp add: serve_client_def)
next
  case (Some c)
  note conn = table_conn [OF assms(2,3) Some]
  show ?thesis
  proof (cases "c_fd c \<in> set reads")
    case False
    with assms Some show ?thesis by (auto simp: serve_client_def FD_ISSET_def intro: serve_write_table split: if_splits)
  next
    case True
    show ?thesis
    proof (cases "client_recv (rd_recv rdy (c_fd c)) c")
      case None
      with assms Some True table_remove [OF assms(2,3) Some] show ?thesis
        by (auto simp: serve_client_def FD_ISSET_def split: if_splits)
    next
      case (Some c1)
      then obtain bytes where "rd_recv rdy (c_fd c) = Some bytes" by (cases "rd_recv rdy (c_fd c)") (auto simp: client_recv_def)
      with Some have c1: "conn_ok c1" using recv_ok(1) [OF conn] by simp
      from assms(1) Some True \<open>srv_clients srv ! i = Some c\<close> obtain w c2 where
        p: "process_client_input clk (rd_io rdy (c_fd c)) 0 (srv_world srv) c1 = Inr (w, c2)"
          "serve_write rdy writes i c2 (srv\<lparr>srv_world := w, srv_clients := (srv_clients srv)[i := Some c2]\<rparr>) = Inr srv'"
        by (auto simp: serve_client_def FD_ISSET_def split: if_splits)
      have "conn_ok c2" using process_ok [OF p(1) c1] by simp
      from table_set [OF assms(2,3) \<open>srv_clients srv ! i = Some c\<close> this]
      have "table_ok (srv\<lparr>srv_clients := (srv_clients srv)[i := Some c2]\<rparr>\<lparr>srv_world := w\<rparr>)" by simp
      then have "table_ok (srv\<lparr>srv_world := w, srv_clients := (srv_clients srv)[i := Some c2]\<rparr>)" by (simp add: table_ok_def)
      from serve_write_table [OF p(2) this assms(3)] show ?thesis using assms(2,3) by (simp add: table_ok_def)
    qed
  qed
qed

lemma serve_clients_table:
  "serve_clients clk rdy reads writes is srv = Inr srv' \<Longrightarrow> table_ok srv \<Longrightarrow> \<forall>i \<in> set is. i < MAX_CLIENTS \<Longrightarrow> table_ok srv'"
proof (induction "is" arbitrary: srv)
  case (Cons i "is")
  from Cons.prems(1) obtain srv1 where s: "serve_client clk rdy reads writes i srv = Inr srv1"
      "serve_clients clk rdy reads writes is srv1 = Inr srv'" by auto
  have "table_ok srv1" by (rule serve_client_table [OF s(1) Cons.prems(2)]) (use Cons.prems(3) in simp)
  with s(2) show ?case by (rule Cons.IH) (use Cons.prems(3) in simp)
qed simp

lemma round_table:
  assumes "server_round clk sel srv = Inr (srv', go)" "table_ok srv"
  shows "table_ok srv'"
proof (cases sel)
  case (SelectReady rdy)
  define accepted where "accepted b = (if b then server_accept (rd_accept rdy) srv else srv)" for b
  have acc: "table_ok (accepted b)" for b using table_accept [OF assms(2)] assms(2) by (simp add: accepted_def)
  from assms(1) SelectReady obtain b reads writes srv2 db where
    r: "serve_clients clk rdy reads writes [0..<MAX_CLIENTS] (accepted b) = Inr srv2"
      "srv' = srv2\<lparr>srv_world := (srv_world srv2)\<lparr>w_db := db\<rparr>\<rparr>"
    by (auto simp: server_round_def Let_def accepted_def)
  have "table_ok srv2" by (rule serve_clients_table [OF r(1) acc]) simp
  with r(2) show ?thesis by simp
qed (use assms in \<open>auto simp: server_round_def\<close>)

lemma reachable_table: "reachable clk db d port srv \<Longrightarrow> table_ok srv"
proof (induction rule: reachable.induct)
  case (started la srv)
  then show ?case by (auto simp: server_create_def server_listen_def table_ok_def Let_def split: if_splits)
next
  case (round srv sel srv1)
  then show ?case using round_table by blast
qed

section \<open>Well-formed requests\<close>

text \<open>
  A connection that has only sent well-formed requests: what is in the buffer is the beginning of one,
  and the descriptor fits into an \<open>fd_set\<close>.
\<close>

definition honest :: "client \<Rightarrow> bool" where
  "honest c \<longleftrightarrow> fresh_tail c \<and> partial (received c) \<and> fd_ok (c_fd c)"

text \<open>What arrives completes some requests and leaves the beginning of another; it fits into the buffer.\<close>

definition arrives_ok :: "client \<Rightarrow> string \<Rightarrow> bool" where
  "arrives_ok c s \<longleftrightarrow> c_read_len c + length s < CLIENT_BUF_SIZE \<and>
     (\<exists>vs p. list_all request_ok vs \<and> partial p \<and> received c @ s = concat (map encode vs) @ p)"

definition good_server :: "server \<Rightarrow> bool" where
  "good_server srv \<longleftrightarrow> table_ok srv \<and> world_ok (srv_world srv) \<and> fd_ok (srv_listen_fd srv) \<and>
     (\<forall>c. Some c \<in> set (srv_clients srv) \<longrightarrow> honest c)"

lemma honest_send: "honest c \<Longrightarrow> client_send m c = Some (c', s) \<Longrightarrow> honest c'"
  using send_ok [of c m c' s]
  by (auto simp: honest_def fresh_tail_def client_send_def Let_def split: option.splits if_splits)

lemma good_set:
  assumes "good_server srv" "i < MAX_CLIENTS" "srv_clients srv ! i = Some c" "honest c'" "world_ok w"
  shows "good_server (srv\<lparr>srv_world := w, srv_clients := (srv_clients srv)[i := Some c']\<rparr>)"
  using assms table_set [OF _ assms(2,3), of c']
  by (auto simp: good_server_def table_ok_def honest_def fresh_tail_def dest!: set_update_subset_insert [THEN subsetD])

lemma good_remove:
  assumes "good_server srv" "i < MAX_CLIENTS" "srv_clients srv ! i = Some c"
  shows "good_server (server_remove_client srv i)"
  using assms table_remove [OF _ assms(2,3)]
  by (auto simp: good_server_def server_remove_client_def dest!: set_update_subset_insert [THEN subsetD])

lemma good_honest: "good_server srv \<Longrightarrow> i < MAX_CLIENTS \<Longrightarrow> srv_clients srv ! i = Some c \<Longrightarrow> honest c"
  unfolding good_server_def table_ok_def by (metis nth_mem)

lemma good_net [simp]: "good_server (srv\<lparr>srv_net := l\<rparr>) = good_server srv"
  by (simp add: good_server_def)

lemma good_write:
  assumes "good_server srv" "i < MAX_CLIENTS" "srv_clients srv ! i = Some c"
  shows "\<exists>srv'. serve_write rdy writes i c srv = Inr srv' \<and> good_server srv' \<and> only_slot i srv srv'"
proof -
  note h = good_honest [OF assms]
  have w: "world_ok (srv_world srv)" using assms(1) by (simp add: good_server_def)
  have set: "good_server (srv\<lparr>srv_clients := (srv_clients srv)[i := Some c1]\<rparr>)" if "honest c1" for c1
    using good_set [OF assms that w] by simp
  obtain srv' where srv': "serve_write rdy writes i c srv = Inr srv'"
    using h by (cases "c_fd c \<in> set writes"; cases "client_send (rd_send rdy (c_fd c)) c")
      (auto simp: serve_write_def FD_ISSET_def honest_def)
  moreover have "good_server srv'"
  proof (cases "c_fd c \<in> set writes \<and> client_send (rd_send rdy (c_fd c)) c \<noteq> None")
    case True
    then obtain c1 s where s: "c_fd c \<in> set writes" "client_send (rd_send rdy (c_fd c)) c = Some (c1, s)" by auto
    with srv' h have "srv' = srv\<lparr>srv_clients := (srv_clients srv)[i := Some c1]\<rparr>\<lparr>srv_net := srv_net srv @ [(c_fd c, s)]\<rparr>"
      by (simp add: serve_write_def FD_ISSET_def honest_def)
    with set [OF honest_send [OF h s(2)]] show ?thesis by (simp only: good_net)
  next
    case False
    with srv' h assms good_remove [OF assms] show ?thesis
      by (cases "client_send (rd_send rdy (c_fd c)) c") (auto simp: serve_write_def FD_ISSET_def honest_def split: if_splits)
  qed
  ultimately show ?thesis using serve_write_frame by blast
qed

lemma process_honest:
  assumes "honest c" "arrives_ok c s" "client_recv (Some s) c = Some c1" "s \<noteq> []" "world_ok w"
  shows "res_ok {SignedOverflow} (\<lambda>(w', c2). world_ok w' \<and> honest c2) (process_client_input clk env n w c1)"
proof -
  obtain vs p where vs: "list_all request_ok vs" "partial p" "received c @ s = concat (map encode vs) @ p"
      "c_read_len c + length s < CLIENT_BUF_SIZE"
    using assms(2) by (auto simp: arrives_ok_def)
  obtain c1' where "client_recv (Some s) c = Some c1'" "fresh_tail c1'" "received c1' = received c @ s" "c_fd c1' = c_fd c"
    by (rule recv_all [of c s]) (use assms(1,4) vs(4) in \<open>auto simp: honest_def\<close>)
  with assms(3) vs(3) have c1: "fresh_tail c1" "received c1 = concat (map encode vs) @ p" "c_fd c1 = c_fd c" by auto
  have "served c1 p (exec_all clk env n w vs) (process_client_input clk env n w c1)"
    by (rule process_stream [OF requests_ok [OF vs(1)] vs(2) c1(1,2)])
  with exec_all_ok [OF vs(1) assms(5), of clk env n] vs(2) assms(1) c1(3) show ?thesis
    by (auto simp: served_def res_ok_def honest_def split: sum.splits)
qed

lemma good_client:
  assumes "good_server srv" "i < MAX_CLIENTS"
    and input: "\<And>c s. srv_clients srv ! i = Some c \<Longrightarrow> c_fd c \<in> set reads \<Longrightarrow> rd_recv rdy (c_fd c) = Some s \<Longrightarrow> arrives_ok c s"
  shows "res_ok {SignedOverflow} (\<lambda>srv'. good_server srv' \<and> only_slot i srv srv') (serve_client clk rdy reads writes i srv)"
proof (cases "srv_clients srv ! i")
  case None
  with assms(1) show ?thesis by (simp add: serve_client_def only_slot_def)
next
  case (Some c)
  note h = good_honest [OF assms(1,2) Some]
  have fd: "FD_ISSET (c_fd c) s = Inr (c_fd c \<in> set s)" for s using h by (simp add: FD_ISSET_def honest_def)
  show ?thesis
  proof (cases "c_fd c \<in> set reads")
    case False
    with Some fd good_write [OF assms(1,2) Some, of rdy writes] show ?thesis by (auto simp: serve_client_def)
  next
    case reading: True
    show ?thesis
    proof (cases "client_recv (rd_recv rdy (c_fd c)) c")
      case None
      with Some fd reading good_remove [OF assms(1,2) Some] show ?thesis
        by (simp add: serve_client_def only_slot_def server_remove_client_def)
    next
      case recv: (Some c1)
      then obtain s where s: "rd_recv rdy (c_fd c) = Some s" "s \<noteq> []"
        by (auto simp: client_recv_def Let_def split: option.splits if_splits)
      have "world_ok (srv_world srv)" using assms(1) by (simp add: good_server_def)
      with recv s have "res_ok {SignedOverflow} (\<lambda>(w', c2). world_ok w' \<and> honest c2)
          (process_client_input clk (rd_io rdy (c_fd c)) 0 (srv_world srv) c1)"
        by (intro process_honest [OF h input [OF Some reading s(1)]]) auto
      then have "res_ok {SignedOverflow} (\<lambda>srv'. good_server srv' \<and> only_slot i srv srv')
          (bindR (process_client_input clk (rd_io rdy (c_fd c)) 0 (srv_world srv) c1) (\<lambda>(w, c2). serve_write rdy writes i c2
             (srv\<lparr>srv_world := w, srv_clients := (srv_clients srv)[i := Some c2]\<rparr>)))"
      proof (rule res_ok_bind)
        fix x :: "world \<times> client"
        assume "case x of (w', c2) \<Rightarrow> world_ok w' \<and> honest c2"
        then obtain w' c2 where x: "x = (w', c2)" "world_ok w'" "honest c2" by (cases x) auto
        let ?srv = "srv\<lparr>srv_world := w', srv_clients := (srv_clients srv)[i := Some c2]\<rparr>"
        have "length (srv_clients srv) = MAX_CLIENTS" using assms(1) by (simp add: good_server_def table_ok_def)
        with assms(2) have "srv_clients ?srv ! i = Some c2" by simp
        from good_write [OF good_set [OF assms(1,2) Some x(3,2)] assms(2) this, of rdy writes] x(1)
        show "res_ok {SignedOverflow} (\<lambda>srv'. good_server srv' \<and> only_slot i srv srv')
            (case x of (w, c2) \<Rightarrow> serve_write rdy writes i c2 (srv\<lparr>srv_world := w, srv_clients := (srv_clients srv)[i := Some c2]\<rparr>))"
          by (auto simp: only_slot_def)
      qed
      with Some fd reading recv show ?thesis by (simp add: serve_client_def)
    qed
  qed
qed

lemma good_clients:
  assumes "distinct is" "\<forall>i \<in> set is. i < MAX_CLIENTS" "good_server srv"
    and "\<And>i c s. i \<in> set is \<Longrightarrow> srv_clients srv ! i = Some c \<Longrightarrow> c_fd c \<in> set reads \<Longrightarrow>
      rd_recv rdy (c_fd c) = Some s \<Longrightarrow> arrives_ok c s"
  shows "res_ok {SignedOverflow} good_server (serve_clients clk rdy reads writes is srv)"
  using assms
proof (induction "is" arbitrary: srv)
  case (Cons i "is")
  have "res_ok {SignedOverflow} (\<lambda>srv'. good_server srv' \<and> only_slot i srv srv') (serve_client clk rdy reads writes i srv)"
    by (rule good_client) (use Cons.prems in auto)
  then show ?case
    unfolding serve_clients.simps
  proof (rule res_ok_bind)
    fix srv1 assume s: "good_server srv1 \<and> only_slot i srv srv1"
    have same: "srv_clients srv1 ! j = srv_clients srv ! j" if "j \<in> set is" for j
      using s that Cons.prems(1) by (auto simp: only_slot_def)
    show "res_ok {SignedOverflow} good_server (serve_clients clk rdy reads writes is srv1)"
      by (rule Cons.IH) (use Cons.prems s in \<open>auto simp: same\<close>)
  qed
qed simp

definition client_fds :: "server \<Rightarrow> int set" where
  "client_fds srv = {c_fd c |c. Some c \<in> set (srv_clients srv)}"

lemma collect_fds_ok:
  "(\<And>c. Some c \<in> set cs \<Longrightarrow> fd_ok (c_fd c)) \<Longrightarrow>
   \<exists>r w. collect_fds cs (rs, ws) = Inr (r, w) \<and> set r = set rs \<union> {c_fd c |c. Some c \<in> set cs}"
proof (induction cs arbitrary: rs ws)
  case (Cons x cs)
  show ?case
  proof (cases x)
    case None
    with Cons show ?thesis by simp
  next
    case (Some c)
    then have "FD_SET (c_fd c) s = Inr (c_fd c # s)" for s using Cons.prems [of c] by (simp add: FD_SET_def)
    moreover obtain r w where "collect_fds cs (c_fd c # rs, if length (c_write_buf c) > c_write_pos c then c_fd c # ws else ws) = Inr (r, w)"
        "set r = set (c_fd c # rs) \<union> {c_fd c |c. Some c \<in> set cs}"
      using Cons.IH [of "c_fd c # rs"] Cons.prems by fastforce
    ultimately show ?thesis using Some by (auto split: if_splits)
  qed
qed simp

lemma honest_create: "fd_ok fd \<Longrightarrow> honest (client_create fd)"
  using conn_create [of fd] by (simp add: honest_def fresh_tail_def) (simp add: client_create_def CLIENT_BUF_SIZE_def)

lemma good_accept:
  assumes "good_server srv" "\<And>fd. answer = Some fd \<Longrightarrow> fd_ok fd"
  shows "good_server (server_accept answer srv)"
    and "Some c \<in> set (srv_clients (server_accept answer srv)) \<Longrightarrow>
      Some c \<in> set (srv_clients srv) \<or> (\<exists>fd. answer = Some fd \<and> c = client_create fd)"
proof -
  have new: "Some c \<in> set (srv_clients srv) \<or> (\<exists>fd. answer = Some fd \<and> c = client_create fd)"
    if "Some c \<in> set (srv_clients (server_accept answer srv))" for c
    using that by (auto simp: server_accept_def split: option.splits if_splits dest!: set_update_subset_insert [THEN subsetD])
  then show "Some c \<in> set (srv_clients (server_accept answer srv)) \<Longrightarrow>
      Some c \<in> set (srv_clients srv) \<or> (\<exists>fd. answer = Some fd \<and> c = client_create fd)" .
  have "srv_world (server_accept answer srv) = srv_world srv" "srv_listen_fd (server_accept answer srv) = srv_listen_fd srv"
    by (simp_all add: server_accept_def split: option.split)
  moreover have "honest c" if "Some c \<in> set (srv_clients (server_accept answer srv))" for c
    using new [OF that] assms honest_create by (auto simp: good_server_def)
  ultimately show "good_server (server_accept answer srv)"
    using assms(1) table_accept [of srv answer] by (simp add: good_server_def)
qed

text \<open>One round with well-formed input: new descriptors are fresh and small.\<close>

definition round_input_ok :: "server \<Rightarrow> ready \<Rightarrow> bool" where
  "round_input_ok srv rdy \<longleftrightarrow>
     (\<forall>fd. rd_accept rdy = Some fd \<longrightarrow> fd_ok fd \<and> fd \<noteq> srv_listen_fd srv \<and> fd \<notin> client_fds srv) \<and>
     (\<forall>c s. Some c \<in> set (srv_clients srv) \<longrightarrow> c_fd c \<in> set (rd_read rdy) \<longrightarrow> rd_recv rdy (c_fd c) = Some s \<longrightarrow> arrives_ok c s)"

text \<open>The descriptors of a round, and what the clients send after the look at the listening socket.\<close>

lemma good_fds:
  assumes "good_server srv"
  obtains r w where "FD_SET (srv_listen_fd srv) [] = Inr [srv_listen_fd srv]"
    "collect_fds (srv_clients srv) ([srv_listen_fd srv], []) = Inr (r, w)" "set r = insert (srv_listen_fd srv) (client_fds srv)"
proof -
  have fds: "\<And>c. Some c \<in> set (srv_clients srv) \<Longrightarrow> fd_ok (c_fd c)" and listen: "fd_ok (srv_listen_fd srv)"
    using assms by (auto simp: good_server_def honest_def)
  show thesis
    using collect_fds_ok [OF fds, of "srv_clients srv" "[srv_listen_fd srv]" "[]"] listen that by (auto simp: client_fds_def FD_SET_def)
qed

definition arrivals_ok :: "ready \<Rightarrow> int list \<Rightarrow> nat list \<Rightarrow> server \<Rightarrow> bool" where
  "arrivals_ok rdy reads is srv \<longleftrightarrow> (\<forall>i c s. i \<in> set is \<longrightarrow> srv_clients srv ! i = Some c \<longrightarrow> c_fd c \<in> set reads \<longrightarrow>
     rd_recv rdy (c_fd c) = Some s \<longrightarrow> arrives_ok c s)"

lemma accepted_ok:
  assumes "good_server srv" "round_input_ok srv rdy" "set r = insert (srv_listen_fd srv) (client_fds srv)"
    and "reads = filter (\<lambda>fd. fd \<in> set (rd_read rdy)) r"
  defines "srv1 \<equiv> if srv_listen_fd srv \<in> set reads then server_accept (rd_accept rdy) srv else srv"
  shows "good_server srv1" "arrivals_ok rdy reads [0..<MAX_CLIENTS] srv1"
proof -
  have acc: "\<And>fd. rd_accept rdy = Some fd \<Longrightarrow> fd_ok fd" using assms(2) by (auto simp: round_input_ok_def)
  show good1: "good_server srv1" using good_accept(1) [OF assms(1) acc] assms(1) by (simp add: srv1_def)
  have arrives: "arrives_ok c s"
    if c: "Some c \<in> set (srv_clients srv1)" "c_fd c \<in> set reads" "rd_recv rdy (c_fd c) = Some s" for c s
  proof -
    have "Some c \<in> set (srv_clients srv) \<or> (\<exists>fd. rd_accept rdy = Some fd \<and> c = client_create fd)"
      using c(1) good_accept(2) [OF assms(1) acc] by (auto simp: srv1_def split: if_splits)
    moreover have "c \<noteq> client_create fd" if "rd_accept rdy = Some fd" for fd
      using assms(2) that c(2) assms(3,4) by (auto simp: round_input_ok_def)
    ultimately show ?thesis using assms(2) c(2,3) by (auto simp: round_input_ok_def assms(4))
  qed
  have "length (srv_clients srv1) = MAX_CLIENTS" using good1 by (simp add: good_server_def table_ok_def)
  then show "arrivals_ok rdy reads [0..<MAX_CLIENTS] srv1"
    by (auto simp: arrivals_ok_def in_set_conv_nth intro!: arrives)
qed

lemma good_sweep:
  assumes "good_server srv"
  shows "res_ok {SignedOverflow} (\<lambda>db. good_server (srv\<lparr>srv_world := (srv_world srv)\<lparr>w_db := db\<rparr>\<rparr>)) (db_expire_sweep clk (w_db (srv_world srv)))"
proof -
  have "db_ok (w_db (srv_world srv))" using assms by (simp add: good_server_def)
  from db_expire_sweep_ok [OF this, of clk] show ?thesis
    by (rule res_ok_mono) (use assms in \<open>auto simp: good_server_def table_ok_def\<close>)
qed

lemma good_round:
  assumes "good_server srv" "round_input_ok srv rdy"
  shows "res_ok {SignedOverflow} (\<lambda>(srv', go). good_server srv' \<and> go) (server_round clk (SelectReady rdy) srv)"
proof -
  obtain r w where sets: "FD_SET (srv_listen_fd srv) [] = Inr [srv_listen_fd srv]"
      "collect_fds (srv_clients srv) ([srv_listen_fd srv], []) = Inr (r, w)" "set r = insert (srv_listen_fd srv) (client_fds srv)"
    by (rule good_fds [OF assms(1)])
  define reads where "reads = filter (\<lambda>fd. fd \<in> set (rd_read rdy)) r"
  define writes where "writes = filter (\<lambda>fd. fd \<in> set (rd_write rdy)) w"
  define srv1 where "srv1 = (if srv_listen_fd srv \<in> set reads then server_accept (rd_accept rdy) srv else srv)"
  note acc = accepted_ok [OF assms sets(3) reads_def, folded srv1_def]
  have "res_ok {SignedOverflow} good_server (serve_clients clk rdy reads writes [0..<MAX_CLIENTS] srv1)"
    by (rule good_clients) (use acc in \<open>auto simp: arrivals_ok_def\<close>)
  then have "res_ok {SignedOverflow} (\<lambda>(srv', go). good_server srv' \<and> go)
      (bindR (serve_clients clk rdy reads writes [0..<MAX_CLIENTS] srv1) (\<lambda>srv2.
         bindR (db_expire_sweep clk (w_db (srv_world srv2))) (\<lambda>db.
         Inr (srv2\<lparr>srv_world := (srv_world srv2)\<lparr>w_db := db\<rparr>\<rparr>, True))))"
    by (rule res_ok_bind) (rule res_ok_bind [OF good_sweep], simp_all)
  with sets show ?thesis
    by (simp add: server_round_def Let_def reads_def writes_def srv1_def)
qed

end
