(* ===== verification/Server_Props.thy ===== *)
theory Server_Props
  imports Server_Table
begin

text \<open>
  The properties of the server: its invariant, the exact execution of pipelined and fragmented requests,
  the order and the completeness of the replies, and what goes wrong with malformed requests, large
  descriptors and the last replies before a shutdown.
\<close>

section \<open>A sample server\<close>

abbreviation ping :: resp_value where
  "ping \<equiv> RESP_ARRAY [RESP_BULK_STRING ''PING'']"

definition fail_io :: io where
  "fail_io = \<lparr>io_open = False, io_room = 0, io_rename = False\<rparr>"

definition sample_world :: world where
  "sample_world = \<lparr>w_db = empty_db, w_disk = Map.empty, w_running = Some True\<rparr>"

lemma sample_world_ok: "world_ok sample_world"
proof -
  have "ht_all entry_ok (empty_table 64)"
    using wf_empty_table [OF table_cap_64] by (simp add: ht_all_def ht_bag_def empty_table_def)
  then show ?thesis by (simp add: sample_world_def world_ok_def db_ok_def empty_db_def)
qed

lemma ping_ok: "request_ok ping" "value_ok ping" "encode ping = ''*1'' @ CRLF @ ''$4'' @ CRLF @ ''PING'' @ CRLF"
proof -
  have "dec_nat (Suc 0) = ''1''" "dec_nat (Suc (Suc (Suc (Suc 0)))) = ''4''" by code_simp+
  then show "request_ok ping" "value_ok ping" "encode ping = ''*1'' @ CRLF @ ''$4'' @ CRLF @ ''PING'' @ CRLF"
    by (simp_all add: request_ok_def string_args_def arg_count_def get_arg_def cstr_ok_def NUL_def INT32_MAX_def)
qed

lemma partial_star: "partial ''*''"
  unfolding partial_def by (rule exI [of _ ping]) (simp add: ping_ok del: encode.simps value_ok.simps)

lemma fresh_create: "fresh_tail (client_create fd)"
  using conn_create [of fd] by (simp add: fresh_tail_def) (simp add: client_create_def CLIENT_BUF_SIZE_def)

section \<open>Properties\<close>

text \<open>C22: in every state that the running server reaches, for any input from the network, the table has 1024
  slots, the count of clients is the number of the occupied ones, and every client has its read and
  write positions inside its buffers.\<close>

theorem server_invariant:
  assumes "reachable clk db d port srv"
  shows "length (srv_clients srv) = MAX_CLIENTS \<and> srv_client_count srv = occupied (srv_clients srv) \<and>
    srv_client_count srv \<le> MAX_CLIENTS \<and>
    (\<forall>i c. i < MAX_CLIENTS \<and> srv_clients srv ! i = Some c \<longrightarrow>
       length (c_read_buf c) = CLIENT_BUF_SIZE \<and> c_read_len c \<le> CLIENT_BUF_SIZE \<and>
       c_write_pos c \<le> length (c_write_buf c) \<and> length (c_write_buf c) \<le> c_write_cap c)"
  using reachable_table [OF assms] table_conn [OF reachable_table [OF assms]] occupied_le [of "srv_clients srv"]
  by (auto simp: table_ok_def conn_ok_def)

theorem server_invariant_witness:
  "\<exists>srv. reachable (\<lambda>n. 0) empty_db Map.empty 70000 srv \<and> srv_listen_fd srv = 3 \<and> length (srv_clients srv) = MAX_CLIENTS"
proof -
  obtain srv where srv: "server_listen \<lparr>la_socket = 3, la_bind = (\<lambda>port. port = 4464), la_listen = True\<rparr>
      (server_create empty_db Map.empty 70000) = (srv, 0)" "srv_listen_fd srv = 3"
    by (simp add: server_listen_def server_create_def INVALID_SOCK_def Let_def)
  have "reachable (\<lambda>n. 0) empty_db Map.empty 70000 (srv\<lparr>srv_world := (srv_world srv)\<lparr>w_running := Some True\<rparr>\<rparr>)"
    by (rule reachable.started [OF srv(1)])
  from this server_invariant [OF this] srv(2) show ?thesis by (intro exI) auto
qed

text \<open>C6: a server whose clients send well-formed requests - in pieces of any size, any number at a time -
  gets through every round of the event loop: nothing but the signed overflow of an integer command can go
  wrong, and the server is then ready for the next such round.\<close>

theorem server_survives_round:
  assumes "good_server srv" "round_input_ok srv rdy"
  shows "res_ok {SignedOverflow} (\<lambda>(srv', go). good_server srv' \<and> go) (server_round clk (SelectReady rdy) srv)"
  by (rule good_round [OF assms])

theorem server_survives_round_witness:
  "res_ok {SignedOverflow} (\<lambda>(srv', go). good_server srv' \<and> go)
    (server_round (\<lambda>n. 0) (SelectReady \<lparr>rd_read = [3, 4], rd_write = [], rd_accept = Some 5,
        rd_recv = (\<lambda>fd. Some (encode ping @ ''*'')), rd_send = (\<lambda>fd. None), rd_io = (\<lambda>fd n. fail_io)\<rparr>)
      \<lparr>srv_world = sample_world, srv_listen_fd = 3, srv_port = 6399, srv_clients = Some (client_create 4) # replicate 1023 None,
       srv_client_count = 1, srv_net = []\<rparr>)"
proof (rule server_survives_round)
  let ?srv = "\<lparr>srv_world = sample_world, srv_listen_fd = 3, srv_port = 6399, srv_clients = Some (client_create 4) # replicate 1023 None,
       srv_client_count = 1, srv_net = []\<rparr>"
  show "good_server ?srv"
    using sample_world_ok honest_create [of 4] by (auto simp: good_server_def table_ok_def MAX_CLIENTS_def fd_ok_def FD_SETSIZE_def)
  have "arrives_ok (client_create 4) (encode ping @ ''*'')"
    using ping_ok(1) partial_star
    by (auto simp: arrives_ok_def client_create_def CLIENT_BUF_SIZE_def received_def ping_ok(3) simp del: encode.simps
        intro!: exI [of _ "[ping]"] exI [of _ "''*''"])
  then show "round_input_ok ?srv \<lparr>rd_read = [3, 4], rd_write = [], rd_accept = Some 5,
        rd_recv = (\<lambda>fd. Some (encode ping @ ''*'')), rd_send = (\<lambda>fd. None), rd_io = (\<lambda>fd n. fail_io)\<rparr>"
    by (auto simp: round_input_ok_def client_fds_def fd_ok_def FD_SETSIZE_def simp del: encode.simps)
qed



text \<open>C11: how the bytes of a connection are cut into pieces on the way does not matter: the server answers,
  and changes the database, as if the requests had been executed one by one, as long as a piece fits into
  the buffer behind an incomplete request.\<close>

theorem fragmentation_does_not_matter:
  assumes "list_all value_ok vs" "concat xs = concat (map encode vs)" "\<forall>x \<in> set xs. x \<noteq> []"
    and "\<forall>v \<in> set vs. \<forall>x \<in> set xs. length (encode v) + length x \<le> CLIENT_BUF_SIZE"
  shows "case exec_all clk (\<lambda>_. e) 0 w vs of
      Inl fault \<Rightarrow> feed clk e w (client_create fd) xs = Inl fault
    | Inr (w', out) \<Rightarrow> (\<exists>c'. feed clk e w (client_create fd) xs = Inr (w', Some c') \<and> received c' = [] \<and> pending c' = out)"
proof -
  have "begins (received (client_create fd)) vs"
    by (cases vs) (simp_all add: begins_def encode_nonempty)
  from feed_stream [OF assms(1,3,4) fresh_create this, where clk = clk and e = e and w = w] assms(2) show ?thesis
    by (fastforce split: sum.splits)
qed

theorem fragmentation_does_not_matter_witness:
  "case exec_all (\<lambda>n. 0) (\<lambda>_. fail_io) 0 sample_world [ping] of
      Inl fault \<Rightarrow> feed (\<lambda>n. 0) fail_io sample_world (client_create 4) [''*1'' @ CRLF @ ''$'', ''4'' @ CRLF @ ''PING'' @ CRLF] = Inl fault
    | Inr (w', out) \<Rightarrow> (\<exists>c'. feed (\<lambda>n. 0) fail_io sample_world (client_create 4) [''*1'' @ CRLF @ ''$'', ''4'' @ CRLF @ ''PING'' @ CRLF] =
        Inr (w', Some c') \<and> received c' = [] \<and> pending c' = out)"
  by (rule fragmentation_does_not_matter) (simp_all add: ping_ok(2,3) CLIENT_BUF_SIZE_def del: encode.simps value_ok.simps)

text \<open>C23: at any time in the life of a connection the bytes sent, followed by the pending ones, are the
  replies in the order in which they were queued: none is lost, repeated or reordered by partial sends.\<close>

theorem replies_sent_in_order:
  assumes "conn_trace (client_create fd) t c"
  shows "sent_bytes t @ pending c = queued_bytes t"
  using conn_trace_in_order [OF assms] by simp

theorem replies_sent_in_order_witness:
  "\<exists>t c. conn_trace (client_create 4) t c \<and> sent_bytes t = ''ab'' \<and> pending c = ''c'' \<and> sent_bytes t @ pending c = queued_bytes t"
proof -
  obtain c1 where c1: "client_queue_write (client_create 4) ''abc'' = Inr c1" "pending c1 = ''abc''" "c_write_buf c1 = ''abc''"
      "c_write_pos c1 = 0"
    by (rule queue_ok [OF conn_create(1) [of 4], of "''abc''"]) (auto simp: client_create_def pending_def)
  have s: "client_send (Some 2) c1 = Some (c1\<lparr>c_write_pos := 2\<rparr>, ''ab'')"
    using c1 by (simp add: client_send_def)
  have tr: "conn_trace (client_create 4) (([] @ [Queued ''abc'']) @ [Sent ''ab'']) (c1\<lparr>c_write_pos := 2\<rparr>)"
    by (rule conn_trace.send [OF conn_trace.queue [OF conn_trace.start c1(1)] s])
  show ?thesis
    using tr replies_sent_in_order [OF tr] c1
    by (intro exI [of _ "([] @ [Queued ''abc'']) @ [Sent ''ab'']"] exI [of _ "c1\<lparr>c_write_pos := 2\<rparr>"])
       (simp add: sent_bytes_def pending_def)
qed

text \<open>All pending bytes are sent in the end: each round in which the socket takes at least one byte brings
  the connection closer, and after as many rounds as there are bytes nothing is left.\<close>

theorem pending_replies_get_sent:
  assumes "conn_ok c" "\<forall>m \<in> set ms. 0 < m" "length (pending c) \<le> length ms"
  shows "\<exists>c'. send_rounds c ms = Some (c', pending c) \<and> pending c' = []"
  using send_rounds_drain [OF assms] by blast

theorem pending_replies_get_sent_witness:
  "\<exists>c'. send_rounds ((client_create 4)\<lparr>c_write_buf := ''abc''\<rparr>) [2, 7, 1] = Some (c', ''abc'') \<and> pending c' = []"
  using pending_replies_get_sent [of "(client_create 4)\<lparr>c_write_buf := ''abc''\<rparr>" "[2, 7, 1]"]
  by (simp add: conn_ok_def client_create_def pending_def)

section \<open>What goes wrong\<close>

text \<open>A line that starts with no type character of the protocol.\<close>

definition malformed :: "client \<Rightarrow> bool" where
  "malformed c \<longleftrightarrow> find_crlf (received c) \<noteq> None \<and> hd (received c) \<notin> set ''+-:$*''"

lemma find_crlf_append: "find_crlf s \<noteq> None \<Longrightarrow> find_crlf (s @ t) \<noteq> None \<and> hd (s @ t) = hd s"
proof (induction s rule: find_crlf.induct)
  case (1 a b r)
  then show ?case by (auto split: if_splits)
qed auto

lemma malformed_process:
  assumes "conn_ok c" "malformed c"
  shows "process_client_input clk env n w c = Inr (w, c)"
proof -
  have r: "received c \<noteq> []" using assms(2) by (cases "received c") (auto simp: malformed_def)
  then have "c_read_len c \<noteq> 0" "c_read_buf c ! 0 = hd (received c)"
    by (auto simp: received_def hd_conv_nth)
  with assms(2) have "resp_parse (c_read_buf c) (c_read_len c) = Inr ParseError"
    by (auto simp: resp_parse_def resp_parse_value.simps malformed_def Let_def received_def [symmetric])
  then show ?thesis by (simp add: process_client_input.simps [of clk env n w c])
qed

text \<open>C38: after a malformed line nothing that a client sends is executed or answered any more - there is no
  error reply and the line is never skipped - until its buffer is full; then the connection is closed.\<close>

theorem malformed_line_blocks_connection:
  assumes "conn_ok c" "malformed c" "\<forall>x \<in> set xs. x \<noteq> []"
  shows "\<exists>p. feed clk e w c xs = Inr (w, p) \<and> (\<forall>c'. p = Some c' \<longrightarrow> pending c' = pending c) \<and>
    (c_read_len c + length xs > CLIENT_BUF_SIZE \<longrightarrow> p = None)"
  using assms
proof (induction xs arbitrary: c)
  case Nil
  then show ?case by (simp add: conn_ok_def)
next
  case (Cons x xs)
  show ?case
  proof (cases "client_recv (Some x) c")
    case None
    then show ?thesis by simp
  next
    case (Some c1)
    note r = recv_ok [OF Cons.prems(1) Some]
    have m: "malformed c1" using Cons.prems(2) r(2) find_crlf_append by (auto simp: malformed_def)
    have "length (received c1) > length (received c)"
      using Some Cons.prems(1) r(2) by (auto simp: client_recv_def Let_def split: if_splits)
    then have len: "c_read_len c1 > c_read_len c" using received_length r(1) Cons.prems(1) by simp
    obtain p where p: "feed clk e w c1 xs = Inr (w, p)" "\<forall>c'. p = Some c' \<longrightarrow> pending c' = pending c1"
        "c_read_len c1 + length xs > CLIENT_BUF_SIZE \<longrightarrow> p = None"
      using Cons.IH [OF r(1) m] Cons.prems(3) by auto
    have "feed clk e w c (x # xs) = Inr (w, p)" using Some malformed_process [OF r(1) m] p(1) by simp
    with p(2,3) len r(4,5) show ?thesis by (auto simp: pending_def)
  qed
qed

theorem malformed_line_blocks_connection_witness:
  "\<exists>c. received c = ''quit'' @ CRLF \<and> feed (\<lambda>n. 0) fail_io sample_world c (replicate 65536 ''x'') = Inr (sample_world, None)"
proof -
  obtain c where c: "fresh_tail c" "received c = ''quit'' @ CRLF"
    by (rule recv_all [OF fresh_create [of 4], of "''quit'' @ CRLF"])
       (auto simp: client_create_def CLIENT_BUF_SIZE_def received_def)
  have conn: "conn_ok c" using c(1) by (simp add: fresh_tail_def)
  have "malformed c" by (simp add: malformed_def c(2) CR_def LF_def)
  from malformed_line_blocks_connection [OF conn this, of "replicate 65536 ''x''" "\<lambda>n. 0" fail_io sample_world]
    received_length [OF conn] c(2)
  show ?thesis by (auto simp: CLIENT_BUF_SIZE_def intro!: exI [of _ c])
qed

lemma collect_fds_bad:
  "Some c \<in> set cs \<Longrightarrow> FD_SETSIZE \<le> c_fd c \<Longrightarrow> collect_fds cs sets = Inl OutOfBounds"
proof (induction cs sets rule: collect_fds.induct)
  case (3 d cs reads writes)
  then show ?case
    by (cases "fd_ok (c_fd d)") (auto simp: FD_SET_def fd_ok_def)
qed auto

text \<open>A connection whose descriptor is not below 1024 is accepted like any other, although the check of
  MAX_CLIENTS does not bound the descriptors; the next round then writes beyond the \<open>fd_set\<close>.\<close>

theorem large_descriptor_overflows_fd_set:
  assumes "table_ok srv" "srv_client_count srv < MAX_CLIENTS" "FD_SETSIZE \<le> fd"
  shows "server_round clk sel (server_accept (Some fd) srv) = Inl OutOfBounds"
proof -
  obtain i where i: "empty_slot (srv_clients srv) = Some i"
    using assms(1,2) empty_slot_None [of "srv_clients srv"] by (cases "empty_slot (srv_clients srv)") (auto simp: table_ok_def)
  have "Some (client_create fd) \<in> set ((srv_clients srv)[i := Some (client_create fd)])"
    using empty_slot_Some [OF i] by (simp add: set_update_memI)
  then have "collect_fds (srv_clients (server_accept (Some fd) srv)) sets = Inl OutOfBounds" for sets
    using assms(2,3) i by (intro collect_fds_bad [of "client_create fd"]) (simp_all add: server_accept_def)
  then show ?thesis by (simp add: server_round_def FD_SET_def)
qed

theorem large_descriptor_overflows_fd_set_witness:
  "server_round (\<lambda>n. 0) SelectError (server_accept (Some 1024) (server_create empty_db Map.empty 3)) = Inl OutOfBounds"
  by (rule large_descriptor_overflows_fd_set)
     (simp_all add: server_create_def table_ok_def MAX_CLIENTS_def fd_ok_def FD_SETSIZE_def)

section \<open>The end of the loop\<close>

lemma collect_fds_idle:
  "(\<And>c. Some c \<in> set cs \<Longrightarrow> pending c = []) \<Longrightarrow> collect_fds cs (rs, ws) = Inr (r, w) \<Longrightarrow> w = ws"
proof (induction cs "(rs, ws)" arbitrary: rs ws rule: collect_fds.induct)
  case (3 c cs reads writes)
  have "\<not> c_write_pos c < length (c_write_buf c)" using "3.prems"(1) [of c] by (simp add: pending_def)
  with 3 show ?case by auto
qed auto

lemma serve_client_net: "serve_client clk rdy reads [] i srv = Inr srv' \<Longrightarrow> srv_net srv' = srv_net srv"
  by (auto simp: serve_client_def serve_write_def FD_ISSET_def server_remove_client_def split: option.splits if_splits)

lemma serve_clients_net: "serve_clients clk rdy reads [] is srv = Inr srv' \<Longrightarrow> srv_net srv' = srv_net srv"
  by (induction "is" arbitrary: srv) (auto dest: serve_client_net)

lemma round_net:
  assumes "\<And>c. Some c \<in> set (srv_clients srv) \<Longrightarrow> pending c = []" "server_round clk sel srv = Inr (srv1, go)"
  shows "srv_net srv1 = srv_net srv"
proof (cases sel)
  case (SelectReady rdy)
  define accepted where "accepted b = (if b then server_accept (rd_accept rdy) srv else srv)" for b
  have acc: "srv_net (accepted b) = srv_net srv" for b by (simp add: accepted_def server_accept_def split: option.split)
  from assms(2) SelectReady obtain r w b reads srv2 db where
    r: "collect_fds (srv_clients srv) ([srv_listen_fd srv], []) = Inr (r, w)"
      "serve_clients clk rdy reads (filter (\<lambda>fd. fd \<in> set (rd_write rdy)) w) [0..<MAX_CLIENTS] (accepted b) = Inr srv2"
      "srv1 = srv2\<lparr>srv_world := (srv_world srv2)\<lparr>w_db := db\<rparr>\<rparr>"
    by (auto simp: server_round_def FD_SET_def Let_def accepted_def split: if_splits)
  have "w = []" by (rule collect_fds_idle [OF assms(1) r(1)])
  with r(2,3) acc serve_clients_net [of clk rdy reads "[0..<MAX_CLIENTS]" "accepted b" srv2] show ?thesis by simp
qed (use assms(2) in \<open>auto simp: server_round_def\<close>)

lemma cleanup_fold:
  defines "step \<equiv> \<lambda>s i. if srv_clients s ! i \<noteq> None then server_remove_client s i else s"
  shows "srv_net (foldl step srv is) = srv_net srv \<and> srv_world (foldl step srv is) = srv_world srv \<and>
    length (srv_clients (foldl step srv is)) = length (srv_clients srv) \<and>
    (\<forall>i < length (srv_clients srv). i \<in> set is \<or> srv_clients srv ! i = None \<longrightarrow> srv_clients (foldl step srv is) ! i = None)"
proof (induction "is" arbitrary: srv)
  case (Cons k "is")
  have "srv_net (step srv k) = srv_net srv \<and> srv_world (step srv k) = srv_world srv \<and>
      length (srv_clients (step srv k)) = length (srv_clients srv) \<and>
      (\<forall>i < length (srv_clients srv). i = k \<or> srv_clients srv ! i = None \<longrightarrow> srv_clients (step srv k) ! i = None)"
    by (auto simp: step_def server_remove_client_def) (metis nth_list_update_eq nth_list_update_neq)
  with Cons.IH [of "step srv k"] show ?case by auto
qed simp

lemma server_cleanup_clears:
  assumes "length (srv_clients srv) = MAX_CLIENTS"
  shows "srv_net (server_cleanup srv) = srv_net srv" "srv_world (server_cleanup srv) = srv_world srv"
    "srv_clients (server_cleanup srv) = replicate MAX_CLIENTS None"
  using cleanup_fold [of srv "[0..<MAX_CLIENTS]"] assms by (auto simp: server_cleanup_def intro: nth_equalityI)

text \<open>The loop ends without another look at the write buffers: the replies of the round in which the
  server stops, among them the OK for SHUTDOWN itself, are never sent to clients that had nothing
  pending before; all connections are closed.\<close>

theorem last_replies_are_dropped:
  assumes "table_ok srv" "running srv" "\<And>c. Some c \<in> set (srv_clients srv) \<Longrightarrow> pending c = []"
    and "server_round clk sel srv = Inr (srv1, go)" "\<not> running srv1"
  shows "\<exists>srv2. server_loop clk (sel # sels) srv = Inr srv2 \<and> srv_net srv2 = srv_net srv \<and>
    srv_world srv2 = srv_world srv1 \<and> srv_clients srv2 = replicate MAX_CLIENTS None"
proof -
  have "length (srv_clients srv1) = MAX_CLIENTS" using round_table [OF assms(4,1)] by (simp add: table_ok_def)
  note clears = server_cleanup_clears [OF this]
  have "server_loop clk (sel # sels) srv = Inr (server_cleanup srv1)"
    using assms(2,4,5) by (cases sels) auto
  with clears round_net [OF assms(3,4)] show ?thesis by simp
qed

text \<open>A client sends SHUTDOWN to a server with an empty database.\<close>

definition shutdown_cmd :: resp_value where
  "shutdown_cmd = RESP_ARRAY [RESP_BULK_STRING ''SHUTDOWN'']"

definition sample_server :: server where
  "sample_server = \<lparr>srv_world = sample_world, srv_listen_fd = 3, srv_port = 6399, srv_clients = Some (client_create 4) # replicate 1023 None,
     srv_client_count = 1, srv_net = []\<rparr>"

definition shutdown_round :: ready where
  "shutdown_round = \<lparr>rd_read = [4], rd_write = [4], rd_accept = None, rd_recv = (\<lambda>fd. Some (encode shutdown_cmd)),
     rd_send = (\<lambda>fd. Some 100), rd_io = (\<lambda>fd n. fail_io)\<rparr>"

lemma exec_shutdown:
  "exec_all clk (\<lambda>n. fail_io) 0 sample_world [shutdown_cmd] = Inr (sample_world\<lparr>w_running := Some False\<rparr>, ''+OK'' @ CRLF)"
proof -
  have known: "(''SHUTDOWN'', cmd_shutdown) \<in> set command_table" "cstr_ok ''SHUTDOWN''"
    by (simp_all add: command_table_def cstr_ok_def NUL_def)
  obtain rb where rb: "resp_write_simple_string resp_buf_init ''OK'' = Inr rb" "rb_data rb = ''+OK'' @ CRLF"
    using writer_replies(1) [OF rb_ok_init(1), of "''OK''"] by (auto simp: appends_def)
  then show ?thesis
    by (simp add: shutdown_cmd_def execute_known [OF known refl] cmd_shutdown_def persist_save_def fail_io_def
        sample_world_def Let_def)
qed

lemma serve_empty_slots: "(\<And>i. i \<in> set is \<Longrightarrow> srv_clients srv ! i = None) \<Longrightarrow> serve_clients clk rdy reads writes is srv = Inr srv"
  by (induction "is") (auto simp: serve_client_def)

lemma sample_table: "table_ok sample_server"
  by (auto simp: table_ok_def sample_server_def MAX_CLIENTS_def)

lemma shutdown_stops:
  "\<exists>srv1. server_round (\<lambda>n. 0) (SelectReady shutdown_round) sample_server = Inr (srv1, True) \<and> \<not> running srv1"
proof -
  have dec: "dec_nat (Suc 0) = ''1''" "dec_nat (Suc (Suc (Suc (Suc (Suc (Suc (Suc (Suc 0)))))))) = ''8''" by code_simp+
  have enc: "encode shutdown_cmd = ''*1'' @ CRLF @ ''$8'' @ CRLF @ ''SHUTDOWN'' @ CRLF"
    by (simp add: shutdown_cmd_def dec)
  obtain c1 where c1: "client_recv (Some (encode shutdown_cmd)) (client_create 4) = Some c1" "fresh_tail c1"
      "received c1 = encode shutdown_cmd" "c_fd c1 = 4"
    by (rule recv_all [OF fresh_create [of 4], of "encode shutdown_cmd"])
       (auto simp: enc client_create_def CLIENT_BUF_SIZE_def received_def)
  have "value_ok shutdown_cmd" by (simp add: shutdown_cmd_def cstr_ok_def NUL_def INT32_MAX_def)
  then have "served c1 [] (exec_all (\<lambda>n. 0) (\<lambda>n. fail_io) 0 sample_world [shutdown_cmd])
      (process_client_input (\<lambda>n. 0) (\<lambda>n. fail_io) 0 sample_world c1)"
    using c1(2,3) by (intro process_stream) (simp_all del: value_ok.simps encode.simps)
  then obtain c2 where c2: "process_client_input (\<lambda>n. 0) (\<lambda>n. fail_io) 0 sample_world c1 =
      Inr (sample_world\<lparr>w_running := Some False\<rparr>, c2)" "c_fd c2 = 4"
    unfolding exec_shutdown using c1(4) by (auto simp: served_def)
  let ?srv = "sample_server\<lparr>srv_world := sample_world\<lparr>w_running := Some False\<rparr>, srv_clients := Some c2 # replicate 1023 None\<rparr>"
  have "serve_client (\<lambda>n. 0) shutdown_round [4] [] 0 sample_server = Inr ?srv"
    using c1(1) c2 by (simp add: serve_client_def sample_server_def FD_ISSET_def fd_ok_def FD_SETSIZE_def shutdown_round_def serve_write_def)
  moreover have "serve_clients (\<lambda>n. 0) shutdown_round [4] [] [1..<MAX_CLIENTS] ?srv = Inr ?srv"
    by (rule serve_empty_slots) (simp add: MAX_CLIENTS_def nth_Cons split: nat.split)
  ultimately have serve: "serve_clients (\<lambda>n. 0) shutdown_round [4] [] [0..<MAX_CLIENTS] sample_server = Inr ?srv"
    by (simp add: MAX_CLIENTS_def upt_conv_Cons [of 0])
  have none: "collect_fds (replicate n None) sets = Inr sets" for n sets by (induction n) auto
  have "collect_fds (srv_clients sample_server) ([3], []) = Inr ([4, 3], [])"
    by (simp add: sample_server_def FD_SET_def fd_ok_def FD_SETSIZE_def none client_create_def)
  with serve show ?thesis
    by (simp add: server_round_def FD_SET_def fd_ok_def FD_SETSIZE_def sample_server_def shutdown_round_def Let_def
        sample_world_def empty_db_def db_expire_sweep_def imdb_mstime_def int64_def in_int64_def INT64_MIN_def INT64_MAX_def
        EXPIRE_SWEEP_INTERVAL_def running_def)
qed

theorem last_replies_are_dropped_witness:
  "\<exists>srv2. server_loop (\<lambda>n. 0) [SelectReady shutdown_round] sample_server = Inr srv2 \<and> srv_net srv2 = []"
proof -
  obtain srv1 where s: "server_round (\<lambda>n. 0) (SelectReady shutdown_round) sample_server = Inr (srv1, True)" "\<not> running srv1"
    using shutdown_stops by blast
  have "running sample_server" by (simp add: running_def sample_server_def sample_world_def)
  moreover have "pending c = []" if "Some c \<in> set (srv_clients sample_server)" for c
    using that by (auto simp: sample_server_def)
  moreover have "srv_net sample_server = []" by (simp add: sample_server_def)
  ultimately show ?thesis using last_replies_are_dropped [OF sample_table _ _ s, of "[]"] by auto
qed

section \<open>A client that has sent everything\<close>

lemma input_served:
  assumes "fresh_tail c" "s \<noteq> []" "c_read_len c + length s < CLIENT_BUF_SIZE"
    and "received c @ s = concat (map encode vs)" "list_all value_ok vs" "exec_all clk env 0 w vs = Inr (w', out)"
  obtains c1 c2 where "client_recv (Some s) c = Some c1" "process_client_input clk env 0 w c1 = Inr (w', c2)"
    "pending c2 = pending c @ out" "c_fd c2 = c_fd c"
proof -
  obtain c1 where c1: "client_recv (Some s) c = Some c1" "fresh_tail c1" "received c1 = received c @ s" "pending c1 = pending c" "c_fd c1 = c_fd c"
    using recv_all [OF assms(1-3)] .
  have "received c1 = concat (map encode vs) @ []" using c1(3) assms(4) by simp
  from process_stream [OF assms(5) partial_Nil c1(2) this, of clk env 0 w] assms(6) c1 that show thesis
    by (auto simp: served_def)
qed

text \<open>C37: a client that sends its requests and then closes its side of the connection gets no reply: the requests are
  executed and the replies queued in the round in which they arrive, in the next round \<open>recv\<close> finds the end of the
  input, and the connection is closed before a byte is sent, however much \<open>send\<close> would take.\<close>

theorem half_close_loses_replies:
  assumes c: "i < length (srv_clients srv)" "srv_clients srv ! i = Some c" "fd_ok (c_fd c)" "fresh_tail c" "c_fd c \<in> set reads" "c_fd c \<notin> set writes"
    and s: "rd_recv rdy (c_fd c) = Some s" "s \<noteq> []" "c_read_len c + length s < CLIENT_BUF_SIZE"
      "received c @ s = concat (map encode vs)" "list_all value_ok vs"
    and e: "exec_all clk (rd_io rdy (c_fd c)) 0 (srv_world srv) vs = Inr (w', out)"
    and closed: "rd_recv rdy2 (c_fd c) = None" "c_fd c \<in> set reads2"
  shows "\<exists>srv1 c1 srv2. serve_client clk rdy reads writes i srv = Inr srv1 \<and> srv_world srv1 = w' \<and>
    srv_clients srv1 ! i = Some c1 \<and> pending c1 = pending c @ out \<and>
    serve_client clk2 rdy2 reads2 writes2 i srv1 = Inr srv2 \<and> srv_clients srv2 ! i = None \<and>
    srv_world srv2 = w' \<and> srv_net srv2 = srv_net srv"
proof -
  obtain c0 c1 where input: "client_recv (Some s) c = Some c0"
      "process_client_input clk (rd_io rdy (c_fd c)) 0 (srv_world srv) c0 = Inr (w', c1)" "pending c1 = pending c @ out" "c_fd c1 = c_fd c"
    by (rule input_served [OF c(4) s(2-5) e])
  then have c1: "serve_client clk rdy reads writes i srv = Inr (srv\<lparr>srv_world := w', srv_clients := (srv_clients srv)[i := Some c1]\<rparr>)"
      "pending c1 = pending c @ out" "c_fd c1 = c_fd c"
    using c s(1) by (simp_all add: serve_client_def serve_write_def FD_ISSET_def)
  let ?srv1 = "srv\<lparr>srv_world := w', srv_clients := (srv_clients srv)[i := Some c1]\<rparr>"
  have "serve_client clk2 rdy2 reads2 writes2 i ?srv1 = Inr (server_remove_client ?srv1 i)"
    using c c1(3) closed by (simp add: serve_client_def FD_ISSET_def client_recv_def)
  with c1 c(1) show ?thesis
    by (intro exI [of _ ?srv1] exI [of _ c1] exI [of _ "server_remove_client ?srv1 i"]) (simp add: server_remove_client_def)
qed

theorem half_close_loses_replies_witness:
  "\<exists>srv1 c1 srv2. serve_client (\<lambda>n. 0) shutdown_round [4] [] 0 sample_server = Inr srv1 \<and>
    srv_clients srv1 ! 0 = Some c1 \<and> pending c1 = ''+OK'' @ CRLF \<and>
    serve_client (\<lambda>n. 0) (shutdown_round\<lparr>rd_recv := \<lambda>fd. None\<rparr>) [4] [4] 0 srv1 = Inr srv2 \<and> srv_clients srv2 ! 0 = None \<and> srv_net srv2 = []"
proof -
  have dec: "dec_nat (Suc 0) = ''1''" "dec_nat (Suc (Suc (Suc (Suc (Suc (Suc (Suc (Suc 0)))))))) = ''8''" by code_simp+
  have enc: "encode shutdown_cmd = ''*1'' @ CRLF @ ''$8'' @ CRLF @ ''SHUTDOWN'' @ CRLF" by (simp add: shutdown_cmd_def dec)
  have v: "list_all value_ok [shutdown_cmd]" by (simp add: shutdown_cmd_def cstr_ok_def NUL_def INT32_MAX_def)
  have wire: "received (client_create 4) @ encode shutdown_cmd = concat (map encode [shutdown_cmd])"
    by (simp add: received_def client_create_def del: encode.simps)
  have run: "exec_all (\<lambda>n. 0) (rd_io shutdown_round (c_fd (client_create 4))) 0 (srv_world sample_server) [shutdown_cmd] =
      Inr (sample_world\<lparr>w_running := Some False\<rparr>, ''+OK'' @ CRLF)"
    using exec_shutdown by (simp add: shutdown_round_def sample_server_def)
  have "srv_net sample_server = []" by (simp add: sample_server_def)
  moreover have "pending (client_create 4) = []" by simp
  ultimately show ?thesis
    using half_close_loses_replies [of 0 sample_server "client_create 4" "[4]" "[]" shutdown_round "encode shutdown_cmd" "[shutdown_cmd]" "\<lambda>n. 0"
        "sample_world\<lparr>w_running := Some False\<rparr>" "''+OK'' @ CRLF" "shutdown_round\<lparr>rd_recv := \<lambda>fd. None\<rparr>" "[4]" "\<lambda>n. 0" "[4]", OF _ _ _ _ _ _ _ _ _ wire v run]
      fresh_create [of 4] encode_nonempty [of shutdown_cmd]
    by (auto simp: sample_server_def fd_ok_def FD_SETSIZE_def shutdown_round_def enc client_create_def CLIENT_BUF_SIZE_def simp del: encode.simps)
qed

end
