(* ===== verification/HashTable_Homes.thy ===== *)
theory HashTable_Homes
  imports HashTable_Map
begin

text \<open>
  The hash table on keys with different home slots. When the hashes of all keys in use differ modulo 64, the
  smallest capacity, every entry stays in its home slot in a table of any capacity: nothing is ever
  swapped or skipped, a tombstone is only reused by the keys it is the home of, and growing and
  shrinking put every entry in its new home. On such keys the table is a map without further conditions.
\<close>

section \<open>Entries at home\<close>

definition home :: "nat \<Rightarrow> string \<Rightarrow> nat" where
  "home cap k = unat (ht_hash k) mod cap"

definition spread :: "string set \<Rightarrow> bool" where
  "spread K \<longleftrightarrow> inj_on (home 64) K"

definition at_home :: "string set \<Rightarrow> 'v ht_entry list \<Rightarrow> bool" where
  "at_home K es \<longleftrightarrow> (\<forall>s<length es. \<forall>k h v. es ! s = HtOccupied k h v \<longrightarrow> k \<in> K \<and> s = home (length es) k)"

definition homed :: "string set \<Rightarrow> 'v hashtable \<Rightarrow> bool" where
  "homed K ht \<longleftrightarrow> spread K \<and> wf_ht ht \<and> at_home K (entries ht)"

lemma home_less [simp]: "0 < cap \<Longrightarrow> home cap k < cap"
  by (simp add: home_def)

lemma home_probe: "table_cap cap \<Longrightarrow> probe_index cap (ht_hash k) 0 = home cap k"
  by (simp add: probe_index_ring home_def)

lemma home_distance: "table_cap cap \<Longrightarrow> probe_distance cap (ht_hash k) (home cap k) = 0"
  using probe_distance_index [of cap "ht_hash k" 0] by (simp add: home_probe)

lemma home_eq:
  assumes "spread K" "table_cap cap" "k \<in> K" "k' \<in> K" "home cap k = home cap k'"
  shows "k = k'"
proof -
  obtain n where "6 \<le> n" "cap = 2 ^ n" using assms(2) by (auto simp: table_cap_def)
  then have "64 dvd cap" using le_imp_power_dvd [of 6 n "2::nat"] by simp
  then have "home 64 j = home cap j mod 64" for j by (simp add: home_def mod_mod_cancel)
  with assms(5) have "home 64 k = home 64 k'" by simp
  with assms(1,3,4) show ?thesis by (auto simp: spread_def dest: inj_onD)
qed

lemma at_homeD: "at_home K es \<Longrightarrow> s < length es \<Longrightarrow> es ! s = HtOccupied k h v \<Longrightarrow> k \<in> K \<and> s = home (length es) k"
  by (auto simp: at_home_def)

lemma at_home_update:
  assumes "at_home K es" "\<And>k h v. e = HtOccupied k h v \<Longrightarrow> k \<in> K \<and> i = home (length es) k"
  shows "at_home K (es[i := e])"
  unfolding at_home_def
proof (intro allI impI)
  fix s k h v
  assume "s < length (es[i := e])" "es[i := e] ! s = HtOccupied k h v"
  with assms show "k \<in> K \<and> s = home (length (es[i := e])) k"
    by (cases "s = i") (auto dest: at_homeD)
qed

lemma keys_onceI:
  assumes "\<And>s t k h h' v v'. s < length es \<Longrightarrow> t < length es \<Longrightarrow> es ! s = HtOccupied k h v \<Longrightarrow>
    es ! t = HtOccupied k h' v' \<Longrightarrow> s = t"
  shows "keys_once es"
  unfolding keys_once_def
proof (intro allI impI)
  fix s t
  assume "s < length es" "t < length es" "same_key (es ! s) (es ! t)"
  with assms show "s = t" by (cases "es ! s"; cases "es ! t") auto
qed

lemma at_home_once: "at_home K es \<Longrightarrow> keys_once es"
  by (rule keys_onceI) (metis at_homeD)

lemma homedD:
  assumes "homed K ht"
  shows "spread K" "wf_ht ht" "at_home K (entries ht)" "table_cap (capacity ht)" "length (entries ht) = capacity ht"
    "slots_ok (capacity ht) (entries ht)"
  using assms wf_htD(1-3) [of ht] by (auto simp: homed_def)

lemma homed_good:
  assumes "homed K ht"
  shows "good ht"
proof -
  note h = homedD [OF assms]
  have "path_open (capacity ht) (entries ht) s" if s: "s < capacity ht" for s
  proof (cases "entries ht ! s")
    case (HtOccupied k hash v)
    then have "hash = ht_hash k" "s = home (capacity ht) k"
      using slots_okD(3) [OF h(6) s] at_homeD [OF h(3)] s h(5) by auto
    then show ?thesis using HtOccupied h(4) by (simp add: path_open_def home_distance)
  qed (simp_all add: path_open_def)
  with h show ?thesis by (simp add: good_def at_home_once)
qed

text \<open>The map is read off the home slots.\<close>

lemma at_home_map:
  assumes "at_home K (entries ht)" "0 < length (entries ht)"
  shows "ht_map ht k = (case entries ht ! home (length (entries ht)) k of
    HtOccupied k' h v \<Rightarrow> if k' = k then Some v else None | _ \<Rightarrow> None)"
proof (rule option_eqI)
  fix u
  show "ht_map ht k = Some u \<longleftrightarrow> (case entries ht ! home (length (entries ht)) k of
      HtOccupied k' h v \<Rightarrow> if k' = k then Some v else None | _ \<Rightarrow> None) = Some u"
    using assms ht_map_Some [OF at_home_once [OF assms(1)], of k u]
    by (auto split: ht_entry.splits if_splits dest: at_homeD [OF assms(1)])
qed

lemma at_home_write:
  assumes "spread K" "table_cap (length (entries ht))" "at_home K (entries ht)" "key \<in> K"
    and es: "entries ht' = (entries ht)[home (length (entries ht)) key := e]"
    and e: "e = HtOccupied key h v \<and> r = Some v \<or> e = HtTombstone \<and> r = None"
  shows "at_home K (entries ht')" "ht_map ht' = (ht_map ht)(key := r)"
proof -
  let ?n = "length (entries ht)"
  have n: "0 < ?n" by (rule table_cap_gt0 [OF assms(2)])
  show home': "at_home K (entries ht')"
    unfolding es by (rule at_home_update [OF assms(3)]) (use e assms(4) in auto)
  show "ht_map ht' = (ht_map ht)(key := r)"
  proof
    fix k
    have len: "length (entries ht') = ?n" using es by simp
    note old = at_home_map [OF assms(3) n, of k] and new = at_home_map [OF home', of k, unfolded len, OF n]
    show "ht_map ht' k = ((ht_map ht)(key := r)) k"
    proof (cases "home ?n k = home ?n key")
      case True
      have "ht_map ht k = None" if k: "k \<noteq> key"
      proof (cases "entries ht ! home ?n k")
        case (HtOccupied k' h v)
        then have "k' \<in> K" using at_homeD [OF assms(3) _ HtOccupied] n by simp
        then have "k' \<noteq> k" using home_eq [OF assms(1,2) _ assms(4) True] k by auto
        then show ?thesis by (simp add: old HtOccupied)
      qed (simp_all add: old)
      then show ?thesis using e n True by (auto simp: new es)
    next
      case False
      then have "k \<noteq> key" by auto
      with False show ?thesis by (simp add: new old es)
    qed
  qed
qed

section \<open>Resizing\<close>

lemma keys_once_tl: "keys_once (e # es) \<Longrightarrow> keys_once es"
  unfolding keys_once_def by (metis Suc_less_eq length_Cons nat.inject nth_Cons_Suc)

lemma keys_once_hd: "keys_once (HtOccupied k h v # es) \<Longrightarrow> HtOccupied k h' v' \<notin> set es"
proof
  assume "keys_once (HtOccupied k h v # es)" "HtOccupied k h' v' \<in> set es"
  then show False
    using keys_onceD [of "HtOccupied k h v # es" 0 _ k h v h' v'] by (fastforce simp: in_set_conv_nth)
qed

lemma rehash_at_home:
  assumes "spread K" "slots_ok cap es" "tombs es = 0" "at_home K es"
    and "keys_once old" "\<forall>k h v. HtOccupied k h v \<in> set old \<longrightarrow> k \<in> K \<and> h = ht_hash k"
    and "\<forall>k h v h' v'. HtOccupied k h v \<in> set old \<longrightarrow> HtOccupied k h' v' \<notin> set es"
    and "ht_rehash cap old es n = Some (es', n')"
  shows "at_home K es'"
  using assms
proof (induction old arbitrary: es n)
  case Nil
  then show ?case by simp
next
  case (Cons e old)
  have rest: "keys_once old" using Cons.prems(5) by (rule keys_once_tl)
  show ?case
  proof (cases e)
    case (HtOccupied k h v)
    note cap = slots_okD(1,2) [OF Cons.prems(2)]
    let ?s = "home cap k" and ?x = "HtOccupied k (ht_hash k) v"
    have k: "k \<in> K" "h = ht_hash k" using Cons.prems(6) HtOccupied by auto
    have s: "?s < length es" using cap by simp
    have "es ! ?s = HtEmpty"
    proof (cases "es ! ?s")
      case HtTombstone
      then have "tomb (es ! ?s) = 1" by simp
      then show ?thesis using Cons.prems(3) nth_mem [OF s] by (auto simp: tombs_def sum_list_eq_0_iff)
    next
      case (HtOccupied ek eh ev)
      then have "ek \<in> K" "?s = home cap ek" using at_homeD [OF Cons.prems(4) s] cap by auto
      then have "ek = k" using home_eq [OF Cons.prems(1) cap(1) _ k(1), of ek] by simp
      then show ?thesis using Cons.prems(7) HtOccupied \<open>e = _\<close> nth_mem [OF s] by auto
    qed simp
    then have ins: "ht_resize_insert cap es k h v 0 = Some (es[?s := ?x])"
      using home_probe [OF cap(1), of k] k(2) by (subst ht_resize_insert.simps) simp
    show ?thesis
    proof (rule Cons.IH [OF Cons.prems(1) _ _ _ rest])
      show "slots_ok cap (es[?s := ?x])" by (rule slots_ok_update [OF Cons.prems(2) refl])
      show "tombs (es[?s := ?x]) = 0" using tombs_update [OF s, of ?x] Cons.prems(3) by simp
      show "at_home K (es[?s := ?x])" by (rule at_home_update [OF Cons.prems(4)]) (use k cap in auto)
      show "\<forall>k h v. HtOccupied k h v \<in> set old \<longrightarrow> k \<in> K \<and> h = ht_hash k" using Cons.prems(6) by simp
      show "\<forall>j h v h' v'. HtOccupied j h v \<in> set old \<longrightarrow> HtOccupied j h' v' \<notin> set (es[?s := ?x])"
        using Cons.prems(5,7) HtOccupied keys_once_hd [of k h v old] set_update_subset_insert [of es ?s ?x] by fastforce
      show "ht_rehash cap old (es[?s := ?x]) (Suc n) = Some (es', n')" using Cons.prems(8) HtOccupied ins by simp
    qed
  qed (use Cons rest in auto)
qed

lemma resize_at_home:
  assumes h: "spread K" "slots_ok (capacity ht) (entries ht)" "at_home K (entries ht)"
    and n: "table_cap n" and r: "ht_resize ht n = Some ht'"
  shows "at_home K (entries ht')"
proof -
  let ?new = "replicate n HtEmpty"
  have "\<not> n < HT_MIN_CAP" using table_cap_pos [OF n] by (simp add: HT_MIN_CAP_def)
  with r obtain es k where rehash: "ht_rehash n (entries ht) ?new 0 = Some (es, k)" and ht': "entries ht' = es"
    by (auto simp: ht_resize_def split: option.splits)
  have old: "k \<in> K \<and> hash = ht_hash k" if "HtOccupied k hash v \<in> set (entries ht)" for k hash v
  proof -
    from that obtain s where s: "s < length (entries ht)" "entries ht ! s = HtOccupied k hash v" by (auto simp: in_set_conv_nth)
    then show ?thesis using at_homeD [OF h(3) s] slots_okD(3) [OF h(2) _ s(2)] slots_okD(2) [OF h(2)] by simp
  qed
  have "at_home K es"
  proof (rule rehash_at_home [OF h(1) slots_ok_empty [OF n] _ _ at_home_once [OF h(3)] _ _ rehash])
    show "at_home K ?new" by (simp add: at_home_def)
  qed (use old in auto)
  with ht' show ?thesis by simp
qed

lemma grown_at_home:
  assumes "homed K ht"
  obtains ht1 where "grown ht = Some ht1" "at_home K (entries ht1)" "slots_ok (capacity ht1) (entries ht1)"
    "ht_map ht1 = ht_map ht"
proof -
  note h = homedD [OF assms]
  obtain ht1 where g: "grown ht = Some ht1" "slots_ok (capacity ht1) (entries ht1)" "ht_bag ht1 = ht_bag ht"
    using grown_total [OF h(2)] by blast
  have "at_home K (entries ht1)"
  proof (cases "load_high ht")
    case True
    with g(1) show ?thesis by (intro resize_at_home [OF h(1,6,3) table_cap_double [OF h(4)]]) (simp add: grown_def)
  qed (use g(1) h(3) in \<open>simp add: grown_def\<close>)
  note home1 = this
  show thesis
    by (rule that [OF g(1) home1 g(2) ht_map_eqI [OF at_home_once [OF h(3)] at_home_once [OF home1] g(3)]])
qed

section \<open>The operations on spread keys\<close>

lemma homed_set:
  assumes "homed K ht" "key \<in> K"
  shows "\<exists>ht'. ht_set ht key v = Some (ht', if ht_map ht key = None then 1 else 0) \<and> homed K ht' \<and>
    ht_map ht' = (ht_map ht)(key \<mapsto> v)"
proof -
  note h = homedD [OF assms(1)]
  obtain ht1 where g: "grown ht = Some ht1" "at_home K (entries ht1)" "slots_ok (capacity ht1) (entries ht1)"
      "ht_map ht1 = ht_map ht" using assms(1) by (rule grown_at_home)
  note cap = slots_okD(1,2) [OF g(3)]
  let ?s = "home (length (entries ht1)) key"
  have s: "?s < length (entries ht1)" using cap by simp
  have key: "ht_map ht1 key = (case entries ht1 ! ?s of HtOccupied k' h v \<Rightarrow> if k' = key then Some v else None | _ \<Rightarrow> None)"
    by (rule at_home_map [OF g(2)]) (use cap in simp)
  have own: "k = key \<and> eh = ht_hash key" if "entries ht1 ! ?s = HtOccupied k eh w" for k eh w
  proof -
    have "k \<in> K" "home (capacity ht1) k = home (capacity ht1) key" using at_homeD [OF g(2) s that] cap(2) by simp_all
    then have "k = key" using home_eq [OF h(1) cap(1) _ assms(2)] by blast
    with slots_okD(3) [OF g(3) _ that] s cap(2) show ?thesis by simp
  qed
  have run: "ht_set ht key v = ht_set_loop key ht1 key (ht_hash key) v 1 0" using g(1) by (simp add: ht_set_grown)
  have loop: "ht_set_loop key ht1 key (ht_hash key) v 1 0 =
      (case entries ht1 ! ?s of
         HtEmpty \<Rightarrow> Some (ht1\<lparr>entries := (entries ht1)[?s := HtOccupied key (ht_hash key) v], size_of := size_of ht1 + 1\<rparr>, 1)
       | HtTombstone \<Rightarrow> Some (ht1\<lparr>entries := (entries ht1)[?s := HtOccupied key (ht_hash key) v], size_of := size_of ht1 + 1,
           tombstones := tombstones ht1 - 1\<rparr>, 1)
       | HtOccupied ek eh ev \<Rightarrow> Some (ht1\<lparr>entries := (entries ht1)[?s := HtOccupied ek eh v]\<rparr>, 0))"
    using own by (subst ht_set_loop.simps) (simp add: home_probe [OF cap(1)] cap(2) split: ht_entry.split)
  have "\<exists>ht'. ht_set ht key v = Some (ht', if ht_map ht1 key = None then 1 else 0) \<and>
      entries ht' = (entries ht1)[?s := HtOccupied key (ht_hash key) v]"
    unfolding run loop using own by (cases "entries ht1 ! ?s") (auto simp: key)
  then obtain ht' where ht': "ht_set ht key v = Some (ht', if ht_map ht1 key = None then 1 else 0)"
      "entries ht' = (entries ht1)[?s := HtOccupied key (ht_hash key) v]" by blast
  have "at_home K (entries ht')" "ht_map ht' = (ht_map ht1)(key \<mapsto> v)"
    using at_home_write [OF h(1) _ g(2) assms(2) ht'(2)] cap by auto
  moreover have "wf_ht ht'" using ht_set_spec [OF h(2), of key v] ht'(1) by auto
  ultimately show ?thesis using ht' g(4) h(1) by (simp add: homed_def)
qed

lemma homed_delete:
  assumes "homed K ht" "key \<in> K"
  shows "\<exists>ht'. ht_delete ht key = Some (ht', if ht_map ht key = None then 0 else 1) \<and> homed K ht' \<and>
    ht_map ht' = (ht_map ht)(key := None)"
proof -
  note h = homedD [OF assms(1)] and g = homed_good [OF assms(1)]
  have "at_home K (entries (bury ht s))" for s
    by (simp add: bury_def) (rule at_home_update [OF h(3)], simp)
  then have bury: "homed K (bury ht s)" if "ht_find ht key = Some (Some s)" for s
    using h(1) good_bury(1) [OF g ht_find_map(3,4) [OF g that]] by (simp add: homed_def good_def)
  obtain ht' r where del: "ht_delete ht key = Some (ht', r)" "wf_ht ht'" using ht_delete_spec [OF h(2), of key] by blast
  have "at_home K (entries ht')"
  proof (cases "ht_find ht key")
    case (Some p)
    then show ?thesis
    proof (cases p)
      case (Some s)
      with \<open>ht_find ht key = Some p\<close> have b: "homed K (bury ht s)" using bury by simp
      note hb = homedD [OF b]
      show ?thesis
      proof (cases "load_low (bury ht s)")
        case True
        then have "table_cap (capacity (bury ht s) div 2)"
          using table_cap_half [OF hb(4)] by (simp add: load_low_def HT_MIN_CAP_def)
        from resize_at_home [OF hb(1,6,3) this] True del(1) Some \<open>ht_find ht key = Some p\<close> show ?thesis
          by (auto simp: ht_delete_def Let_def split: option.splits)
      qed (use del(1) Some \<open>ht_find ht key = Some p\<close> hb(3) in \<open>auto simp: ht_delete_def Let_def\<close>)
    qed (use del(1) h(3) \<open>ht_find ht key = Some p\<close> in \<open>simp add: ht_delete_def\<close>)
  qed (use del(1) in \<open>simp add: ht_delete_def\<close>)
  then have home': "homed K ht'" using del(2) h(1) by (simp add: homed_def)
  then have "del_ok ht key" using del(1) homed_good by (auto simp: del_ok_def)
  from ht_delete_map [OF g this] del(1) home' show ?thesis by auto
qed

lemma homed_poke:
  assumes "homed K ht" "ht_find ht key = Some (Some s)"
  shows "homed K (set_entry_value ht s w)"
proof -
  note h = homedD [OF assms(1)] and at = ht_find_map(3,4) [OF homed_good [OF assms(1)] assms(2)]
  have "at_home K (entries (set_entry_value ht s w))"
    using at(2) at_homeD [OF h(3), of s] at(1) h(5) by (auto simp: set_entry_value_def intro!: at_home_update [OF h(3)])
  with set_entry_value_wf(1) [OF h(2) at] h(1) show ?thesis by (simp add: homed_def)
qed

lemma homed_empty: "spread K \<Longrightarrow> table_cap cap \<Longrightarrow> homed K (empty_table cap)"
  by (simp add: homed_def wf_empty_table) (simp add: at_home_def empty_table_def)

interpretation keyed: kv_table_ptr "homed K" ht_map ht_get ht_set ht_delete "\<lambda>ht key. key \<in> K" "\<lambda>ht key. key \<in> K"
  ht_find entry_value set_entry_value for K
proof unfold_locales
  fix ht :: "'a hashtable" and k p w
  assume h: "homed K ht"
  note g = homed_good [OF h]
  show "ht_get ht k = Some (ht_map ht k)" by (rule ht_get_map [OF g])
  show "(\<exists>p. ht_find ht k = Some (Some p) \<and> entry_value ht p = ht_map ht k \<and> ht_map ht k \<noteq> None) \<or>
      ht_find ht k = Some None \<and> ht_map ht k = None"
    by (rule tbl.find_lookup [OF g])
  show "homed K (set_entry_value ht p w) \<and> ht_map (set_entry_value ht p w) = (ht_map ht)(k \<mapsto> w)"
    if "ht_find ht k = Some (Some p)"
    using homed_poke [OF h that] tbl.poke_lookup [OF g that] by blast
qed (rule homed_set homed_delete; assumption)+

end
