(* ===== verification/Database_Spec.thy ===== *)
theory Database_Spec
  imports Database_Props HashTable_Homes
begin

text \<open>
  What the database promises, as operations on a map from keys to entries, and the proof that the
  operations of \<open>db.c\<close> implement it: for every history of operations, flushes and sweeps at increasing times,
  the answers are those of the map. The contract of the table is the locale \<open>db_keys\<close>; it is
  interpreted on tables whose keys have different home slots (\<open>HashTable_Homes\<close>).
\<close>

section \<open>The operations\<close>

datatype key_op =
    KSet string | KGet | KDel | KExists | KIncr int | KList list_op | KLlen | KLrange int int
  | KExpire int | KTtl | KPersist

datatype db_reply = RInt int | RObj "dbobj option" | RStr cstr | RItems "cstr list option" | RDone

datatype db_event = OnKey string key_op | Flush | Sweep

fun run_key :: "int \<Rightarrow> database \<Rightarrow> string \<Rightarrow> key_op \<Rightarrow> (database \<times> db_reply) res" where
  "run_key now db k (KSet v) = bindR (db_set db (Some k) (Some v)) (\<lambda>(db', n). Inr (db', RInt n))"
| "run_key now db k KGet = bindR (db_get (\<lambda>_. now) db (Some k)) (\<lambda>(db', x). Inr (db', RObj x))"
| "run_key now db k KDel = bindR (db_del (\<lambda>_. now) db (Some k)) (\<lambda>(db', n). Inr (db', RInt n))"
| "run_key now db k KExists = bindR (db_exists (\<lambda>_. now) db (Some k)) (\<lambda>(db', n). Inr (db', RInt n))"
| "run_key now db k (KIncr d) = bindR (db_incr (\<lambda>_. now) db (Some k) d) (\<lambda>(db', n). Inr (db', RInt n))"
| "run_key now db k (KList x) =
     bindR (db_list_op (\<lambda>_. now) db k x) (\<lambda>(db', y). Inr (db', case y of Inl n \<Rightarrow> RInt n | Inr s \<Rightarrow> RStr s))"
| "run_key now db k KLlen = bindR (db_llen (\<lambda>_. now) db (Some k)) (\<lambda>(db', n). Inr (db', RInt n))"
| "run_key now db k (KLrange a b) = bindR (db_lrange (\<lambda>_. now) db (Some k) a b) (\<lambda>(db', vs). Inr (db', RItems vs))"
| "run_key now db k (KExpire s) = bindR (db_expire (\<lambda>_. now) db (Some k) s) (\<lambda>(db', n). Inr (db', RInt n))"
| "run_key now db k KTtl = bindR (db_ttl (\<lambda>_. now) db (Some k)) (\<lambda>(db', n). Inr (db', RInt n))"
| "run_key now db k KPersist = bindR (db_persist (\<lambda>_. now) db (Some k)) (\<lambda>(db', n). Inr (db', RInt n))"

fun run_event :: "int \<Rightarrow> database \<Rightarrow> db_event \<Rightarrow> (database \<times> db_reply) res" where
  "run_event now db (OnKey k x) = run_key now db k x"
| "run_event now db Flush = bindR (db_flush db) (\<lambda>db'. Inr (db', RDone))"
| "run_event now db Sweep = bindR (db_expire_sweep (\<lambda>_. now) db) (\<lambda>db'. Inr (db', RDone))"

fun run_events :: "database \<Rightarrow> (int \<times> db_event) list \<Rightarrow> (database \<times> db_reply list) res" where
  "run_events db [] = Inr (db, [])"
| "run_events db ((now, ev) # evs) =
     bindR (run_event now db ev) (\<lambda>(db1, r). bindR (run_events db1 evs) (\<lambda>(db2, rs). Inr (db2, r # rs)))"

section \<open>The specification\<close>

text \<open>What is seen of an entry at a time.\<close>

definition shown :: "int \<Rightarrow> db_entry option \<Rightarrow> db_entry option" where
  "shown now x = (case x of None \<Rightarrow> None | Some e \<Rightarrow> if live now e then Some e else None)"

text \<open>The operations on the entry of their key; \<open>None\<close> is a signed overflow.\<close>

definition list_spec :: "cstr list \<Rightarrow> int \<Rightarrow> list_op \<Rightarrow> db_entry option \<times> db_reply" where
  "list_spec vs at x =
     (let vs' = fst (vlist_step vs x) in
      (if vs' = [] then None else Some \<lparr>obj = OBJ_LIST vs', expire = at\<rparr>,
       case list_reply vs x of Inl n \<Rightarrow> RInt n | Inr s \<Rightarrow> RStr s))"

definition list_mismatch :: "list_op \<Rightarrow> db_reply" where
  "list_mismatch x = (case x of LPop \<Rightarrow> RStr None | RPop \<Rightarrow> RStr None | _ \<Rightarrow> RInt (- 1))"

fun absent_spec :: "key_op \<Rightarrow> db_entry option \<times> db_reply" where
  "absent_spec (KSet v) = (Some \<lparr>obj = obj_of_value (Some v), expire = -1\<rparr>, RInt 1)"
| "absent_spec KGet = (None, RObj None)"
| "absent_spec KDel = (None, RInt 0)"
| "absent_spec KExists = (None, RInt 0)"
| "absent_spec (KIncr d) = (Some \<lparr>obj = OBJ_INT d, expire = -1\<rparr>, RInt d)"
| "absent_spec (KList x) = list_spec [] (-1) x"
| "absent_spec KLlen = (None, RInt 0)"
| "absent_spec (KLrange a b) = (None, RItems None)"
| "absent_spec (KExpire s) = (None, RInt 0)"
| "absent_spec KTtl = (None, RInt (-2))"
| "absent_spec KPersist = (None, RInt 0)"

fun present_spec :: "int \<Rightarrow> key_op \<Rightarrow> db_entry \<Rightarrow> (db_entry option \<times> db_reply) option" where
  "present_spec now (KSet v) e = Some (Some \<lparr>obj = obj_of_value (Some v), expire = -1\<rparr>, RInt 1)"
| "present_spec now KGet e = Some (Some e, RObj (Some (obj e)))"
| "present_spec now KDel e = Some (None, RInt 1)"
| "present_spec now KExists e = Some (Some e, RInt 1)"
| "present_spec now (KIncr d) e =
     (case obj_number (obj e) of
        None \<Rightarrow> Some (Some e, RInt INT64_MIN)
      | Some n \<Rightarrow> if in_int64 (n + d) then Some (Some (e\<lparr>obj := OBJ_INT (n + d)\<rparr>), RInt (n + d)) else None)"
| "present_spec now (KList x) e =
     Some (case obj e of OBJ_LIST vs \<Rightarrow> list_spec vs (expire e) x | _ \<Rightarrow> (Some e, list_mismatch x))"
| "present_spec now KLlen e = Some (Some e, RInt (case obj e of OBJ_LIST vs \<Rightarrow> int (length vs) | _ \<Rightarrow> -1))"
| "present_spec now (KLrange a b) e =
     Some (Some e, RItems (case obj e of OBJ_LIST vs \<Rightarrow> vlist_range vs a b | _ \<Rightarrow> None))"
| "present_spec now (KExpire s) e =
     (if in_int64 (s * 1000) \<and> in_int64 (now + s * 1000) then Some (Some (e\<lparr>expire := now + s * 1000\<rparr>), RInt 1) else None)"
| "present_spec now KTtl e =
     (if expire e < 0 then Some (Some e, RInt (-1))
      else if in_int64 (expire e - now) then Some (Some e, RInt ((expire e - now) div 1000)) else None)"
| "present_spec now KPersist e =
     Some (if expire e < 0 then (Some e, RInt 0) else (Some (e\<lparr>expire := -1\<rparr>), RInt 1))"

definition key_spec :: "int \<Rightarrow> key_op \<Rightarrow> db_entry option \<Rightarrow> (db_entry option \<times> db_reply) option" where
  "key_spec now x p = (case p of None \<Rightarrow> Some (absent_spec x) | Some e \<Rightarrow> present_spec now x e)"

type_synonym store = "string \<Rightarrow> db_entry option"

fun spec_event :: "int \<Rightarrow> store \<Rightarrow> db_event \<Rightarrow> (store \<times> db_reply) option" where
  "spec_event now m (OnKey k x) = map_option (\<lambda>(e, r). (m(k := e), r)) (key_spec now x (shown now (m k)))"
| "spec_event now m Flush = Some (Map.empty, RDone)"
| "spec_event now m Sweep = Some (m, RDone)"

fun spec_events :: "store \<Rightarrow> (int \<times> db_event) list \<Rightarrow> (store \<times> db_reply list) option" where
  "spec_events m [] = Some (m, [])"
| "spec_events m ((now, ev) # evs) =
     Option.bind (spec_event now m ev) (\<lambda>(m1, r). map_option (\<lambda>(m2, rs). (m2, r # rs)) (spec_events m1 evs))"

lemma visible_shown: "db_visible now db key = shown now (db_view db key)"
  by (simp add: db_visible_def shown_def)

lemma shown_later: "t \<le> t' \<Longrightarrow> shown t x = shown t y \<Longrightarrow> shown t' x = shown t' y"
  by (cases x; cases y) (auto simp: shown_def live_def split: if_splits)

lemma shown_shown [simp]: "shown t (shown t x) = shown t x"
  by (auto simp: shown_def split: option.splits)

lemma step_keeps_sweep_time:
  "ht_put db k e = Inr db' \<Longrightarrow> last_expire_sweep db' = last_expire_sweep db"
  "ht_remove db k = Inr (db', n) \<Longrightarrow> last_expire_sweep db' = last_expire_sweep db"
  by (auto simp: ht_put_def ht_remove_def)

lemma check_keeps_sweep_time: "check_expired clk db k = Inr (db', gone) \<Longrightarrow> last_expire_sweep db' = last_expire_sweep db"
  by (auto simp: check_expired_def imdb_mstime_def Let_def dest!: step_keeps_sweep_time split: option.splits if_splits)

lemma run_keeps_sweep_time:
  assumes "run_key t db k x = Inr (db', r)"
  shows "last_expire_sweep db' = last_expire_sweep db"
proof -
  note keeps = step_keeps_sweep_time check_keeps_sweep_time
  note get = db_get_entry_def imdb_mstime_def Let_def
  show ?thesis
  proof (cases x)
    case (KSet v)
    with assms show ?thesis by (auto simp: db_set_def dest: keeps)
  next
    case KGet
    with assms show ?thesis by (auto simp: db_get_def get dest!: keeps split: option.splits if_splits)
  next
    case KDel
    with assms show ?thesis by (auto simp: db_del_def dest!: keeps)
  next
    case KExists
    with assms show ?thesis by (auto simp: db_exists_def dest!: keeps split: if_splits)
  next
    case (KIncr d)
    with assms show ?thesis by (auto simp: db_incr_def dest!: keeps split: option.splits if_splits dbobj.splits)
  next
    case (KList y)
    with assms show ?thesis
      by (cases y) (auto simp: db_lpush_def db_rpush_def db_lpop_def db_rpop_def db_pop_def get_or_create_list_def
        save_entry_def Let_def dest!: keeps split: option.splits if_splits dbobj.splits prod.splits)
  next
    case KLlen
    with assms show ?thesis by (auto simp: db_llen_def dest!: keeps split: option.splits if_splits dbobj.splits)
  next
    case KLrange
    with assms show ?thesis by (auto simp: db_lrange_def dest!: keeps split: option.splits if_splits dbobj.splits)
  next
    case KExpire
    with assms show ?thesis by (auto simp: db_expire_def get dest!: keeps split: option.splits if_splits)
  next
    case KTtl
    with assms show ?thesis by (auto simp: db_ttl_def get dest!: keeps split: option.splits if_splits)
  next
    case KPersist
    with assms show ?thesis by (auto simp: db_persist_def get dest!: keeps split: option.splits if_splits)
  qed
qed

section \<open>The database implements it\<close>

text \<open>A table that is a map on the keys of \<open>K\<close> without conditions, and holds no others.\<close>

locale db_keys = db_table inv "\<lambda>ht key. key \<in> K" "\<lambda>ht key. key \<in> K" for inv K +
  assumes inv_empty: "inv ht \<Longrightarrow> inv (empty_table 64)"
    and inv_entry: "inv ht \<Longrightarrow> s < capacity ht \<Longrightarrow> entries ht ! s = HtOccupied k h e \<Longrightarrow> k \<in> K \<and> ht_map ht k = Some e"
begin

lemma safe: "key \<in> K \<Longrightarrow> check_safe (\<lambda>ht key. key \<in> K) t db key"
  by (simp add: check_safe_def)

lemma now [simp]: "db_now (\<lambda>_. t) db = t"
  by (simp add: db_now_def)

lemmas key_cases = lookup_cases [where clk = "\<lambda>_. t" and key = key for t key, unfolded now, OF _ safe]

lemma put:
  assumes "inv (db_ht db)" "key \<in> K"
  obtains db' where "ht_put db key e = Inr db'" "inv (db_ht db')" "db_view db' = (db_view db)(key \<mapsto> e)"
  using put_view [OF assms] by blast

lemma remove:
  assumes "inv (db_ht db)" "key \<in> K"
  obtains db' where "ht_remove db key = Inr (db', if db_view db key = None then 0 else 1)" "inv (db_ht db')"
    "db_view db' = (db_view db)(key := None)"
  using remove_view [OF assms] by blast

lemma set_entry:
  assumes "inv (db_ht db)" "ht_find (db_ht db) key = Some (Some idx)" "db_view db = m"
  shows "inv (db_ht (write_entry db idx e))" "db_view (write_entry db idx e) = m(key \<mapsto> e)"
  using write_view [OF assms(1,2), of e] assms(3) by simp_all

text \<open>An operation does what the specification says, on the entry of its key.\<close>

definition refines :: "int \<Rightarrow> database \<Rightarrow> string \<Rightarrow> key_op \<Rightarrow> bool" where
  "refines t db key x \<longleftrightarrow> (\<forall>e r. key_spec t x (db_visible t db key) = Some (e, r) \<longrightarrow>
     (\<exists>db'. run_key t db key x = Inr (db', r) \<and> inv (db_ht db') \<and> db_view db' = (db_view db)(key := e)))"

lemma refines_set:
  assumes "inv (db_ht db)" "key \<in> K"
  shows "refines t db key (KSet v)"
proof -
  obtain db' where "ht_put db key \<lparr>obj = obj_of_value (Some v), expire = -1\<rparr> = Inr db'" "inv (db_ht db')"
      "db_view db' = (db_view db)(key \<mapsto> \<lparr>obj = obj_of_value (Some v), expire = -1\<rparr>)"
    using assms by (rule put)
  then show ?thesis by (auto simp: refines_def key_spec_def db_set_def split: option.splits)
qed

lemma exists_view:
  "inv (db_ht db) \<Longrightarrow> ht_exists (db_ht db) key = Some (if db_view db key = None then 0 else 1)"
  using find_lookup [of "db_ht db" key] by (auto simp: ht_exists_def db_view_def)

lemma refines_read:
  assumes "inv (db_ht db)" "key \<in> K" "x \<in> {KGet, KExists, KLlen, KLrange a b}"
  shows "refines t db key x"
proof -
  note run = refines_def key_spec_def db_get_def db_exists_def db_llen_def db_lrange_def db_get_entry_def exists_view fun_upd_idem
  show ?thesis
  proof (cases rule: key_cases [OF assms(1,2), of t])
    case 1
    show ?thesis using assms(3) by (elim insertE emptyE) (simp_all add: run 1 assms(1))
  next
    case 2
    show ?thesis using assms(3) by (elim insertE emptyE) (simp_all add: run 2 assms(1))
  next
    case (3 db1 idx e)
    show ?thesis using assms(3) by (elim insertE emptyE) (simp_all add: run 3 assms(1) split: dbobj.split)
  qed
qed

lemma refines_ttl:
  assumes "inv (db_ht db)" "key \<in> K"
  shows "refines t db key KTtl"
proof -
  note run = refines_def key_spec_def db_ttl_def db_get_entry_def imdb_mstime_def int64_def fun_upd_idem
  show ?thesis
  proof (cases rule: key_cases [OF assms, of t])
    case (3 db1 idx e)
    then have db1: "inv (db_ht db1)" "db_view (db1\<lparr>db_ticks := Suc (db_ticks db1)\<rparr>) = db_view db" by simp_all
    show ?thesis
    proof (cases "expire e < 0")
      case False
      then have "0 \<le> (expire e - t) div 1000" "c_div (expire e - t) 1000 = (expire e - t) div 1000"
        using 3(9) by (simp_all add: live_def pos_imp_zdiv_nonneg_iff)
      then show ?thesis using db1 False by (simp add: run 3 Let_def)
    qed (simp add: run 3 assms(1))
  qed (simp_all add: run fun_upd_idem)
qed

lemma refines_time:
  assumes "inv (db_ht db)" "key \<in> K" "x \<in> {KExpire s, KPersist}"
  shows "refines t db key x"
proof (cases rule: key_cases [OF assms(1,2), of t])
  case (3 db1 idx e)
  let ?db2 = "db1\<lparr>db_ticks := Suc (db_ticks db1)\<rparr>"
  have "inv (db_ht ?db2)" "ht_find (db_ht ?db2) key = Some (Some idx)" "db_view ?db2 = db_view db"
    using 3 by (simp_all add: db_view_def)
  note w = set_entry [OF this] and w1 = set_entry [OF 3(4,10,6)]
  show ?thesis using assms(3) 3 w w1
    by (auto simp: refines_def key_spec_def db_expire_def db_persist_def db_get_entry_def imdb_mstime_def int64_def fun_upd_idem
      split: if_splits)
qed (use assms(3) in \<open>auto simp: refines_def key_spec_def db_expire_def db_persist_def db_get_entry_def fun_upd_idem\<close>)

lemma refines_del:
  assumes "inv (db_ht db)" "key \<in> K"
  shows "refines t db key KDel"
proof -
  have run: "refines t db key KDel"
    if "check_expired (\<lambda>_. t) db key = Inr (db1, gone)" "inv (db_ht db1)" "db_view db1 key = db_visible t db key"
      "(db_view db1)(key := None) = (db_view db)(key := None)" for db1 gone
  proof -
    note checked = that
    obtain db' where "ht_remove db1 key = Inr (db', if db_view db1 key = None then 0 else 1)" "inv (db_ht db')"
        "db_view db' = (db_view db1)(key := None)" using checked(2) assms(2) by (rule remove)
    then show ?thesis by (simp add: refines_def key_spec_def db_del_def checked split: option.split)
  qed
  show ?thesis
  proof (cases rule: key_cases [OF assms, of t])
    case 1
    show ?thesis by (rule run [OF 1(1)]) (simp_all add: 1)
  next
    case 2
    show ?thesis by (rule run [OF 2(1)]) (simp_all add: 2 assms(1))
  next
    case 3
    show ?thesis by (rule run [OF 3(1)]) (simp_all add: 3 assms(1))
  qed
qed

lemma refines_incr:
  assumes "inv (db_ht db)" "key \<in> K"
  shows "refines t db key (KIncr d)"
proof -
  let ?new = "\<lparr>obj = OBJ_INT d, expire = -1\<rparr>"
  show ?thesis
  proof (cases rule: key_cases [OF assms, of t])
    case (1 db1)
    obtain db' where "ht_put db1 key ?new = Inr db'" "inv (db_ht db')" "db_view db' = (db_view db1)(key \<mapsto> ?new)"
      using 1(2) assms(2) by (rule put)
    with 1 show ?thesis by (auto simp: refines_def key_spec_def db_incr_def obj_create_int_def)
  next
    case (2 db1)
    obtain db' where "ht_put db1 key ?new = Inr db'" "inv (db_ht db')" "db_view db' = (db_view db1)(key \<mapsto> ?new)"
      using 2(3) assms(2) by (rule put)
    with 2 show ?thesis by (auto simp: refines_def key_spec_def db_incr_def obj_create_int_def)
  next
    case (3 db1 idx e)
    with set_entry [OF 3(4,10,6)] show ?thesis
      by (cases "obj e") (auto simp: refines_def key_spec_def db_incr_def obj_create_int_def obj_number_def int64_def
        fun_upd_idem split: option.splits if_splits)
  qed
qed

lemma absent_entry:
  assumes "inv (db_ht db)" "key \<in> K" "db_visible t db key = None"
  obtains db1 gone where "check_expired (\<lambda>_. t) db key = Inr (db1, gone)" "inv (db_ht db1)" "entry_ptr db1 key = Inr None"
    "db_view db1 = (db_view db)(key := None)"
proof (cases rule: key_cases [OF assms(1,2), of t])
  case (1 db1)
  then have "entry_ptr db1 key = Inr None" using ptr_view [OF 1(2), of key] by auto
  with 1 that show thesis by blast
next
  case (2 db1)
  show thesis by (rule that [OF 2(1,3,2)]) (simp add: 2 fun_upd_idem)
next
  case 3
  then show thesis using assms(3) by simp
qed

lemma refines_list:
  assumes "inv (db_ht db)" "key \<in> K"
  shows "refines t db key (KList x)"
proof (cases "db_visible t db key")
  case None
  with assms obtain db1 gone where db1: "check_expired (\<lambda>_. t) db key = Inr (db1, gone)" "inv (db_ht db1)"
    "entry_ptr db1 key = Inr None" "db_view db1 = (db_view db)(key := None)" by (rule absent_entry)
  note run = refines_def key_spec_def None db_lpush_def db_rpush_def db_lpop_def db_rpop_def db_pop_def get_or_create_list_def
    save_entry_def list_spec_def list_reply_def obj_create_list_def Let_def db1
  obtain db' where "ht_put db1 key \<lparr>obj = OBJ_LIST (fst (vlist_step [] x)), expire = -1\<rparr> = Inr db'" "inv (db_ht db')"
      "db_view db' = (db_view db1)(key \<mapsto> \<lparr>obj = OBJ_LIST (fst (vlist_step [] x)), expire = -1\<rparr>)"
    using db1(2) assms(2) by (rule put)
  then show ?thesis by (cases x) (simp_all add: run)
next
  case (Some e)
  obtain db1 idx where f: "check_expired (\<lambda>_. t) db key = Inr (db1, False)" "entry_ptr db1 key = Inr (Some idx)"
      "entry_at db1 idx = Inr e" "inv (db_ht db1)" "ht_find (db_ht db1) key = Some (Some idx)" "db_view db1 = db_view db"
      "db_view db key = Some e"
  proof (cases rule: key_cases [OF assms, of t])
    case (3 db1 idx e')
    then have "e' = e" using Some by simp
    with 3 show thesis using that by blast
  qed (use Some in simp_all)
  note w = set_entry [OF f(4,5,6)]
  note run = refines_def key_spec_def Some db_lpush_def db_rpush_def db_lpop_def db_rpop_def db_pop_def get_or_create_list_def
    save_entry_def list_spec_def list_reply_def Let_def f list_mismatch_def fun_upd_idem
  show ?thesis
  proof (cases "obj e")
    case (OBJ_LIST vs)
    let ?db2 = "write_entry db1 idx (e\<lparr>obj := OBJ_LIST []\<rparr>)"
    obtain db3 where db3: "ht_remove ?db2 key = Inr (db3, 1)" "inv (db_ht db3)" "db_view db3 = (db_view db)(key := None)"
      using remove [OF w(1) assms(2)] w(2) by auto
    have e: "e\<lparr>obj := v\<rparr> = \<lparr>obj = v, expire = expire e\<rparr>" for v by (cases e) simp
    have pop: "refines t db key (KList x)" if x: "x = LPop \<or> x = RPop"
    proof -
      obtain vs' r where step: "vlist_step vs x = (vs', r)" by (cases "vlist_step vs x")
      have "list_reply vs x = Inr (case r of None \<Rightarrow> None | Some v \<Rightarrow> v)"
        using x step by (cases vs) (auto simp: list_reply_def)
      then have reply: "(case list_reply vs x of Inl n \<Rightarrow> RInt n | Inr s \<Rightarrow> RStr s) = RStr (case r of None \<Rightarrow> None | Some v \<Rightarrow> v)" by simp
      have "\<exists>db'. db_pop x (\<lambda>_. t) db (Some key) = Inr (db', case r of None \<Rightarrow> None | Some v \<Rightarrow> v) \<and> inv (db_ht db') \<and>
          db_view db' = (db_view db)(key := if vs' = [] then None else Some \<lparr>obj = OBJ_LIST vs', expire = expire e\<rparr>)"
        using w db3 step by (cases "vs' = []") (simp_all add: db_pop_def f OBJ_LIST Let_def e)
      then show ?thesis using x step reply
        by (auto simp: refines_def key_spec_def Some OBJ_LIST list_spec_def db_lpop_def db_rpop_def)
    qed
    show ?thesis
      using pop w OBJ_LIST by (cases x) (simp_all add: run e)
  qed (cases x; simp add: run)+
qed

lemma key_refines:
  assumes "inv (db_ht db)" "key \<in> K"
  shows "refines t db key x"
proof (cases x)
  case (KList y)
  with refines_list [OF assms] show ?thesis by simp
qed (use refines_set [OF assms] refines_read [OF assms] refines_ttl [OF assms] refines_time [OF assms] refines_del [OF assms]
  refines_incr [OF assms] in simp_all)

text \<open>The state of the table and the map at time \<open>t\<close>: they show the same entries from now on.\<close>

definition in_step :: "int \<Rightarrow> database \<Rightarrow> store \<Rightarrow> bool" where
  "in_step t db m \<longleftrightarrow> inv (db_ht db) \<and> 0 \<le> last_expire_sweep db \<and> last_expire_sweep db \<le> t \<and>
     (\<forall>k. shown t (db_view db k) = shown t (m k))"

lemma in_step_later: "in_step t db m \<Longrightarrow> t \<le> t' \<Longrightarrow> in_step t' db m"
  by (auto simp: in_step_def intro: shown_later)

lemma key_in_step:
  assumes "in_step t db m" "key \<in> K" "key_spec t x (shown t (m key)) = Some (e, r)"
  shows "\<exists>db'. run_key t db key x = Inr (db', r) \<and> in_step t db' (m(key := e))"
proof -
  have "inv (db_ht db)" using assms(1) by (simp add: in_step_def)
  with key_refines [of db key t x] assms obtain db' where db': "run_key t db key x = Inr (db', r)" "inv (db_ht db')"
      "db_view db' = (db_view db)(key := e)"
    by (auto simp: refines_def visible_shown in_step_def)
  then show ?thesis using assms(1) run_keeps_sweep_time [OF db'(1)] by (auto simp: in_step_def)
qed

lemma sweep_in_step:
  assumes "inv (db_ht db)"
  shows "\<exists>db'. sweep_loop n t db i = Inr db' \<and> inv (db_ht db') \<and> last_expire_sweep db' = last_expire_sweep db \<and>
    (\<forall>k. shown t (db_view db' k) = shown t (db_view db k))"
  using assms
proof (induction n arbitrary: db i)
  case 0
  then show ?case by simp
next
  case (Suc n)
  obtain i' p where iter: "ht_iter_next (db_ht db) i = (i', p)" by (cases "ht_iter_next (db_ht db) i")
  show ?case
  proof (cases p)
    case None
    with iter Suc.prems show ?thesis by simp
  next
    case (Some s)
    with iter obtain k h e where e: "s < capacity (db_ht db)" "entries (db_ht db) ! s = HtOccupied k h e"
      by (auto elim: ht_iter_next_Some)
    note k = inv_entry [OF Suc.prems e]
    show ?thesis
    proof (cases "live t e")
      case True
      with Suc.IH [OF Suc.prems, of i'] iter Some e show ?thesis by (auto simp: live_def)
    next
      case False
      obtain db1 where db1: "ht_remove db k = Inr (db1, if db_view db k = None then 0 else 1)" "inv (db_ht db1)"
          "db_view db1 = (db_view db)(k := None)" using Suc.prems k by (blast intro: remove)
      have "shown t (db_view db1 k') = shown t (db_view db k')" for k'
        using False k db1(3) by (simp add: shown_def db_view_def)
      with Suc.IH [OF db1(2), of 0] iter Some e False db1(1) step_keeps_sweep_time(2) [OF db1(1)] show ?thesis
        by (auto simp: live_def)
    qed
  qed
qed

lemma flush_in_step:
  assumes "in_step t db m"
  shows "\<exists>db'. db_flush db = Inr db' \<and> in_step t db' Map.empty"
proof -
  have "db_view (db\<lparr>db_ht := empty_table 64\<rparr>) = Map.empty" by (simp add: db_view_def ht_map_empty_table)
  then show ?thesis using assms inv_empty by (auto simp: db_flush_def ht_create_64 in_step_def shown_def)
qed

lemma event_in_step:
  assumes s: "in_step t db m" and t: "t \<le> INT64_MAX" and k: "\<And>k x. ev = OnKey k x \<Longrightarrow> k \<in> K"
    and spec: "spec_event t m ev = Some (m', r)"
  shows "\<exists>db'. run_event t db ev = Inr (db', r) \<and> in_step t db' m'"
proof (cases ev)
  case (OnKey key x)
  with spec obtain e where "key_spec t x (shown t (m key)) = Some (e, r)" "m' = m(key := e)" by auto
  with key_in_step [OF s k [OF OnKey]] OnKey show ?thesis by auto
next
  case Flush
  with spec flush_in_step [OF s] show ?thesis by auto
next
  case Sweep
  let ?db2 = "db\<lparr>db_ticks := Suc (db_ticks db), last_expire_sweep := t\<rparr>"
  have "in_int64 (t - last_expire_sweep db)" using s t by (simp add: in_step_def in_int64_def INT64_MIN_def INT64_MAX_def)
  then have run: "db_expire_sweep (\<lambda>_. t) db =
      (if t - last_expire_sweep db < 100 then Inr (db\<lparr>db_ticks := Suc (db_ticks db)\<rparr>)
       else if ht_size (db_ht db) = 0 then Inr ?db2 else sweep_loop 20 t ?db2 0)"
    by (simp add: db_expire_sweep_def imdb_mstime_def Let_def int64_def EXPIRE_SWEEP_INTERVAL_def EXPIRE_SWEEP_SAMPLES_def)
  have "in_step t (db\<lparr>db_ticks := Suc (db_ticks db)\<rparr>) m" "in_step t ?db2 m" using s by (simp_all add: in_step_def)
  moreover obtain db' where "sweep_loop 20 t ?db2 0 = Inr db'" "in_step t db' m"
    using sweep_in_step [of ?db2 20 t 0] s by (auto simp: in_step_def)
  ultimately show ?thesis using spec Sweep run by simp
qed

lemma events_in_step:
  assumes "in_step t0 db m" "sorted (t0 # map fst evs)" "\<forall>(t, ev) \<in> set evs. t \<le> INT64_MAX \<and> (\<forall>k x. ev = OnKey k x \<longrightarrow> k \<in> K)"
    and "spec_events m evs = Some (m', rs)"
  shows "\<exists>db'. run_events db evs = Inr (db', rs) \<and> in_step (last (t0 # map fst evs)) db' m'"
  using assms
proof (induction evs arbitrary: t0 db m rs)
  case Nil
  then show ?case by simp
next
  case (Cons a evs)
  obtain t ev where a: "a = (t, ev)" by (cases a)
  from Cons.prems(4) obtain m1 r rs1 where spec: "spec_event t m ev = Some (m1, r)" "spec_events m1 evs = Some (m', rs1)" "rs = r # rs1"
    by (auto simp: a split: bind_splits)
  have "in_step t db m" by (rule in_step_later [OF Cons.prems(1)]) (use Cons.prems(2) in \<open>simp add: a\<close>)
  then obtain db1 where db1: "run_event t db ev = Inr (db1, r)" "in_step t db1 m1"
    using event_in_step [of t db m ev m1 r] Cons.prems(3) spec(1) a by fastforce
  obtain db' where "run_events db1 evs = Inr (db', rs1)" "in_step (last (t # map fst evs)) db' m'"
    using Cons.IH [OF db1(2) _ _ spec(2)] Cons.prems(2,3) a by auto
  then show ?case using db1(1) spec(3) by (auto simp: a)
qed

end

interpretation keyed_db: db_keys "homed K" K for K
proof
  show "homed K (empty_table 64 :: db_entry hashtable)" if "homed K ht" for ht :: "db_entry hashtable"
    using homed_empty [of K 64] that by (simp add: homed_def)
  show "k \<in> K \<and> ht_map ht k = Some e"
    if "homed K ht" "s < capacity ht" "entries ht ! s = HtOccupied k h e" for ht :: "db_entry hashtable" and s k h e
    using homedD(3,5) [OF that(1)] that(2,3) at_homeD [of K "entries ht" s k h e] ht_map_Some [OF at_home_once [of K "entries ht"], of k e]
    by auto
qed

section \<open>Properties\<close>

text \<open>C3: for every history of operations on keys, flushes and sweeps at increasing times, a database that was created
  empty answers exactly as the map from keys to entries does, and from then on shows the same entries, if
  the hashes of the keys differ modulo 64 and the map computes without a signed overflow.\<close>

theorem database_refines_store:
  assumes "spread K" "\<forall>(t, ev) \<in> set evs. t \<le> INT64_MAX \<and> (\<forall>k x. ev = OnKey k x \<longrightarrow> k \<in> K)"
    and "0 \<le> t0" "sorted (t0 # map fst evs)" "spec_events Map.empty evs = Some (m, rs)"
  shows "\<exists>db0 db. db_create (\<lambda>_. t0) = Inr db0 \<and> run_events db0 evs = Inr (db, rs) \<and>
    (\<forall>t k. last (t0 # map fst evs) \<le> t \<longrightarrow> db_visible t db k = shown t (m k))"
proof -
  let ?db0 = "\<lparr>db_ht = empty_table 64, last_expire_sweep = t0, db_ticks = 1\<rparr>"
  have "keyed_db.in_step K t0 ?db0 Map.empty"
    using assms(1,3) by (simp add: keyed_db.in_step_def homed_empty db_view_def ht_map_empty_table)
  from keyed_db.events_in_step [OF this assms(4,2,5)] obtain db where db: "run_events ?db0 evs = Inr (db, rs)"
      "keyed_db.in_step K (last (t0 # map fst evs)) db m" by blast
  have "db_visible t db k = shown t (m k)" if "last (t0 # map fst evs) \<le> t" for t k
    using keyed_db.in_step_later [OF db(2) that] by (simp add: keyed_db.in_step_def visible_shown)
  with db(1) show ?thesis by (simp add: db_create_def ht_create_64)
qed

theorem database_refines_store_witness:
  "\<exists>db0 db. db_create (\<lambda>_. 0) = Inr db0 \<and>
    run_events db0 [(10, OnKey ''a'' (KSet ''5'')), (20, OnKey ''a'' (KIncr 1)), (20, OnKey ''b'' (KList (RPush (Some ''x'')))),
       (40, OnKey ''a'' (KExpire 1)), (1000, OnKey ''a'' KGet), (2000, Sweep), (2000, OnKey ''a'' KGet), (2010, OnKey ''b'' (KList LPop))] =
      Inr (db, [RInt 1, RInt 6, RInt 1, RInt 1, RObj (Some (OBJ_INT 6)), RDone, RObj None, RStr (Some ''x'')])"
  (is "\<exists>db0 db. _ \<and> run_events db0 ?evs = Inr (db, ?rs)")
proof -
  have "home 64 ''a'' \<noteq> home 64 ''b''" by (simp add: home_def ht_hash_def)
  then have K: "spread {''a'', ''b''}" by (simp add: spread_def)
  have "obj_of_value (Some ''5'') = OBJ_INT 5"
    by (simp add: obj_of_value_def obj_create_int_def obj_try_parse_int_def strtoll_def split_sign_def c_isspace_def
        c_isdigit_def digits_val_def digit_val_def INT64_MIN_def INT64_MAX_def Let_def)
  then have "map_option snd (spec_events Map.empty ?evs) = Some ?rs"
    by (simp add: key_spec_def shown_def live_def to_int32_def obj_number_def in_int64_def INT64_MIN_def INT64_MAX_def list_spec_def
        list_reply_def Let_def)
  then obtain m where "spec_events Map.empty ?evs = Some (m, ?rs)" by auto
  with K show ?thesis using database_refines_store [of "{''a'', ''b''}" ?evs 0 m ?rs] by (auto simp: INT64_MAX_def)
qed

end
