(* ===== verification/Command_Spec.thy ===== *)
theory Command_Spec
  imports Database_Spec Command_Props
begin

text \<open>
  What the commands promise: each command on data, as an operation on the abstract store of \<open>Database_Spec\<close>
  with the value it replies, and the proof that \<open>command_execute\<close> implements it. A command is the list of
  its words. SAVE, SHUTDOWN, INFO and DBSIZE, which look at the disk, the server or expired entries, have no
  specification here; neither has a command that would overflow a 64-bit integer.
\<close>

section \<open>The specification\<close>

type_synonym command_sem = "int \<Rightarrow> store \<Rightarrow> string list \<Rightarrow> (store \<times> resp_value) option"

definition key_step :: "int \<Rightarrow> string \<Rightarrow> key_op \<Rightarrow> store \<Rightarrow> (store \<times> db_reply) option" where
  "key_step now k x m = spec_event now m (OnKey k x)"

definition same_word :: "string \<Rightarrow> string \<Rightarrow> bool" where
  "same_word s t \<longleftrightarrow> map c_tolower s = map c_tolower t"

definition too_few :: "string \<Rightarrow> store \<Rightarrow> (store \<times> resp_value) option" where
  "too_few name m = Some (m, RESP_ERROR (wrong_args name))"

text \<open>The reply for a value; a null string has none.\<close>

fun value_reply :: "resp_value \<Rightarrow> dbobj option \<Rightarrow> resp_value option" where
  "value_reply other None = Some RESP_NIL"
| "value_reply other (Some (OBJ_STRING s)) = map_option RESP_BULK_STRING s"
| "value_reply other (Some (OBJ_INT n)) = Some (RESP_BULK_STRING (dec_int n))"
| "value_reply other (Some (OBJ_LIST vs)) = Some other"

fun int_reply :: "db_reply \<Rightarrow> resp_value option" where
  "int_reply (RInt n) = Some (RESP_INTEGER n)"
| "int_reply _ = None"

text \<open>A command that is one operation on the key in its second word.\<close>

definition one_key :: "string \<Rightarrow> nat \<Rightarrow> (string list \<Rightarrow> key_op) \<Rightarrow> (db_reply \<Rightarrow> resp_value option) \<Rightarrow> command_sem" where
  "one_key name n x reply now m ws =
     (if length ws < n then too_few name m
      else Option.bind (key_step now (ws ! 1) (x ws) m) (\<lambda>(m1, r). map_option (Pair m1) (reply r)))"

definition sem_ping :: command_sem where
  "sem_ping now m ws = Some (m, if length ws > 1 then RESP_BULK_STRING (ws ! 1) else RESP_SIMPLE_STRING ''PONG'')"

fun sem_options :: "int \<Rightarrow> string \<Rightarrow> string list \<Rightarrow> store \<Rightarrow> store option" where
  "sem_options now k (opt # val # rest) m =
     (if same_word opt ''EX'' \<and> strtoll_val val > 0
      then Option.bind (key_step now k (KExpire (strtoll_val val)) m) (\<lambda>(m1, r). sem_options now k rest m1)
      else sem_options now k rest m)"
| "sem_options now k _ m = Some m"

definition sem_set :: command_sem where
  "sem_set now m ws =
     (if length ws < 3 then too_few ''SET'' m
      else Option.bind (key_step now (ws ! 1) (KSet (ws ! 2)) m) (\<lambda>(m1, r).
           map_option (\<lambda>m2. (m2, RESP_SIMPLE_STRING ''OK'')) (sem_options now (ws ! 1) (drop 3 ws) m1)))"

definition sem_get :: command_sem where
  "sem_get = one_key ''GET'' 2 (\<lambda>ws. KGet) (\<lambda>r. case r of RObj p \<Rightarrow> value_reply (RESP_ERROR wrong_type) p | _ \<Rightarrow> None)"

fun del_all :: "int \<Rightarrow> string list \<Rightarrow> int \<Rightarrow> store \<Rightarrow> (store \<times> int) option" where
  "del_all now [] n m = Some (m, n)"
| "del_all now (k # ks) n m =
     Option.bind (key_step now k KDel m) (\<lambda>(m1, r). case r of RInt d \<Rightarrow> del_all now ks (n + d) m1 | _ \<Rightarrow> None)"

definition sem_del :: command_sem where
  "sem_del now m ws =
     (if length ws < 2 then too_few ''DEL'' m
      else map_option (\<lambda>(m1, n). (m1, RESP_INTEGER n)) (del_all now (tl ws) 0 m))"

definition sem_exists :: command_sem where
  "sem_exists = one_key ''EXISTS'' 2 (\<lambda>ws. KExists) int_reply"

definition sem_incr :: "string \<Rightarrow> int \<Rightarrow> command_sem" where
  "sem_incr name d = one_key name 2 (\<lambda>ws. KIncr d)
     (\<lambda>r. case r of RInt n \<Rightarrow> Some (if n = INT64_MIN then RESP_ERROR not_integer else RESP_INTEGER n) | _ \<Rightarrow> None)"

fun store_all :: "int \<Rightarrow> string list \<Rightarrow> store \<Rightarrow> store option" where
  "store_all now (k # v # rest) m = Option.bind (key_step now k (KSet v) m) (\<lambda>(m1, r). store_all now rest m1)"
| "store_all now _ m = Some m"

definition sem_mset :: command_sem where
  "sem_mset now m ws =
     (if length ws < 3 \<or> (length ws - 1) mod 2 \<noteq> 0 then too_few ''MSET'' m
      else map_option (\<lambda>m1. (m1, RESP_SIMPLE_STRING ''OK'')) (store_all now (tl ws) m))"

fun fetch_all :: "int \<Rightarrow> string list \<Rightarrow> store \<Rightarrow> (store \<times> resp_value list) option" where
  "fetch_all now [] m = Some (m, [])"
| "fetch_all now (k # ks) m =
     Option.bind (key_step now k KGet m) (\<lambda>(m1, r).
     case r of
       RObj p \<Rightarrow> Option.bind (value_reply RESP_NIL p) (\<lambda>v. map_option (\<lambda>(m2, vs). (m2, v # vs)) (fetch_all now ks m1))
     | _ \<Rightarrow> None)"

definition sem_mget :: command_sem where
  "sem_mget now m ws =
     (if length ws < 2 then too_few ''MGET'' m
      else map_option (\<lambda>(m1, vs). (m1, RESP_ARRAY vs)) (fetch_all now (tl ws) m))"

fun push_all :: "int \<Rightarrow> string \<Rightarrow> (cstr \<Rightarrow> list_op) \<Rightarrow> string list \<Rightarrow> int \<Rightarrow> store \<Rightarrow> (store \<times> int) option" where
  "push_all now k x [] n m = Some (m, n)"
| "push_all now k x (v # vs) n m =
     Option.bind (key_step now k (KList (x (Some v))) m) (\<lambda>(m1, r).
     case r of RInt d \<Rightarrow> if d < 0 then Some (m1, d) else push_all now k x vs d m1 | _ \<Rightarrow> None)"

definition sem_push :: "string \<Rightarrow> (cstr \<Rightarrow> list_op) \<Rightarrow> command_sem" where
  "sem_push name x now m ws =
     (if length ws < 3 then too_few name m
      else map_option (\<lambda>(m1, n). (m1, if n < 0 then RESP_ERROR wrong_type else RESP_INTEGER n))
             (push_all now (ws ! 1) x (drop 2 ws) 0 m))"

definition sem_pop :: "string \<Rightarrow> list_op \<Rightarrow> command_sem" where
  "sem_pop name x = one_key name 2 (\<lambda>ws. KList x)
     (\<lambda>r. case r of RStr p \<Rightarrow> Some (case p of None \<Rightarrow> RESP_NIL | Some s \<Rightarrow> RESP_BULK_STRING s) | _ \<Rightarrow> None)"

definition sem_llen :: command_sem where
  "sem_llen = one_key ''LLEN'' 2 (\<lambda>ws. KLlen)
     (\<lambda>r. case r of RInt n \<Rightarrow> Some (if n < 0 then RESP_ERROR wrong_type else RESP_INTEGER n) | _ \<Rightarrow> None)"

fun string_replies :: "cstr list \<Rightarrow> resp_value list option" where
  "string_replies [] = Some []"
| "string_replies (None # ps) = None"
| "string_replies (Some s # ps) = map_option (Cons (RESP_BULK_STRING s)) (string_replies ps)"

definition sem_lrange :: command_sem where
  "sem_lrange = one_key ''LRANGE'' 4 (\<lambda>ws. KLrange (atoi (ws ! 2)) (atoi (ws ! 3)))
     (\<lambda>r. case r of RItems p \<Rightarrow> map_option RESP_ARRAY (string_replies (case p of None \<Rightarrow> [] | Some vs \<Rightarrow> vs)) | _ \<Rightarrow> None)"

definition sem_expire :: command_sem where
  "sem_expire = one_key ''EXPIRE'' 3 (\<lambda>ws. KExpire (strtoll_val (ws ! 2))) int_reply"

definition sem_ttl :: command_sem where "sem_ttl = one_key ''TTL'' 2 (\<lambda>ws. KTtl) int_reply"
definition sem_persist :: command_sem where "sem_persist = one_key ''PERSIST'' 2 (\<lambda>ws. KPersist) int_reply"

definition sem_flushdb :: command_sem where
  "sem_flushdb now m ws = Some (Map.empty, RESP_SIMPLE_STRING ''OK'')"

text \<open>The keys that a command touches, from its words.\<close>

definition second_word :: "string list \<Rightarrow> string list" where "second_word ws = take 1 (drop 1 ws)"

fun every_other :: "string list \<Rightarrow> string list" where
  "every_other (k # v # rest) = k # every_other rest"
| "every_other _ = []"

definition data_table :: "(string \<times> (string list \<Rightarrow> string list) \<times> command_sem) list" where
  "data_table =
     [(''PING'', \<lambda>ws. [], sem_ping), (''SET'', second_word, sem_set), (''GET'', second_word, sem_get),
      (''DEL'', tl, sem_del), (''EXISTS'', second_word, sem_exists), (''INCR'', second_word, sem_incr ''INCR'' 1),
      (''DECR'', second_word, sem_incr ''DECR'' (- 1)), (''MSET'', every_other \<circ> tl, sem_mset), (''MGET'', tl, sem_mget),
      (''LPUSH'', second_word, sem_push ''LPUSH'' LPush), (''RPUSH'', second_word, sem_push ''RPUSH'' RPush),
      (''LPOP'', second_word, sem_pop ''LPOP'' LPop), (''RPOP'', second_word, sem_pop ''RPOP'' RPop),
      (''LLEN'', second_word, sem_llen), (''LRANGE'', second_word, sem_lrange), (''EXPIRE'', second_word, sem_expire),
      (''TTL'', second_word, sem_ttl), (''PERSIST'', second_word, sem_persist), (''FLUSHDB'', \<lambda>ws. [], sem_flushdb)]"

definition other_names :: "string list" where
  "other_names = [''DBSIZE'', ''INFO'', ''SAVE'', ''SHUTDOWN'']"

definition data_command :: "string \<Rightarrow> (string \<times> (string list \<Rightarrow> string list) \<times> command_sem) option" where
  "data_command name = List.find (\<lambda>(n, _). same_word name n) data_table"

definition command_spec :: command_sem where
  "command_spec now m ws =
     (case ws of
        [] \<Rightarrow> Some (m, RESP_ERROR ''ERR invalid command format'')
      | name # _ \<Rightarrow>
          (case data_command name of
             Some (n, keys, sem) \<Rightarrow> sem now m ws
           | None \<Rightarrow>
               if list_ex (same_word name) other_names \<or> length name > 102 then None
               else Some (m, RESP_ERROR (''ERR unknown command '' @ [CHR 0x27] @ name @ [CHR 0x27]))))"

definition command_keys :: "string list \<Rightarrow> string list" where
  "command_keys ws =
     (case ws of [] \<Rightarrow> [] | name # _ \<Rightarrow> (case data_command name of Some (n, keys, sem) \<Rightarrow> keys ws | None \<Rightarrow> []))"

definition request :: "string list \<Rightarrow> resp_value" where
  "request ws = RESP_ARRAY (map RESP_BULK_STRING ws)"

lemma command_table_names: "list_all (\<lambda>n. n \<in> fst ` set data_table \<or> n \<in> set other_names) (map fst command_table)"
  by (simp add: command_table_def data_table_def other_names_def)

lemma request_args [simp]:
  "arg_count (request ws) = length ws"
  "get_arg (request ws) i = (if i < length ws then Some (ws ! i) else None)"
  by (simp_all add: request_def arg_count_def get_arg_def)

text \<open>The result that stands for a wrong type is also a number: \<open>DECR\<close> down to it is done and reported as an error.\<close>

lemma decr_to_minimum_reports_error:
  assumes "shown now (m k) = Some e" "obj e = OBJ_INT (INT64_MIN + 1)"
  shows "sem_incr ''DECR'' (- 1) now m [''DECR'', k] =
    Some (m(k \<mapsto> e\<lparr>obj := OBJ_INT INT64_MIN\<rparr>), RESP_ERROR not_integer)"
  using assms
  by (simp add: sem_incr_def one_key_def key_step_def key_spec_def obj_number_def in_int64_def INT64_MIN_def INT64_MAX_def)

section \<open>The handlers implement it\<close>

context db_keys
begin

text \<open>The outcome of a handler: the world and the reply that the specification says.\<close>

definition reaches :: "int \<Rightarrow> world \<Rightarrow> store \<Rightarrow> resp_value \<Rightarrow> resp_buf \<Rightarrow> (world \<times> resp_buf) res \<Rightarrow> bool" where
  "reaches t w m v rb run \<longleftrightarrow> (\<exists>db' out. run = reply_with (w\<lparr>w_db := db'\<rparr>) out \<and> in_step t db' m \<and> appends rb (encode v) out)"

definition implements :: "handler \<Rightarrow> (string list \<Rightarrow> string list) \<Rightarrow> command_sem \<Rightarrow> bool" where
  "implements h keys sem \<longleftrightarrow> (\<forall>t env w m ws rb m' v. in_step t (w_db w) m \<longrightarrow> set (keys ws) \<subseteq> K \<longrightarrow> (\<forall>s \<in> set ws. cstr_ok s) \<longrightarrow>
     rb_ok rb \<longrightarrow> sem t m ws = Some (m', v) \<longrightarrow> reaches t w m' v rb (h (\<lambda>_. t) env w (request ws) rb))"

lemma implementsI:
  assumes "\<And>t env w m ws rb m' v. in_step t (w_db w) m \<Longrightarrow> set (keys ws) \<subseteq> K \<Longrightarrow> (\<forall>s \<in> set ws. cstr_ok s) \<Longrightarrow> rb_ok rb \<Longrightarrow>
     sem t m ws = Some (m', v) \<Longrightarrow> reaches t w m' v rb (h (\<lambda>_. t) env w (request ws) rb)"
  shows "implements h keys sem"
  using assms unfolding implements_def by blast

lemma reachesI:
  "run = reply_with (w\<lparr>w_db := db'\<rparr>) out \<Longrightarrow> in_step t db' m \<Longrightarrow> appends rb (encode v) out \<Longrightarrow> reaches t w m v rb run"
  by (auto simp: reaches_def)

lemma reaches_same:
  "run = reply_with w out \<Longrightarrow> in_step t (w_db w) m \<Longrightarrow> appends rb (encode v) out \<Longrightarrow> reaches t w m v rb run"
  by (rule reachesI [where db' = "w_db w"]) simp_all

lemma repliesI: "appends rb d out \<Longrightarrow> \<exists>out'. reply_with w out = reply_with w out' \<and> appends rb d out'"
  by blast

lemma step_run:
  assumes "in_step t db m" "k \<in> K" "key_step t k x m = Some (m', r)"
  obtains db' where "run_key t db k x = Inr (db', r)" "in_step t db' m'"
  using key_in_step [OF assms(1,2)] assms(3) by (fastforce simp: key_step_def)

lemma too_few_reaches:
  assumes "run = reply_with w (resp_write_error rb (wrong_args name))" "length name \<le> 80" "too_few name m = Some (m', v)"
    "in_step t (w_db w) m" "rb_ok rb"
  shows "reaches t w m' v rb run"
  using assms by (intro reaches_same [OF assms(1)]) (auto simp: too_few_def simp del: encode.simps intro: writer_replies(2))

lemma second_word_key: "set (second_word ws) \<subseteq> K \<Longrightarrow> 1 < length ws \<Longrightarrow> ws ! 1 \<in> K"
  by (cases ws; cases "tl ws") (auto simp: second_word_def)

lemma one_key_implements:
  assumes few: "\<And>t env w ws rb. length ws < n \<Longrightarrow>
      h (\<lambda>_. t) env w (request ws) rb = reply_with w (resp_write_error rb (wrong_args name))"
    and run: "\<And>t env w ws rb db' r v. n \<le> length ws \<Longrightarrow> run_key t (w_db w) (ws ! 1) (x ws) = Inr (db', r) \<Longrightarrow> reply r = Some v \<Longrightarrow>
      rb_ok rb \<Longrightarrow> \<exists>out. h (\<lambda>_. t) env w (request ws) rb = reply_with (w\<lparr>w_db := db'\<rparr>) out \<and> appends rb (encode v) out"
    and n: "2 \<le> n" "length name \<le> 80"
  shows "implements h second_word (one_key name n x reply)"
proof (rule implementsI)
  fix t env and w :: world and m ws rb m' v
  assume s: "in_step t (w_db w) m" "set (second_word ws) \<subseteq> K" and rb: "rb_ok rb" and sem: "one_key name n x reply t m ws = Some (m', v)"
  show "reaches t w m' v rb (h (\<lambda>_. t) env w (request ws) rb)"
  proof (cases "length ws < n")
    case True
    with sem show ?thesis by (intro too_few_reaches [OF few n(2) _ s(1) rb]) (simp_all add: one_key_def)
  next
    case False
    then have key: "ws ! 1 \<in> K" using s(2) n(1) by (intro second_word_key) auto
    from sem False obtain r where r: "key_step t (ws ! 1) (x ws) m = Some (m', r)" "reply r = Some v"
      by (auto simp: one_key_def split: bind_splits)
    obtain db' where "run_key t (w_db w) (ws ! 1) (x ws) = Inr (db', r)" "in_step t db' m'"
      using s(1) key r(1) by (rule step_run)
    with run [of ws t w db' r v rb env] False r(2) rb show ?thesis by (auto simp: reaches_def)
  qed
qed

lemma value_reply_writes:
  assumes "value_reply other p = Some v" "rb_ok rb" "appends rb (encode other) other_out"
  shows "appends rb (encode v) (case p of None \<Rightarrow> resp_write_nil rb | Some (OBJ_STRING s) \<Rightarrow> write_bulk rb s
    | Some (OBJ_INT n) \<Rightarrow> resp_write_bulk_string rb (dec_int n) | Some (OBJ_LIST vs) \<Rightarrow> other_out)"
  using assms writer_replies(4-6) [OF assms(2)]
  by (cases "(other, p)" rule: value_reply.cases) (auto simp del: encode.simps)

lemmas one_step = cmd_get_def cmd_exists_def incr_by_def pop_with_def cmd_llen_def cmd_lrange_def cmd_expire_def cmd_ttl_def
  cmd_persist_def on_db_def

lemma int_reply_Some: "int_reply r = Some v \<longleftrightarrow> (\<exists>n. r = RInt n \<and> v = RESP_INTEGER n)"
  by (cases r) auto

lemma get_implements: "implements cmd_get second_word sem_get"
  unfolding sem_get_def
proof (rule one_key_implements)
  fix t env and w :: world and ws rb db' r v
  assume "2 \<le> length ws" "run_key t (w_db w) (ws ! 1) KGet = Inr (db', r)" and rb: "rb_ok rb"
    and reply: "(case r of RObj p \<Rightarrow> value_reply (RESP_ERROR wrong_type) p | _ \<Rightarrow> None) = Some v"
  then obtain p where p: "db_get (\<lambda>_. t) (w_db w) (Some (ws ! 1)) = Inr (db', p)" "r = RObj p" by auto
  have "appends rb (encode (RESP_ERROR wrong_type)) (resp_write_error rb wrong_type)"
    by (rule writer_replies(2) [OF rb]) simp
  from value_reply_writes [OF _ rb this, of p v] reply p \<open>2 \<le> length ws\<close>
  show "\<exists>out. cmd_get (\<lambda>_. t) env w (request ws) rb = reply_with (w\<lparr>w_db := db'\<rparr>) out \<and> appends rb (encode v) out"
    by (auto simp: one_step simp del: encode.simps)
qed (simp_all add: one_step)

lemma int_implements:
  "implements cmd_exists second_word sem_exists" "implements cmd_expire second_word sem_expire"
  "implements cmd_ttl second_word sem_ttl" "implements cmd_persist second_word sem_persist"
  unfolding sem_exists_def sem_expire_def sem_ttl_def sem_persist_def
  by (rule one_key_implements; auto simp: one_step int_reply_Some simp del: encode.simps intro!: repliesI writer_replies(3))+

lemma incr_implements: "length name \<le> 80 \<Longrightarrow> implements (incr_by name d) second_word (sem_incr name d)"
  unfolding sem_incr_def
  by (rule one_key_implements)
    (auto simp: one_step simp del: encode.simps intro!: repliesI writer_replies split: db_reply.splits if_splits)

lemma llen_implements: "implements cmd_llen second_word sem_llen"
  unfolding sem_llen_def
  by (rule one_key_implements)
    (auto simp: one_step simp del: encode.simps intro!: repliesI writer_replies split: db_reply.splits if_splits)

lemma pop_implements:
  assumes "length name \<le> 80" "\<And>t db k. run_key t db k (KList x) = bindR (pop (\<lambda>_. t) db (Some k)) (\<lambda>(db', p). Inr (db', RStr p))"
  shows "implements (pop_with name pop) second_word (sem_pop name x)"
  unfolding sem_pop_def
  by (rule one_key_implements)
    (auto simp: one_step assms simp del: encode.simps run_key.simps intro!: repliesI writer_replies split: db_reply.splits option.splits)

text \<open>The loops over the words behind an index.\<close>

lemma drop_Cons: "drop i ws = k # ks \<Longrightarrow> i < length ws \<and> ws ! i = k \<and> drop (Suc i) ws = ks"
  by (metis Cons_nth_drop_Suc drop_eq_Nil2 leI list.distinct(1) list.inject)

lemma short_drop:
  assumes "\<not> i + 1 < length ws"
  obtains "drop i ws = []" | x where "drop i ws = [x]"
proof -
  have "length (drop i ws) \<le> 1" using assms by simp
  then show thesis using that by (cases "drop i ws"; cases "tl (drop i ws)") auto
qed

lemma del_loop_refines:
  assumes "in_step t (w_db w) m" "set (drop i ws) \<subseteq> K" "del_all t (drop i ws) n m = Some (m', d)"
  shows "\<exists>db'. del_loop (\<lambda>_. t) w (request ws) i n = Inr (w\<lparr>w_db := db'\<rparr>, d) \<and> in_step t db' m'"
  using assms
proof (induction "drop i ws" arbitrary: i w n m)
  case Nil
  then have "m' = m" "d = n" by (simp_all flip: Nil.hyps(1))
  moreover have "\<not> i < length ws" using Nil.hyps(1) by simp
  ultimately show ?case using Nil.prems
    by (intro exI [of _ "w_db w"]) (simp add: del_loop.simps [of "\<lambda>_. t" w "request ws" i n])
next
  case (Cons k ks)
  note ks = drop_Cons [OF Cons.hyps(2) [symmetric]]
  from Cons.prems(3) Cons.hyps(2) [symmetric] obtain m1 e where e: "key_step t k KDel m = Some (m1, RInt e)"
      "del_all t ks (n + e) m1 = Some (m', d)"
    by (auto split: bind_splits db_reply.splits)
  obtain db1 where db1: "run_key t (w_db w) k KDel = Inr (db1, RInt e)" "in_step t db1 m1"
    using Cons.prems(1) _ e(1) by (rule step_run) (use Cons.prems(2) Cons.hyps(2) [symmetric] in simp)
  obtain db' where "del_loop (\<lambda>_. t) (w\<lparr>w_db := db1\<rparr>) (request ws) (Suc i) (n + e) = Inr (w\<lparr>w_db := db1\<rparr>\<lparr>w_db := db'\<rparr>, d)"
      "in_step t db' m'"
    using Cons.hyps(1) [of "Suc i" "w\<lparr>w_db := db1\<rparr>" m1 "n + e"] db1(2) e(2) Cons.prems(2) Cons.hyps(2) [symmetric] ks by auto
  then show ?case
    using db1(1) ks by (auto simp: del_loop.simps [of "\<lambda>_. t" w "request ws" i n] on_db_def)
qed

lemma set_options_refines:
  assumes "in_step t (w_db w) m" "key \<in> K" "get_arg (request ws) 1 = Some key" "\<forall>s \<in> set ws. cstr_ok s"
    "sem_options t key (drop i ws) m = Some m'"
  shows "\<exists>db'. set_options (\<lambda>_. t) w (request ws) i = Inr (w\<lparr>w_db := db'\<rparr>) \<and> in_step t db' m'"
  using assms
proof (induction "length ws - i" arbitrary: i w m rule: less_induct)
  case less
  note unfold = set_options.simps [of "\<lambda>_. t" w "request ws" i]
  show ?case
  proof (cases "i + 1 < length ws")
    case False
    then have "sem_options t key (drop i ws) m = Some m" by (elim short_drop) simp_all
    with less.prems False show ?thesis by (intro exI [of _ "w_db w"]) (simp add: unfold)
  next
    case True
    define opt where "opt = ws ! i"
    define val where "val = ws ! (i + 1)"
    have ws: "drop i ws = opt # val # drop (i + 2) ws"
      using True by (simp add: opt_def val_def Cons_nth_drop_Suc)
    have "cstr_ok opt" using True less.prems(4) by (simp add: opt_def)
    then have ex: "imdb_strcasecmp opt ''EX'' = 0 \<longleftrightarrow> same_word opt ''EX''"
      unfolding same_word_def by (intro strcasecmp_eq_0) (simp_all add: cstr_ok_def NUL_def)
    have go: "\<exists>db'. set_options (\<lambda>_. t) (w\<lparr>w_db := db1\<rparr>) (request ws) (i + 2) = Inr (w\<lparr>w_db := db'\<rparr>) \<and> in_step t db' m'"
      if "in_step t db1 m1" "sem_options t key (drop (i + 2) ws) m1 = Some m'" for db1 m1
      using less.hyps [of "i + 2" "w\<lparr>w_db := db1\<rparr>" m1] that less.prems True by auto
    show ?thesis
    proof (cases "same_word opt ''EX'' \<and> strtoll_val val > 0")
      case True': True
      with less.prems(5) ws obtain m1 r where r: "key_step t key (KExpire (strtoll_val val)) m = Some (m1, r)"
          "sem_options t key (drop (i + 2) ws) m1 = Some m'" by (auto split: bind_splits)
      obtain db1 where db1: "run_key t (w_db w) key (KExpire (strtoll_val val)) = Inr (db1, r)" "in_step t db1 m1"
        using less.prems(1,2) r(1) by (rule step_run)
      then obtain n where "db_expire (\<lambda>_. t) (w_db w) (Some key) (strtoll_val val) = Inr (db1, n)" by auto
      with go [OF db1(2) r(2)] True True' ex less.prems(3) show ?thesis
        by (simp add: unfold opt_def val_def on_db_def Let_def)
    next
      case False
      with go [of "w_db w" m] less.prems ws True ex show ?thesis
        by (auto simp: unfold opt_def val_def Let_def)
    qed
  qed
qed

lemma mset_loop_refines:
  assumes "in_step t (w_db w) m" "set (every_other (drop i ws)) \<subseteq> K" "store_all t (drop i ws) m = Some m'"
  shows "\<exists>db'. mset_loop w (request ws) i = Inr (w\<lparr>w_db := db'\<rparr>) \<and> in_step t db' m'"
  using assms
proof (induction "length ws - i" arbitrary: i w m rule: less_induct)
  case less
  note unfold = mset_loop.simps [of w "request ws" i]
  show ?case
  proof (cases "i + 1 < length ws")
    case False
    then have "store_all t (drop i ws) m = Some m" by (elim short_drop) simp_all
    with less.prems False show ?thesis by (intro exI [of _ "w_db w"]) (simp add: unfold)
  next
    case True
    have ws: "drop i ws = ws ! i # ws ! (i + 1) # drop (i + 2) ws" using True by (simp add: Cons_nth_drop_Suc)
    with less.prems(3) obtain m1 r where r: "key_step t (ws ! i) (KSet (ws ! (i + 1))) m = Some (m1, r)"
        "store_all t (drop (i + 2) ws) m1 = Some m'" by (auto split: bind_splits)
    have keys: "ws ! i \<in> K" "set (every_other (drop (i + 2) ws)) \<subseteq> K" using less.prems(2) ws by auto
    obtain db1 where db1: "run_key t (w_db w) (ws ! i) (KSet (ws ! (i + 1))) = Inr (db1, r)" "in_step t db1 m1"
      using less.prems(1) keys(1) r(1) by (rule step_run)
    then obtain n where "db_set (w_db w) (Some (ws ! i)) (Some (ws ! (i + 1))) = Inr (db1, n)" by auto
    with less.hyps [of "i + 2" "w\<lparr>w_db := db1\<rparr>" m1] db1(2) r(2) keys(2) True show ?thesis
      by (auto simp: unfold on_db_def)
  qed
qed

lemma mget_loop_refines:
  assumes "in_step t (w_db w) m" "set (drop i ws) \<subseteq> K" "fetch_all t (drop i ws) m = Some (m', vs)" "rb_ok rb"
  shows "\<exists>db' rb'. mget_loop (\<lambda>_. t) w (request ws) i rb = Inr (w\<lparr>w_db := db'\<rparr>, rb') \<and> in_step t db' m' \<and>
    rb_ok rb' \<and> rb_data rb' = rb_data rb @ concat (map encode vs) \<and> length vs = length ws - i"
  using assms
proof (induction "drop i ws" arbitrary: i w m rb vs)
  case Nil
  then have "m' = m" "vs = []" by (simp_all flip: Nil.hyps(1))
  moreover have "\<not> i < length ws" using Nil.hyps(1) by simp
  ultimately show ?case using Nil.prems
    by (intro exI [of _ "w_db w"] exI [of _ rb]) (simp add: mget_loop.simps [of "\<lambda>_. t" w "request ws" i rb])
next
  case (Cons k ks)
  note ks = drop_Cons [OF Cons.hyps(2) [symmetric]]
  from Cons.prems(3) Cons.hyps(2) [symmetric] obtain m1 p v vs1 where e: "key_step t k KGet m = Some (m1, RObj p)"
      "value_reply RESP_NIL p = Some v" "fetch_all t ks m1 = Some (m', vs1)" "vs = v # vs1"
    by (auto split: bind_splits db_reply.splits)
  obtain db1 where db1: "run_key t (w_db w) k KGet = Inr (db1, RObj p)" "in_step t db1 m1"
    using Cons.prems(1) _ e(1) by (rule step_run) (use Cons.prems(2) Cons.hyps(2) [symmetric] in simp)
  let ?out = "case p of None \<Rightarrow> resp_write_nil rb | Some (OBJ_STRING s) \<Rightarrow> write_bulk rb s
    | Some (OBJ_INT n) \<Rightarrow> resp_write_bulk_string rb (dec_int n) | Some (OBJ_LIST vs) \<Rightarrow> resp_write_nil rb"
  obtain rb1 where rb1: "?out = Inr rb1" "rb_ok rb1" "rb_data rb1 = rb_data rb @ encode v"
    using value_reply_writes [OF e(2) Cons.prems(4) writer_replies(4) [OF Cons.prems(4)]] by (auto simp: appends_def)
  obtain db' rb' where "mget_loop (\<lambda>_. t) (w\<lparr>w_db := db1\<rparr>) (request ws) (Suc i) rb1 = Inr (w\<lparr>w_db := db1\<rparr>\<lparr>w_db := db'\<rparr>, rb')"
      "in_step t db' m'" "rb_ok rb'" "rb_data rb' = rb_data rb1 @ concat (map encode vs1)" "length vs1 = length ws - Suc i"
    using Cons.hyps(1) [of "Suc i" "w\<lparr>w_db := db1\<rparr>" m1 vs1 rb1] db1(2) e(3) rb1(2) Cons.prems(2) Cons.hyps(2) [symmetric] ks by auto
  moreover have "db_get (\<lambda>_. t) (w_db w) (Some k) = Inr (db1, p)" using db1(1) by auto
  ultimately show ?case
    using ks rb1(1,3) e(4) by (auto simp: mget_loop.simps [of "\<lambda>_. t" w "request ws" i rb] on_db_def simp del: encode.simps)
qed

lemma push_loop_refines:
  assumes "in_step t (w_db w) m" "key \<in> K" "get_arg (request ws) 1 = Some key" "push_all t key x (drop i ws) n m = Some (m', d)"
    and push: "\<And>db v. run_key t db key (KList (x (Some v))) = bindR (push db (Some key) (Some v)) (\<lambda>(db', r). Inr (db', RInt r))"
  shows "\<exists>db'. push_loop push w (request ws) i n = Inr (w\<lparr>w_db := db'\<rparr>, d) \<and> in_step t db' m'"
  using assms(1-4)
proof (induction "drop i ws" arbitrary: i w n m)
  case Nil
  then have "m' = m" "d = n" by (simp_all flip: Nil.hyps(1))
  moreover have "\<not> i < length ws" using Nil.hyps(1) by simp
  ultimately show ?case using Nil.prems
    by (intro exI [of _ "w_db w"]) (simp add: push_loop.simps [of push w "request ws" i n])
next
  case (Cons v vs)
  note vs = drop_Cons [OF Cons.hyps(2) [symmetric]]
  from Cons.prems(4) Cons.hyps(2) [symmetric] obtain m1 e where e: "key_step t key (KList (x (Some v))) m = Some (m1, RInt e)"
      "if e < 0 then m' = m1 \<and> d = e else push_all t key x vs e m1 = Some (m', d)"
    by (auto split: bind_splits db_reply.splits if_splits)
  obtain db1 where db1: "run_key t (w_db w) key (KList (x (Some v))) = Inr (db1, RInt e)" "in_step t db1 m1"
    using Cons.prems(1,2) e(1) by (rule step_run)
  then have run: "push (w_db w) (Some key) (Some v) = Inr (db1, e)" by (auto simp: push simp del: run_key.simps)
  show ?case
  proof (cases "e < 0")
    case True
    with run db1(2) e(2) vs Cons.prems(3) show ?thesis
      by (auto simp: push_loop.simps [of push w "request ws" i n] on_db_def)
  next
    case False
    obtain db' where "push_loop push (w\<lparr>w_db := db1\<rparr>) (request ws) (Suc i) e = Inr (w\<lparr>w_db := db1\<rparr>\<lparr>w_db := db'\<rparr>, d)"
        "in_step t db' m'"
      using Cons.hyps(1) [of "Suc i" "w\<lparr>w_db := db1\<rparr>" m1 e] db1(2) e(2) False Cons.prems(2,3) vs by auto
    with run False vs Cons.prems(3) show ?thesis
      by (auto simp: push_loop.simps [of push w "request ws" i n] on_db_def)
  qed
qed

text \<open>The commands that are not one operation on a key.\<close>

lemma reaches_array:
  assumes "appends rb (''*'' @ dec_nat (length vs) @ CRLF) m"
    and "\<And>rb1. rb_ok rb1 \<Longrightarrow> \<exists>db' rb2. f rb1 = Inr (w\<lparr>w_db := db'\<rparr>, rb2) \<and> in_step t db' st \<and> rb_ok rb2 \<and>
      rb_data rb2 = rb_data rb1 @ concat (map encode vs)"
  shows "reaches t w st (RESP_ARRAY vs) rb (bindR m f)"
proof -
  obtain rb1 where rb1: "m = Inr rb1" "rb_ok rb1" "rb_data rb1 = rb_data rb @ ''*'' @ dec_nat (length vs) @ CRLF"
    using assms(1) by (auto simp: appends_def)
  obtain db' rb2 where "f rb1 = Inr (w\<lparr>w_db := db'\<rparr>, rb2)" "in_step t db' st" "rb_ok rb2"
      "rb_data rb2 = rb_data rb1 @ concat (map encode vs)"
    using assms(2) [OF rb1(2)] by blast
  then show ?thesis
    using rb1 by (intro reachesI [where db' = db' and out = "Inr rb2"]) (simp_all add: reply_with_def appends_def)
qed

lemma key_words:
  assumes "n < length ws" "set (drop n ws) \<subseteq> K"
  shows "ws ! n \<in> K"
  using assms by (metis Cons_nth_drop_Suc list.set_intros(1) subsetD)

lemma ping_implements: "implements cmd_ping (\<lambda>ws. []) sem_ping"
proof (rule implementsI)
  fix t env and w :: world and m ws rb m' v
  assume "in_step t (w_db w) m" "rb_ok rb" "sem_ping t m ws = Some (m', v)"
  then show "reaches t w m' v rb (cmd_ping (\<lambda>_. t) env w (request ws) rb)"
    by (cases "1 < length ws") (auto simp: sem_ping_def cmd_ping_def simp del: encode.simps intro!: reaches_same [OF refl] writer_replies)
qed

lemma set_implements: "implements cmd_set second_word sem_set"
proof (rule implementsI)
  fix t env and w :: world and m ws rb m' v
  assume s: "in_step t (w_db w) m" "set (second_word ws) \<subseteq> K" "\<forall>s \<in> set ws. cstr_ok s" and rb: "rb_ok rb"
    and sem: "sem_set t m ws = Some (m', v)"
  show "reaches t w m' v rb (cmd_set (\<lambda>_. t) env w (request ws) rb)"
  proof (cases "length ws < 3")
    case True
    with sem show ?thesis by (intro too_few_reaches [OF _ _ _ s(1) rb]) (simp_all add: cmd_set_def sem_set_def)
  next
    case False
    then have key: "ws ! 1 \<in> K" using s(2) by (intro second_word_key) auto
    from sem False obtain m1 r where r: "key_step t (ws ! 1) (KSet (ws ! 2)) m = Some (m1, r)"
        "sem_options t (ws ! 1) (drop 3 ws) m1 = Some m'" "v = RESP_SIMPLE_STRING ''OK''"
      by (auto simp: sem_set_def split: bind_splits)
    obtain db1 where db1: "run_key t (w_db w) (ws ! 1) (KSet (ws ! 2)) = Inr (db1, r)" "in_step t db1 m1"
      using s(1) key r(1) by (rule step_run)
    obtain db' where "set_options (\<lambda>_. t) (w\<lparr>w_db := db1\<rparr>) (request ws) 3 = Inr (w\<lparr>w_db := db1\<rparr>\<lparr>w_db := db'\<rparr>)" "in_step t db' m'"
      using set_options_refines [of t "w\<lparr>w_db := db1\<rparr>" m1 "ws ! 1" ws 3 m'] db1(2) key r(2) s(3) False by auto
    with db1(1) False r(3) show ?thesis
      by (intro reachesI [where db' = db' and out = "resp_write_simple_string rb ''OK''"])
         (auto simp: cmd_set_def on_db_def simp del: encode.simps intro: writer_replies(1) [OF rb])
  qed
qed

lemma del_implements: "implements cmd_del tl sem_del"
proof (rule implementsI)
  fix t env and w :: world and m ws rb m' v
  assume s: "in_step t (w_db w) m" "set (tl ws) \<subseteq> K" and rb: "rb_ok rb" and sem: "sem_del t m ws = Some (m', v)"
  show "reaches t w m' v rb (cmd_del (\<lambda>_. t) env w (request ws) rb)"
  proof (cases "length ws < 2")
    case True
    with sem show ?thesis by (intro too_few_reaches [OF _ _ _ s(1) rb]) (simp_all add: cmd_del_def sem_del_def)
  next
    case False
    with sem obtain n where n: "del_all t (drop 1 ws) 0 m = Some (m', n)" "v = RESP_INTEGER n"
      by (auto simp: sem_del_def drop_Suc)
    obtain db' where "del_loop (\<lambda>_. t) w (request ws) 1 0 = Inr (w\<lparr>w_db := db'\<rparr>, n)" "in_step t db' m'"
      using del_loop_refines [OF s(1) _ n(1)] s(2) by (auto simp: drop_Suc)
    with False n(2) show ?thesis
      by (intro reachesI [where db' = db' and out = "resp_write_integer rb n"])
         (auto simp: cmd_del_def simp del: encode.simps intro: writer_replies(3) [OF rb])
  qed
qed

lemma mset_implements: "implements cmd_mset (every_other \<circ> tl) sem_mset"
proof (rule implementsI)
  fix t env and w :: world and m ws rb m' v
  assume s: "in_step t (w_db w) m" "set ((every_other \<circ> tl) ws) \<subseteq> K" and rb: "rb_ok rb" and sem: "sem_mset t m ws = Some (m', v)"
  show "reaches t w m' v rb (cmd_mset (\<lambda>_. t) env w (request ws) rb)"
  proof (cases "length ws < 3 \<or> (length ws - 1) mod 2 \<noteq> 0")
    case True
    with sem show ?thesis by (intro too_few_reaches [OF _ _ _ s(1) rb]) (simp_all add: cmd_mset_def sem_mset_def)
  next
    case False
    with sem have n: "store_all t (drop 1 ws) m = Some m'" "v = RESP_SIMPLE_STRING ''OK''"
      by (auto simp: sem_mset_def drop_Suc)
    obtain db' where "mset_loop w (request ws) 1 = Inr (w\<lparr>w_db := db'\<rparr>)" "in_step t db' m'"
      using mset_loop_refines [OF s(1) _ n(1)] s(2) by (auto simp: drop_Suc)
    with False n(2) show ?thesis
      by (intro reachesI [where db' = db' and out = "resp_write_simple_string rb ''OK''"])
         (auto simp: cmd_mset_def simp del: encode.simps intro: writer_replies(1) [OF rb])
  qed
qed

lemma mget_implements: "implements cmd_mget tl sem_mget"
proof (rule implementsI)
  fix t env and w :: world and m ws rb m' v
  assume s: "in_step t (w_db w) m" "set (tl ws) \<subseteq> K" and rb: "rb_ok rb" and sem: "sem_mget t m ws = Some (m', v)"
  show "reaches t w m' v rb (cmd_mget (\<lambda>_. t) env w (request ws) rb)"
  proof (cases "length ws < 2")
    case True
    with sem show ?thesis by (intro too_few_reaches [OF _ _ _ s(1) rb]) (simp_all add: cmd_mget_def sem_mget_def)
  next
    case False
    with sem obtain vs where n: "fetch_all t (drop 1 ws) m = Some (m', vs)" "v = RESP_ARRAY vs"
      by (auto simp: sem_mget_def drop_Suc)
    have keys: "set (drop 1 ws) \<subseteq> K" using s(2) by (simp add: drop_Suc)
    from mget_loop_refines [OF s(1) keys n(1) rb] have len: "length vs = length ws - 1" by auto
    have "reaches t w m' (RESP_ARRAY vs) rb (bindR (resp_write_array_header rb (length vs)) (mget_loop (\<lambda>_. t) w (request ws) 1))"
      by (rule reaches_array [OF writers_append(5) [OF rb]]) (use mget_loop_refines [OF s(1) keys n(1)] in blast)
    then show ?thesis using False n(2) len by (simp add: cmd_mget_def)
  qed
qed

lemma push_implements:
  assumes "length name \<le> 80"
    and "\<And>t db k v. run_key t db k (KList (x (Some v))) = bindR (push (\<lambda>_. t) db (Some k) (Some v)) (\<lambda>(db', r). Inr (db', RInt r))"
  shows "implements (push_with name push) second_word (sem_push name x)"
proof (rule implementsI)
  fix t env and w :: world and m ws rb m' v
  assume s: "in_step t (w_db w) m" "set (second_word ws) \<subseteq> K" and rb: "rb_ok rb" and sem: "sem_push name x t m ws = Some (m', v)"
  show "reaches t w m' v rb (push_with name push (\<lambda>_. t) env w (request ws) rb)"
  proof (cases "length ws < 3")
    case True
    with sem show ?thesis by (intro too_few_reaches [OF _ assms(1) _ s(1) rb]) (simp_all add: push_with_def sem_push_def)
  next
    case False
    then have key: "ws ! 1 \<in> K" "get_arg (request ws) 1 = Some (ws ! 1)"
      using s(2) second_word_key [of ws] by simp_all
    from sem False obtain n where n: "push_all t (ws ! 1) x (drop 2 ws) 0 m = Some (m', n)"
        "v = (if n < 0 then RESP_ERROR wrong_type else RESP_INTEGER n)" by (auto simp: sem_push_def)
    obtain db' where "push_loop (push (\<lambda>_. t)) w (request ws) 2 0 = Inr (w\<lparr>w_db := db'\<rparr>, n)" "in_step t db' m'"
      using push_loop_refines [where push = "push (\<lambda>_. t)", OF s(1) key n(1) assms(2)] by blast
    with False n(2) show ?thesis
      by (intro reachesI [where db' = db' and out = "if n < 0 then resp_write_error rb wrong_type else resp_write_integer rb n"])
         (auto simp: push_with_def simp del: encode.simps intro: writer_replies(2,3) [OF rb])
  qed
qed

lemma string_replies_items:
  "string_replies ps = Some vs \<Longrightarrow> rb_ok rb \<Longrightarrow> length vs = length ps \<and> appends rb (concat (map encode vs)) (write_items rb ps)"
proof (induction ps arbitrary: vs rb rule: string_replies.induct)
  case (3 s ps)
  then obtain us where us: "string_replies ps = Some us" "vs = RESP_BULK_STRING s # us" by auto
  have "appends rb (encode (RESP_BULK_STRING s) @ concat (map encode us)) (bindR (write_bulk rb (Some s)) (\<lambda>rb1. write_items rb1 ps))"
    by (rule appends_bind [OF writer_replies(6) [OF "3.prems"(2)]]) (use "3.IH" us(1) in auto)
  with "3.IH" [OF us(1) "3.prems"(2)] us(2) show ?case by simp
qed (simp_all add: appends_refl)

lemma lrange_implements: "implements cmd_lrange second_word sem_lrange"
  unfolding sem_lrange_def
proof (rule one_key_implements)
  fix t env and w :: world and ws rb db' r v
  assume ws: "4 \<le> length ws" "run_key t (w_db w) (ws ! 1) (KLrange (atoi (ws ! 2)) (atoi (ws ! 3))) = Inr (db', r)" and rb: "rb_ok rb"
    and reply: "(case r of RItems p \<Rightarrow> map_option RESP_ARRAY (string_replies (case p of None \<Rightarrow> [] | Some vs \<Rightarrow> vs)) | _ \<Rightarrow> None) = Some v"
  then obtain p where p: "db_lrange (\<lambda>_. t) (w_db w) (Some (ws ! 1)) (atoi (ws ! 2)) (atoi (ws ! 3)) = Inr (db', p)" "r = RItems p" by auto
  define items where "items = (case p of None \<Rightarrow> [] | Some vs \<Rightarrow> vs)"
  from reply p obtain vs where vs: "string_replies items = Some vs" "v = RESP_ARRAY vs" by (auto simp: items_def)
  note len = string_replies_items [OF vs(1) rb, THEN conjunct1]
  have "appends rb ((''*'' @ dec_nat (length items) @ CRLF) @ concat (map encode vs))
      (bindR (resp_write_array_header rb (length items)) (\<lambda>rb1. write_items rb1 items))"
    by (rule appends_bind [OF writers_append(5) [OF rb]]) (use string_replies_items [OF vs(1)] in blast)
  moreover have "cmd_lrange (\<lambda>_. t) env w (request ws) rb = reply_with (w\<lparr>w_db := db'\<rparr>)
      (bindR (resp_write_array_header rb (length items)) (\<lambda>rb1. write_items rb1 items))"
    using ws(1) p(1) by (simp add: one_step items_def reply_with_def Let_def bindR_assoc)
  ultimately show "\<exists>out. cmd_lrange (\<lambda>_. t) env w (request ws) rb = reply_with (w\<lparr>w_db := db'\<rparr>) out \<and> appends rb (encode v) out"
    using vs(2) len by auto
qed (simp_all add: one_step)

lemma flushdb_implements: "implements cmd_flushdb (\<lambda>ws. []) sem_flushdb"
proof (rule implementsI)
  fix t env and w :: world and m ws rb m' v
  assume s: "in_step t (w_db w) m" and rb: "rb_ok rb" and sem: "sem_flushdb t m ws = Some (m', v)"
  obtain db' where "db_flush (w_db w) = Inr db'" "in_step t db' Map.empty" using flush_in_step [OF s] by blast
  with sem show "reaches t w m' v rb (cmd_flushdb (\<lambda>_. t) env w (request ws) rb)"
    by (intro reachesI [where db' = db' and out = "resp_write_simple_string rb ''OK''"])
       (auto simp: sem_flushdb_def cmd_flushdb_def simp del: encode.simps intro: writer_replies(1) [OF rb])
qed

text \<open>Every entry of the table of specifications belongs to a handler of the table of commands.\<close>

lemma data_table_implements:
  assumes "(n, keys, sem) \<in> set data_table"
  shows "\<exists>h. (n, h) \<in> set command_table \<and> implements h keys sem"
proof -
  have incr: "implements cmd_incr second_word (sem_incr ''INCR'' 1)" "implements cmd_decr second_word (sem_incr ''DECR'' (- 1))"
    unfolding cmd_incr_def cmd_decr_def by (rule incr_implements, simp)+
  have push: "implements cmd_lpush second_word (sem_push ''LPUSH'' LPush)" "implements cmd_rpush second_word (sem_push ''RPUSH'' RPush)"
    unfolding cmd_lpush_def cmd_rpush_def by (rule push_implements; simp add: bindR_assoc split_def)+
  have pop: "implements cmd_lpop second_word (sem_pop ''LPOP'' LPop)" "implements cmd_rpop second_word (sem_pop ''RPOP'' RPop)"
    unfolding cmd_lpop_def cmd_rpop_def by (rule pop_implements; simp add: bindR_assoc split_def)+
  note all = ping_implements set_implements get_implements del_implements int_implements incr mset_implements mget_implements
    push pop llen_implements lrange_implements flushdb_implements
  have "list_all (\<lambda>(n, keys, sem). \<exists>h. (n, h) \<in> set command_table \<and> implements h keys sem) data_table"
    unfolding data_table_def list.pred_inject prod.case
    by (intro conjI list.pred_inject(1); (rule exI, rule conjI [rotated], rule all, simp add: command_table_def))
  with assms show ?thesis by (auto simp: list_all_iff)
qed

lemma execute_refines:
  assumes s: "in_step t (w_db w) m" and keys: "set (command_keys ws) \<subseteq> K" and ok: "\<forall>s \<in> set ws. cstr_ok s" and rb: "rb_ok rb"
    and spec: "command_spec t m ws = Some (m', v)"
  shows "reaches t w m' v rb (command_execute (\<lambda>_. t) env w (Some (request ws)) rb)"
proof (cases ws)
  case Nil
  with spec s rb show ?thesis
    by (auto simp: command_spec_def command_execute_def request_def simp del: encode.simps intro!: reaches_same [OF refl] writer_replies)
next
  case (Cons name args)
  have name: "cstr_ok name" using ok Cons by simp
  show ?thesis
  proof (cases "data_command name")
    case (Some e)
    obtain n ks sem where e: "e = (n, ks, sem)" by (cases e)
    with Some have mem: "(n, ks, sem) \<in> set data_table" and same: "same_word name n"
      by (auto simp: data_command_def find_Some_iff) (metis nth_mem)
    obtain h where h: "(n, h) \<in> set command_table" "implements h ks sem" using data_table_implements [OF mem] by blast
    have "command_execute (\<lambda>_. t) env w (Some (request ws)) rb = h (\<lambda>_. t) env w (request ws) rb"
      using execute_known [OF h(1) name, of "\<lambda>_. t" env w "map RESP_BULK_STRING args" rb] same
      by (simp add: request_def Cons same_word_def)
    moreover have "set (ks ws) \<subseteq> K" "sem t m ws = Some (m', v)"
      using keys spec Some e Cons by (simp_all add: command_keys_def command_spec_def)
    ultimately show ?thesis using h(2) s ok rb by (simp add: implements_def)
  next
    case None
    with spec Cons have v: "m' = m" "v = RESP_ERROR (''ERR unknown command '' @ [CHR 0x27] @ name @ [CHR 0x27])"
        "length name \<le> 102" "\<not> list_ex (same_word name) other_names"
      by (auto simp: command_spec_def split: if_splits)
    have data: "\<not> same_word name n" if "(n, ks, sem) \<in> set data_table" for n ks sem
      using None that by (auto simp: data_command_def find_None_iff)
    have "find_command name command_table = None"
    proof (cases "find_command name command_table")
      case (Some h)
      then obtain n where n: "(n, h) \<in> set command_table" "imdb_strcasecmp name n = 0"
        using find_command_same by blast
      then have same: "same_word name n" using name command_names(2) by (auto simp: same_word_def strcasecmp_eq_0)
      have "n \<in> fst ` set data_table \<or> n \<in> set other_names"
        using command_table_names imageI [OF n(1), of fst] by (auto simp: list_all_iff)
      with same data v(4) show ?thesis by (auto simp: list_ex_iff)
    qed simp
    then show ?thesis
      using v s rb Cons by (auto simp: command_execute_def request_def get_arg_def simp del: encode.simps
          intro!: reaches_same [OF refl] writer_replies)
  qed
qed

end

end
