(* ===== verification/Server_Spec.thy ===== *)
theory Server_Spec
  imports Server_Props Command_Spec
begin

text \<open>
  The server against the store: in a round of the event loop the requests that became complete are
  executed slot by slot on the store of \<open>Database_Spec\<close>, as \<open>Command_Spec\<close> says, and every client is
  sent the replies to its own requests, in their order. The lemmas about one slot and one round are
  proved for every table with the laws of \<open>db_keys\<close>; the property is about the hash table of the code.
\<close>

section \<open>The specification\<close>

fun spec_commands :: "int \<Rightarrow> store \<Rightarrow> string list list \<Rightarrow> (store \<times> resp_value list) option" where
  "spec_commands t m [] = Some (m, [])"
| "spec_commands t m (ws # wss) =
     Option.bind (command_spec t m ws) (\<lambda>(m1, v). map_option (\<lambda>(m2, vs). (m2, v # vs)) (spec_commands t m1 wss))"

text \<open>The requests of a round, one list for each slot.\<close>

fun spec_slots :: "int \<Rightarrow> store \<Rightarrow> string list list list \<Rightarrow> (store \<times> resp_value list list) option" where
  "spec_slots t m [] = Some (m, [])"
| "spec_slots t m (wss # rest) =
     Option.bind (spec_commands t m wss) (\<lambda>(m1, vs). map_option (\<lambda>(m2, vss). (m2, vs # vss)) (spec_slots t m1 rest))"

text \<open>A round: the time, what the operating system answers, and the requests that become complete.\<close>

type_synonym round = "int \<times> ready \<times> string list list list"

fun spec_rounds :: "store \<Rightarrow> round list \<Rightarrow> (store \<times> resp_value list list list) option" where
  "spec_rounds m [] = Some (m, [])"
| "spec_rounds m ((t, rdy, reqs) # rounds) =
     Option.bind (spec_slots t m reqs) (\<lambda>(m1, vss). map_option (\<lambda>(m2, rest). (m2, vss # rest)) (spec_rounds m1 rounds))"

section \<open>Rounds and their input\<close>

text \<open>The rounds of the event loop, each at its time.\<close>

fun run_rounds :: "server \<Rightarrow> round list \<Rightarrow> server res" where
  "run_rounds srv [] = Inr srv"
| "run_rounds srv ((t, rdy, reqs) # rounds) =
     (if running srv then bindR (server_round (\<lambda>_. t) (SelectReady rdy) srv) (\<lambda>(srv1, go). run_rounds srv1 rounds) else Inr srv)"

text \<open>The bytes that a client sends complete the requests \<open>wss\<close>, whose keys are in \<open>K\<close>.\<close>

definition arrives :: "string set \<Rightarrow> client \<Rightarrow> string \<Rightarrow> string list list \<Rightarrow> bool" where
  "arrives K c s wss \<longleftrightarrow> s \<noteq> [] \<and> c_read_len c + length s < CLIENT_BUF_SIZE \<and>
     (\<forall>ws \<in> set wss. value_ok (request ws) \<and> set (command_keys ws) \<subseteq> K) \<and>
     (\<exists>p. partial p \<and> received c @ s = concat (map (encode \<circ> request) wss) @ p)"

text \<open>\<open>recv\<close> fails or finds the end of the stream; \<open>send\<close> fails.\<close>

definition recv_fails :: "ready \<Rightarrow> int list \<Rightarrow> client \<Rightarrow> bool" where
  "recv_fails rdy reads c \<longleftrightarrow> c_fd c \<in> set reads \<and> (rd_recv rdy (c_fd c) = None \<or> rd_recv rdy (c_fd c) = Some [])"

definition send_fails :: "ready \<Rightarrow> int list \<Rightarrow> client \<Rightarrow> bool" where
  "send_fails rdy writes c \<longleftrightarrow> c_fd c \<in> set writes \<and> (rd_send rdy (c_fd c) = None \<or> rd_send rdy (c_fd c) = Some 0)"

definition lost :: "ready \<Rightarrow> int list \<Rightarrow> int list \<Rightarrow> client \<Rightarrow> bool" where
  "lost rdy reads writes c \<longleftrightarrow> recv_fails rdy reads c \<or> send_fails rdy writes c"

definition slot_input :: "string set \<Rightarrow> ready \<Rightarrow> int list \<Rightarrow> client option \<Rightarrow> string list list \<Rightarrow> bool" where
  "slot_input K rdy reads slot wss \<longleftrightarrow>
     (case slot of
        None \<Rightarrow> wss = []
      | Some c \<Rightarrow>
          if c_fd c \<in> set reads \<and> \<not> recv_fails rdy reads c then arrives K c (the (rd_recv rdy (c_fd c))) wss else wss = [])"

text \<open>A server with honest clients that have a descriptor each.\<close>

definition distinct_fds :: "client option list \<Rightarrow> bool" where
  "distinct_fds cs \<longleftrightarrow> (\<forall>i j c d. i < length cs \<longrightarrow> j < length cs \<longrightarrow> cs ! i = Some c \<longrightarrow> cs ! j = Some d \<longrightarrow> c_fd c = c_fd d \<longrightarrow> i = j)"

definition calm :: "server \<Rightarrow> bool" where
  "calm srv \<longleftrightarrow> table_ok srv \<and> fd_ok (srv_listen_fd srv) \<and> distinct_fds (srv_clients srv) \<and>
     (\<forall>c. Some c \<in> set (srv_clients srv) \<longrightarrow> honest c)"

definition round_input :: "string set \<Rightarrow> server \<Rightarrow> ready \<Rightarrow> string list list list \<Rightarrow> bool" where
  "round_input K srv rdy reqs \<longleftrightarrow> length reqs = MAX_CLIENTS \<and>
     (\<forall>fd. rd_accept rdy = Some fd \<longrightarrow> fd_ok fd \<and> fd \<noteq> srv_listen_fd srv \<and> fd \<notin> client_fds srv) \<and>
     (\<forall>i < MAX_CLIENTS. slot_input K rdy (rd_read rdy) (srv_clients srv ! i) (reqs ! i))"

text \<open>The input of a sequence of rounds, at increasing times; it depends on the connections that there are.\<close>

fun rounds_input :: "string set \<Rightarrow> int \<Rightarrow> server \<Rightarrow> round list \<Rightarrow> bool" where
  "rounds_input K t0 srv [] \<longleftrightarrow> True"
| "rounds_input K t0 srv ((t, rdy, reqs) # rounds) \<longleftrightarrow> t0 \<le> t \<and> t \<le> INT64_MAX \<and> round_input K srv rdy reqs \<and>
     (case server_round (\<lambda>_. t) (SelectReady rdy) srv of Inl e \<Rightarrow> True | Inr (srv1, go) \<Rightarrow> rounds_input K t srv1 rounds)"

text \<open>The bytes that the network took for a descriptor.\<close>

definition bytes_to :: "int \<Rightarrow> (int \<times> string) list \<Rightarrow> string" where
  "bytes_to fd net = concat (map snd (filter (\<lambda>x. fst x = fd) net))"

lemma bytes_to_simps [simp]:
  "bytes_to fd [] = []" "bytes_to fd (xs @ ys) = bytes_to fd xs @ bytes_to fd ys"
  "bytes_to fd [(fd', s)] = (if fd' = fd then s else [])"
  by (simp_all add: bytes_to_def)

lemma bytes_to_other: "fd \<notin> fst ` set net \<Longrightarrow> bytes_to fd net = []"
  by (auto simp: bytes_to_def filter_empty_conv image_iff)

section \<open>One slot\<close>

text \<open>
  What became of a slot: an empty one stays empty; a client is gone when a call on its descriptor failed,
  and otherwise has been sent, or still has pending, what was pending and the replies.
\<close>

definition slot_answered :: "(client \<Rightarrow> bool) \<Rightarrow> client option \<Rightarrow> (int \<times> string) list \<Rightarrow> client option \<Rightarrow> resp_value list \<Rightarrow> bool" where
  "slot_answered gone slot net slot' vs \<longleftrightarrow>
     (case slot of
        None \<Rightarrow> slot' = None
      | Some c \<Rightarrow>
          (case slot' of
             None \<Rightarrow> gone c
           | Some c' \<Rightarrow> honest c' \<and> c_fd c' = c_fd c \<and> bytes_to (c_fd c) net @ pending c' = pending c @ concat (map encode vs)))"

definition slot_fds :: "client option \<Rightarrow> int set" where
  "slot_fds slot = (case slot of None \<Rightarrow> {} | Some c \<Rightarrow> {c_fd c})"

lemma write_answered:
  assumes "honest c" "i < length (srv_clients srv)" "srv_clients srv ! i = Some c" "c_fd c \<in> set writes \<Longrightarrow> pending c \<noteq> []"
  shows "\<exists>srv' net. serve_write rdy writes i c srv = Inr srv' \<and> only_slot i srv srv' \<and> srv_world srv' = srv_world srv \<and>
    srv_net srv' = srv_net srv @ net \<and> fst ` set net \<subseteq> {c_fd c} \<and>
    slot_answered (send_fails rdy writes) (Some c) net (srv_clients srv' ! i) []"
proof -
  have fd: "FD_ISSET (c_fd c) writes = Inr (c_fd c \<in> set writes)" using assms(1) by (simp add: FD_ISSET_def honest_def)
  show ?thesis
  proof (cases "c_fd c \<in> set writes")
    case False
    with fd assms show ?thesis by (auto simp: serve_write_def only_slot_def slot_answered_def intro!: exI [of _ "[]"])
  next
    case True
    show ?thesis
    proof (cases "client_send (rd_send rdy (c_fd c)) c")
      case None
      with assms(4) True have "send_fails rdy writes c"
        by (cases "rd_send rdy (c_fd c)") (auto simp: client_send_def send_fails_def pending_def Let_def split: if_splits)
      with None True fd assms show ?thesis
        by (auto simp: serve_write_def only_slot_def slot_answered_def server_remove_client_def intro!: exI [of _ "[]"])
    next
      case (Some r)
      obtain c' s where r: "r = (c', s)" by (cases r)
      note sent = send_ok [OF _ Some [unfolded r]]
      have "honest c'" using honest_send [OF assms(1) Some [unfolded r]] .
      with Some r True fd assms sent show ?thesis
        by (auto simp: serve_write_def only_slot_def slot_answered_def honest_def fresh_tail_def intro!: exI [of _ "[(c_fd c, s)]"])
    qed
  qed
qed

text \<open>What a client got over several rounds, if no call on its descriptor failed.\<close>

definition stays :: "client \<Rightarrow> round list \<Rightarrow> bool" where
  "stays c rounds \<longleftrightarrow> (\<forall>(t, rdy, reqs) \<in> set rounds. \<not> lost rdy (rd_read rdy) (rd_write rdy) c)"

definition got_replies :: "server \<Rightarrow> server \<Rightarrow> nat \<Rightarrow> client \<Rightarrow> resp_value list \<Rightarrow> bool" where
  "got_replies srv srv' i c vs \<longleftrightarrow>
     (\<exists>c' net. srv_clients srv' ! i = Some c' \<and> c_fd c' = c_fd c \<and> srv_net srv' = srv_net srv @ net \<and>
        bytes_to (c_fd c) net @ pending c' = pending c @ concat (map encode vs))"

lemma slot_answered_got:
  "slot_answered gone (Some c) net (srv_clients srv' ! i) vs \<Longrightarrow> \<not> gone c \<Longrightarrow> srv_net srv' = srv_net srv @ net \<Longrightarrow>
   got_replies srv srv' i c vs"
  by (auto simp: slot_answered_def got_replies_def split: option.splits)

lemma slot_answered_net:
  "slot_answered gone slot net slot' vs \<Longrightarrow> (\<And>fd. fd \<in> slot_fds slot \<Longrightarrow> bytes_to fd net' = bytes_to fd net) \<Longrightarrow>
   slot_answered gone slot net' slot' vs"
  by (auto simp: slot_answered_def slot_fds_def split: option.splits)

lemma got_replies_trans:
  assumes "got_replies srv srv1 i c us" "srv_clients srv1 ! i = Some c1" "got_replies srv1 srv2 i c1 vs"
  shows "got_replies srv srv2 i c (us @ vs)"
proof -
  obtain net1 where 1: "c_fd c1 = c_fd c" "srv_net srv1 = srv_net srv @ net1"
      "bytes_to (c_fd c) net1 @ pending c1 = pending c @ concat (map encode us)"
    using assms(1,2) by (auto simp: got_replies_def)
  obtain c2 net2 where 2: "srv_clients srv2 ! i = Some c2" "c_fd c2 = c_fd c1" "srv_net srv2 = srv_net srv1 @ net2"
      "bytes_to (c_fd c1) net2 @ pending c2 = pending c1 @ concat (map encode vs)"
    using assms(3) by (auto simp: got_replies_def)
  have "bytes_to (c_fd c) (net1 @ net2) @ pending c2 = bytes_to (c_fd c) net1 @ bytes_to (c_fd c1) net2 @ pending c2"
    by (simp add: 1(1))
  also have "\<dots> = (bytes_to (c_fd c) net1 @ pending c1) @ concat (map encode vs)" by (simp add: 2(4))
  also have "\<dots> = pending c @ concat (map encode (us @ vs))" by (simp add: 1(3))
  finally show ?thesis unfolding got_replies_def using 1(1,2) 2(1-3) by (intro exI [of _ c2] exI [of _ "net1 @ net2"]) simp
qed

section \<open>Around the loop over the slots\<close>

lemma distinct_fdsD:
  "distinct_fds cs \<Longrightarrow> Some c \<in> set cs \<Longrightarrow> Some d \<in> set cs \<Longrightarrow> c_fd c = c_fd d \<Longrightarrow> c = d"
  unfolding distinct_fds_def in_set_conv_nth by (metis option.inject)

lemma collect_fds_writes:
  "collect_fds cs (rs, ws) = Inr (r, w) \<Longrightarrow> fd \<in> set w \<Longrightarrow> fd \<in> set ws \<or> (\<exists>c. Some c \<in> set cs \<and> c_fd c = fd \<and> pending c \<noteq> [])"
proof (induction cs "(rs, ws)" arbitrary: rs ws rule: collect_fds.induct)
  case (3 c cs reads writes)
  then show ?case
    by (cases "c_write_pos c < length (c_write_buf c)") (fastforce simp: pending_def FD_SET_def split: if_splits)+
qed auto

text \<open>A new connection comes into an empty slot.\<close>

lemma accept_slot:
  assumes "i < length (srv_clients srv)"
  shows "srv_clients (server_accept answer srv) ! i = srv_clients srv ! i \<or>
    (srv_clients srv ! i = None \<and> (\<exists>fd. answer = Some fd \<and> srv_clients (server_accept answer srv) ! i = Some (client_create fd)))"
  using empty_slot_Some [of "srv_clients srv"] assms
  by (auto simp: server_accept_def nth_list_update split: option.splits)

lemma accept_same [simp]:
  "srv_world (server_accept answer srv) = srv_world srv" "srv_listen_fd (server_accept answer srv) = srv_listen_fd srv"
  "srv_net (server_accept answer srv) = srv_net srv" "length (srv_clients (server_accept answer srv)) = length (srv_clients srv)"
  "running (server_accept answer srv) = running srv"
  by (simp_all add: server_accept_def running_def split: option.split)

lemma distinct_fds_update:
  assumes "distinct_fds cs" "\<And>j d. j < length cs \<Longrightarrow> cs ! j = Some d \<Longrightarrow> c_fd d \<noteq> c_fd c"
  shows "distinct_fds (cs[k := Some c])"
proof (cases "k < length cs")
  case True
  then show ?thesis
    using assms unfolding distinct_fds_def by (simp add: nth_list_update) (metis option.inject)
qed (use assms(1) in \<open>simp add: list_update_beyond\<close>)

lemma accept_distinct:
  assumes "distinct_fds (srv_clients srv)" "\<And>fd. answer = Some fd \<Longrightarrow> fd \<notin> client_fds srv"
  shows "distinct_fds (srv_clients (server_accept answer srv))"
proof (cases answer)
  case (Some fd)
  have "c_fd c \<noteq> fd" if "i < length (srv_clients srv)" "srv_clients srv ! i = Some c" for i c
    using assms(2) [OF Some] that unfolding client_fds_def by (metis (mono_tags, lifting) mem_Collect_eq nth_mem)
  then have "distinct_fds ((srv_clients srv)[k := Some (client_create fd)])" for k
    by (intro distinct_fds_update [OF assms(1)]) simp
  then show ?thesis using assms(1) Some by (simp add: server_accept_def split: option.split)
qed (use assms(1) in \<open>simp add: server_accept_def\<close>)

lemma calm_accept:
  assumes "calm srv" "\<And>fd. answer = Some fd \<Longrightarrow> fd_ok fd \<and> fd \<notin> client_fds srv"
  shows "calm (server_accept answer srv)"
proof -
  have "honest c" if c: "Some c \<in> set (srv_clients (server_accept answer srv))" for c
  proof -
    obtain i where i: "i < length (srv_clients srv)" "srv_clients (server_accept answer srv) ! i = Some c"
      using c by (auto simp: in_set_conv_nth)
    with accept_slot [OF i(1), of answer] assms nth_mem [OF i(1)] show ?thesis by (auto simp: calm_def intro: honest_create)
  qed
  with assms accept_distinct [of srv answer] table_accept [of srv answer] show ?thesis by (auto simp: calm_def)
qed

text \<open>The slots that a round goes through, and what they amount to after it.\<close>

lemma calm_slots:
  assumes "calm srv" "table_ok srv'" "srv_listen_fd srv' = srv_listen_fd srv"
    and "\<And>i. i < MAX_CLIENTS \<Longrightarrow> slot_answered gone (srv_clients srv ! i) net (srv_clients srv' ! i) (vss i)"
  shows "calm srv'"
proof -
  have len: "length (srv_clients srv) = MAX_CLIENTS" "length (srv_clients srv') = MAX_CLIENTS"
    using assms(1,2) by (simp_all add: calm_def table_ok_def)
  have old: "\<exists>c. srv_clients srv ! i = Some c \<and> c_fd c' = c_fd c \<and> honest c'"
    if "i < MAX_CLIENTS" "srv_clients srv' ! i = Some c'" for i c'
    using assms(4) [OF that(1)] that(2) by (auto simp: slot_answered_def split: option.splits)
  have "distinct_fds (srv_clients srv')"
    using assms(1) old len unfolding distinct_fds_def calm_def by metis
  moreover have "honest c'" if "Some c' \<in> set (srv_clients srv')" for c'
    using that old len(2) by (auto simp: in_set_conv_nth)
  ultimately show ?thesis using assms(1-3) by (simp add: calm_def)
qed

text \<open>Only clients with pending replies are asked about for writing.\<close>

lemma writers_pending:
  assumes "distinct_fds (srv_clients srv)" "collect_fds (srv_clients srv) (rs, []) = Inr (r, w)" "c_fd c \<in> set w" "Some c \<in> set (srv_clients srv)"
  shows "pending c \<noteq> []"
  using collect_fds_writes [OF assms(2,3)] distinct_fdsD [OF assms(1) _ assms(4)] by auto

lemma slot_input_reads:
  "slot_input K rdy reads slot wss \<Longrightarrow> (\<And>c. slot = Some c \<Longrightarrow> c_fd c \<in> set reads' \<longleftrightarrow> c_fd c \<in> set reads) \<Longrightarrow> slot_input K rdy reads' slot wss"
  by (auto simp: slot_input_def recv_fails_def split: option.splits)

text \<open>A round up to the loop over the slots: the sets of descriptors, and the new connection, which is in none.\<close>

lemma round_setup:
  assumes calm: "calm srv" and input: "round_input K srv rdy reqs"
  obtains reads writes srv1 where
    "\<forall>clk. server_round clk (SelectReady rdy) srv = bindR (serve_clients clk rdy reads writes [0..<MAX_CLIENTS] srv1) (\<lambda>srv2.
       bindR (db_expire_sweep clk (w_db (srv_world srv2))) (\<lambda>db. Inr (srv2\<lparr>srv_world := (srv_world srv2)\<lparr>w_db := db\<rparr>\<rparr>, True)))"
    "calm srv1" "srv_world srv1 = srv_world srv" "srv_net srv1 = srv_net srv" "set reads \<subseteq> set (rd_read rdy)" "set writes \<subseteq> set (rd_write rdy)"
    "\<forall>i < MAX_CLIENTS. slot_input K rdy reads (srv_clients srv1 ! i) (reqs ! i)"
    "\<forall>i < MAX_CLIENTS. \<forall>c. srv_clients srv1 ! i = Some c \<longrightarrow> honest c \<and> (c_fd c \<in> set writes \<longrightarrow> pending c \<noteq> [])"
    "\<forall>i < MAX_CLIENTS. \<forall>c. srv_clients srv ! i = Some c \<longrightarrow> srv_clients srv1 ! i = Some c"
proof -
  have len: "length (srv_clients srv) = MAX_CLIENTS" and listen: "fd_ok (srv_listen_fd srv)" using calm by (simp_all add: calm_def table_ok_def)
  have new: "\<And>fd. rd_accept rdy = Some fd \<Longrightarrow> fd_ok fd \<and> fd \<notin> client_fds srv \<and> fd \<noteq> srv_listen_fd srv"
    using input by (auto simp: round_input_def)
  have fds: "\<And>c. Some c \<in> set (srv_clients srv) \<Longrightarrow> fd_ok (c_fd c)" using calm by (auto simp: calm_def honest_def)
  obtain r w where sets: "collect_fds (srv_clients srv) ([srv_listen_fd srv], []) = Inr (r, w)"
      "set r = insert (srv_listen_fd srv) (client_fds srv)"
    using collect_fds_ok [OF fds, of "srv_clients srv" "[srv_listen_fd srv]" "[]"] by (auto simp: client_fds_def)
  define reads where "reads = filter (\<lambda>fd. fd \<in> set (rd_read rdy)) r"
  define writes where "writes = filter (\<lambda>fd. fd \<in> set (rd_write rdy)) w"
  define srv1 where "srv1 = (if srv_listen_fd srv \<in> set reads then server_accept (rd_accept rdy) srv else srv)"
  have slot: "srv_clients srv1 ! i = srv_clients srv ! i \<or>
      (srv_clients srv ! i = None \<and> (\<exists>fd. rd_accept rdy = Some fd \<and> srv_clients srv1 ! i = Some (client_create fd)))"
    if "i < MAX_CLIENTS" for i
    using accept_slot [of i srv "rd_accept rdy"] that len by (simp add: srv1_def)
  have quiet: "fd \<notin> set reads \<and> fd \<notin> set writes" if "rd_accept rdy = Some fd" for fd
    using new [OF that] sets(2) collect_fds_writes [OF sets(1)] by (auto simp: reads_def writes_def client_fds_def)
  show ?thesis
  proof (rule that [of reads writes srv1])
    show calm1: "calm srv1" using calm_accept [OF calm] new calm by (simp add: srv1_def)
    show "\<forall>i < MAX_CLIENTS. \<forall>c. srv_clients srv ! i = Some c \<longrightarrow> srv_clients srv1 ! i = Some c"
      using slot by fastforce
    have mem: "Some c \<in> set (srv_clients srv)" if "i < MAX_CLIENTS" "srv_clients srv ! i = Some c" for i c
      using nth_mem [of i "srv_clients srv"] len that by simp
    show "\<forall>i < MAX_CLIENTS. slot_input K rdy reads (srv_clients srv1 ! i) (reqs ! i)"
    proof (intro allI impI)
      fix i :: nat
      assume i: "i < MAX_CLIENTS"
      have reading: "c_fd c \<in> set reads \<longleftrightarrow> c_fd c \<in> set (rd_read rdy)" if "srv_clients srv ! i = Some c" for c
        using mem [OF i that] sets(2) by (auto simp: reads_def client_fds_def)
      have "slot_input K rdy (rd_read rdy) (srv_clients srv ! i) (reqs ! i)" using input i by (simp add: round_input_def)
      from slot_input_reads [OF this reading] show "slot_input K rdy reads (srv_clients srv1 ! i) (reqs ! i)"
        using slot [OF i] quiet by (auto simp: slot_input_def split: option.splits if_splits)
    qed
    show "\<forall>i < MAX_CLIENTS. \<forall>c. srv_clients srv1 ! i = Some c \<longrightarrow> honest c \<and> (c_fd c \<in> set writes \<longrightarrow> pending c \<noteq> [])"
    proof (intro allI impI conjI)
      fix i c
      assume c: "i < MAX_CLIENTS" "srv_clients srv1 ! i = Some c"
      show "honest c" using calm1 c nth_mem [of i "srv_clients srv1"] by (auto simp: calm_def table_ok_def)
      assume w: "c_fd c \<in> set writes"
      then have "srv_clients srv ! i = Some c" using slot [OF c(1)] c(2) quiet by auto
      with w mem [OF c(1)] calm show "pending c \<noteq> []"
        by (intro writers_pending [OF _ sets(1)]) (auto simp: calm_def writes_def)
    qed
  qed (use sets(1) listen in \<open>auto simp: server_round_def FD_SET_def Let_def reads_def writes_def srv1_def\<close>)
qed

context db_keys
begin

lemma commands_refine:
  assumes "in_step t (w_db w) m" "spec_commands t m wss = Some (m', vs)"
    and "\<forall>ws \<in> set wss. value_ok (request ws) \<and> set (command_keys ws) \<subseteq> K"
  shows "\<exists>db'. exec_all (\<lambda>_. t) env n w (map request wss) = Inr (w\<lparr>w_db := db'\<rparr>, concat (map encode vs)) \<and> in_step t db' m'"
  using assms
proof (induction wss arbitrary: n w m vs)
  case Nil
  then show ?case by (intro exI [of _ "w_db w"]) simp
next
  case (Cons ws wss)
  from Cons.prems(2) obtain m1 v vs1 where spec: "command_spec t m ws = Some (m1, v)" "spec_commands t m1 wss = Some (m', vs1)"
      "vs = v # vs1" by (auto split: bind_splits)
  have "\<forall>s \<in> set ws. cstr_ok s" using Cons.prems(3) by (auto simp: request_def list_all_iff)
  then have "reaches t w m1 v resp_buf_init (command_execute (\<lambda>_. t) (env n) w (Some (request ws)) resp_buf_init)"
    by (intro execute_refines [OF _ _ _ _ spec(1)]) (use Cons.prems in auto)
  then obtain db1 rb1 where one: "command_execute (\<lambda>_. t) (env n) w (Some (request ws)) resp_buf_init = Inr (w\<lparr>w_db := db1\<rparr>, rb1)"
      "in_step t db1 m1" "rb_data rb1 = encode v"
    by (auto simp: reaches_def appends_def reply_with_def)
  with Cons.IH [of "w\<lparr>w_db := db1\<rparr>" m1 vs1 "Suc n"] spec(2,3) Cons.prems(3) show ?case by auto
qed

lemma client_answered:
  assumes honest: "\<And>c. srv_clients srv ! i = Some c \<Longrightarrow> honest c \<and> (c_fd c \<in> set writes \<longrightarrow> pending c \<noteq> [])"
    and i: "i < length (srv_clients srv)" and input: "slot_input K rdy reads (srv_clients srv ! i) wss"
    and s: "in_step t (w_db (srv_world srv)) m" and spec: "spec_commands t m wss = Some (m', vs)"
  shows "\<exists>srv' net. serve_client (\<lambda>_. t) rdy reads writes i srv = Inr srv' \<and> only_slot i srv srv' \<and> running srv' = running srv \<and>
    in_step t (w_db (srv_world srv')) m' \<and> srv_net srv' = srv_net srv @ net \<and> fst ` set net \<subseteq> slot_fds (srv_clients srv ! i) \<and>
    slot_answered (lost rdy reads writes) (srv_clients srv ! i) net (srv_clients srv' ! i) vs"
proof (cases "srv_clients srv ! i")
  case None
  with input spec s show ?thesis
    by (intro exI [of _ srv] exI [of _ "[]"]) (simp add: serve_client_def slot_input_def only_slot_def slot_answered_def)
next
  case (Some c)
  note h = honest [OF Some]
  have fd: "FD_ISSET (c_fd c) reads = Inr (c_fd c \<in> set reads)" using h by (simp add: FD_ISSET_def honest_def)
  consider "c_fd c \<notin> set reads" | "recv_fails rdy reads c" | "c_fd c \<in> set reads" "\<not> recv_fails rdy reads c" by blast
  then show ?thesis
  proof cases
    case 1
    with input spec Some have none: "m' = m" "vs = []" by (auto simp: slot_input_def)
    from write_answered [of c i srv writes rdy] h i Some obtain srv' net where
      "serve_write rdy writes i c srv = Inr srv'" "only_slot i srv srv'" "srv_world srv' = srv_world srv"
      "srv_net srv' = srv_net srv @ net" "fst ` set net \<subseteq> {c_fd c}"
      "slot_answered (send_fails rdy writes) (Some c) net (srv_clients srv' ! i) []" by blast
    with 1 Some fd s none show ?thesis
      by (intro exI [of _ srv'] exI [of _ net])
         (auto simp: serve_client_def running_def slot_fds_def slot_answered_def lost_def split: option.splits)
  next
    case 2
    then have "client_recv (rd_recv rdy (c_fd c)) c = None" by (auto simp: recv_fails_def client_recv_def)
    with 2 input spec Some fd s i show ?thesis
      by (intro exI [of _ "server_remove_client srv i"] exI [of _ "[]"])
         (auto simp: serve_client_def slot_input_def server_remove_client_def running_def only_slot_def slot_answered_def lost_def recv_fails_def)
  next
    case 3
    then obtain bytes where bytes: "rd_recv rdy (c_fd c) = Some bytes" "bytes \<noteq> []" by (auto simp: recv_fails_def)
    with input 3 Some have arr: "arrives K c bytes wss" by (simp add: slot_input_def)
    then obtain p where p: "partial p" "received c @ bytes = concat (map (encode \<circ> request) wss) @ p" by (auto simp: arrives_def)
    obtain c1 where c1: "client_recv (Some bytes) c = Some c1" "fresh_tail c1" "received c1 = received c @ bytes"
        "pending c1 = pending c" "c_fd c1 = c_fd c"
      by (rule recv_all [of c bytes]) (use h arr in \<open>auto simp: honest_def arrives_def\<close>)
    obtain db' where db': "exec_all (\<lambda>_. t) (rd_io rdy (c_fd c)) 0 (srv_world srv) (map request wss) =
        Inr ((srv_world srv)\<lparr>w_db := db'\<rparr>, concat (map encode vs))" "in_step t db' m'"
      using commands_refine [OF s spec] arr unfolding arrives_def by blast
    have "served c1 p (exec_all (\<lambda>_. t) (rd_io rdy (c_fd c)) 0 (srv_world srv) (map request wss))
        (process_client_input (\<lambda>_. t) (rd_io rdy (c_fd c)) 0 (srv_world srv) c1)"
      by (rule process_stream [OF _ p(1) c1(2)]) (use arr p(2) c1(3) in \<open>simp_all add: arrives_def list_all_iff\<close>)
    then obtain c2 where c2: "process_client_input (\<lambda>_. t) (rd_io rdy (c_fd c)) 0 (srv_world srv) c1 = Inr ((srv_world srv)\<lparr>w_db := db'\<rparr>, c2)"
        "fresh_tail c2" "received c2 = p" "pending c2 = pending c @ concat (map encode vs)" "c_fd c2 = c_fd c"
      using db'(1) c1(4,5) by (auto simp: served_def)
    let ?srv = "srv\<lparr>srv_world := (srv_world srv)\<lparr>w_db := db'\<rparr>, srv_clients := (srv_clients srv)[i := Some c2]\<rparr>"
    have "honest c2" "c_fd c2 \<in> set writes \<longrightarrow> pending c2 \<noteq> []" using h c2 p(1) by (auto simp: honest_def)
    with write_answered [of c2 i ?srv writes rdy] i obtain srv' net where
      srv': "serve_write rdy writes i c2 ?srv = Inr srv'" "only_slot i ?srv srv'" "srv_world srv' = srv_world ?srv"
      "srv_net srv' = srv_net srv @ net" "fst ` set net \<subseteq> {c_fd c}"
      "slot_answered (send_fails rdy writes) (Some c2) net (srv_clients srv' ! i) []" using c2(5) by auto
    have "serve_client (\<lambda>_. t) rdy reads writes i srv = Inr srv'"
      using Some fd 3 bytes(1) c1(1) c2(1) srv'(1) by (simp add: serve_client_def)
    with srv' db'(2) c2 Some show ?thesis
      by (intro exI [of _ srv'] exI [of _ net])
         (auto simp: only_slot_def running_def slot_fds_def slot_answered_def lost_def send_fails_def split: option.splits)
  qed
qed

text \<open>The slots in turn; no other slot changes.\<close>

lemma clients_answered:
  assumes "distinct is" "\<forall>i \<in> set is. i < length (srv_clients srv)"
    and "\<forall>i \<in> set is. \<forall>j \<in> set is. i \<noteq> j \<longrightarrow> slot_fds (srv_clients srv ! i) \<inter> slot_fds (srv_clients srv ! j) = {}"
    and "\<forall>i \<in> set is. \<forall>c. srv_clients srv ! i = Some c \<longrightarrow> honest c \<and> (c_fd c \<in> set writes \<longrightarrow> pending c \<noteq> [])"
    and "list_all2 (\<lambda>i. slot_input K rdy reads (srv_clients srv ! i)) is reqs"
    and "in_step t (w_db (srv_world srv)) m" "spec_slots t m reqs = Some (m', vss)"
  shows "\<exists>srv' net. serve_clients (\<lambda>_. t) rdy reads writes is srv = Inr srv' \<and> srv_listen_fd srv' = srv_listen_fd srv \<and> running srv' = running srv \<and>
    (\<forall>j. j \<notin> set is \<longrightarrow> srv_clients srv' ! j = srv_clients srv ! j) \<and>
    in_step t (w_db (srv_world srv')) m' \<and> srv_net srv' = srv_net srv @ net \<and>
    fst ` set net \<subseteq> (\<Union>i \<in> set is. slot_fds (srv_clients srv ! i)) \<and>
    list_all2 (\<lambda>i. slot_answered (lost rdy reads writes) (srv_clients srv ! i) net (srv_clients srv' ! i)) is vss"
  using assms
proof (induction "is" arbitrary: srv m reqs vss)
  case Nil
  then show ?case by (intro exI [of _ srv] exI [of _ "[]"]) simp
next
  case (Cons i "is")
  from Cons.prems(5) obtain wss reqs1 where reqs: "reqs = wss # reqs1" "slot_input K rdy reads (srv_clients srv ! i) wss"
      "list_all2 (\<lambda>i. slot_input K rdy reads (srv_clients srv ! i)) is reqs1" by (cases reqs) auto
  from Cons.prems(7) reqs(1) obtain m1 vs vss1 where spec: "spec_commands t m wss = Some (m1, vs)"
      "spec_slots t m1 reqs1 = Some (m', vss1)" "vss = vs # vss1" by (auto split: bind_splits)
  obtain srv1 net1 where run1: "running srv1 = running srv" and
    one: "serve_client (\<lambda>_. t) rdy reads writes i srv = Inr srv1" "only_slot i srv srv1"
      "in_step t (w_db (srv_world srv1)) m1" "srv_net srv1 = srv_net srv @ net1" "fst ` set net1 \<subseteq> slot_fds (srv_clients srv ! i)"
      "slot_answered (lost rdy reads writes) (srv_clients srv ! i) net1 (srv_clients srv1 ! i) vs"
    using client_answered [where writes = writes, OF _ _ reqs(2) Cons.prems(6) spec(1)] Cons.prems(2,4) by (auto simp: Ball_def)
  have same: "srv_clients srv1 ! j = srv_clients srv ! j" if "j \<in> set is" for j
    using one(2) that Cons.prems(1) by (auto simp: only_slot_def)
  have input: "list_all2 (\<lambda>i. slot_input K rdy reads (srv_clients srv1 ! i)) is reqs1"
    using reqs(3) by (rule list.rel_mono_strong) (simp add: same)
  obtain srv' net2 where run2: "running srv' = running srv1" and
    rest: "serve_clients (\<lambda>_. t) rdy reads writes is srv1 = Inr srv'" "srv_listen_fd srv' = srv_listen_fd srv1"
      "\<forall>j. j \<notin> set is \<longrightarrow> srv_clients srv' ! j = srv_clients srv1 ! j" "in_step t (w_db (srv_world srv')) m'"
      "srv_net srv' = srv_net srv1 @ net2" "fst ` set net2 \<subseteq> (\<Union>i \<in> set is. slot_fds (srv_clients srv1 ! i))"
      "list_all2 (\<lambda>i. slot_answered (lost rdy reads writes) (srv_clients srv1 ! i) net2 (srv_clients srv' ! i)) is vss1"
    using Cons.IH [OF _ _ _ _ input one(3) spec(2)] Cons.prems(1-4) one(2) by (auto simp: same only_slot_def)
  have net2: "fst ` set net2 \<subseteq> (\<Union>i \<in> set is. slot_fds (srv_clients srv ! i))" using rest(6) by (simp add: same)
  have apart: "slot_fds (srv_clients srv ! i) \<inter> slot_fds (srv_clients srv ! j) = {}" if "j \<in> set is" for j
    using Cons.prems(1,3) that by auto
  have "srv_clients srv' ! i = srv_clients srv1 ! i" using rest(3) Cons.prems(1) by simp
  moreover have "bytes_to fd net2 = []" if "fd \<in> slot_fds (srv_clients srv ! i)" for fd
    by (rule bytes_to_other) (use net2 apart that in blast)
  ultimately have "slot_answered (lost rdy reads writes) (srv_clients srv ! i) (net1 @ net2) (srv_clients srv' ! i) vs"
    using one(6) by (auto elim!: slot_answered_net)
  moreover have "list_all2 (\<lambda>i. slot_answered (lost rdy reads writes) (srv_clients srv ! i) (net1 @ net2) (srv_clients srv' ! i)) is vss1"
    using rest(7)
  proof (rule list.rel_mono_strong)
    fix j us
    assume j: "j \<in> set is" and a: "slot_answered (lost rdy reads writes) (srv_clients srv1 ! j) net2 (srv_clients srv' ! j) us"
    have "bytes_to fd net1 = []" if "fd \<in> slot_fds (srv_clients srv ! j)" for fd
      by (rule bytes_to_other) (use one(5) apart [OF j] that in blast)
    with a show "slot_answered (lost rdy reads writes) (srv_clients srv ! j) (net1 @ net2) (srv_clients srv' ! j) us"
      unfolding same [OF j] by (elim slot_answered_net) simp
  qed
  ultimately show ?case
    using one rest run1 run2 net2 spec(3) by (intro exI [of _ srv'] exI [of _ "net1 @ net2"]) (auto simp: only_slot_def)
qed

lemma round_answered:
  assumes calm: "calm srv" and input: "round_input K srv rdy reqs" and s: "in_step t (w_db (srv_world srv)) m" and t: "t \<le> INT64_MAX"
    and spec: "spec_slots t m reqs = Some (m', vss)"
  shows "\<exists>srv' net. server_round (\<lambda>_. t) (SelectReady rdy) srv = Inr (srv', True) \<and> calm srv' \<and> running srv' = running srv \<and>
    in_step t (w_db (srv_world srv')) m' \<and> srv_net srv' = srv_net srv @ net \<and>
    (\<forall>i < MAX_CLIENTS. \<forall>c. srv_clients srv ! i = Some c \<longrightarrow>
      slot_answered (lost rdy (rd_read rdy) (rd_write rdy)) (Some c) net (srv_clients srv' ! i) (vss ! i))"
proof -
  obtain reads writes srv1 where
    round: "\<forall>clk. server_round clk (SelectReady rdy) srv = bindR (serve_clients clk rdy reads writes [0..<MAX_CLIENTS] srv1) (\<lambda>srv2.
       bindR (db_expire_sweep clk (w_db (srv_world srv2))) (\<lambda>db. Inr (srv2\<lparr>srv_world := (srv_world srv2)\<lparr>w_db := db\<rparr>\<rparr>, True)))"
    and srv1: "calm srv1" "srv_world srv1 = srv_world srv" "srv_net srv1 = srv_net srv" "set reads \<subseteq> set (rd_read rdy)" "set writes \<subseteq> set (rd_write rdy)"
    and slots: "\<forall>i < MAX_CLIENTS. slot_input K rdy reads (srv_clients srv1 ! i) (reqs ! i)"
    and clients: "\<forall>i < MAX_CLIENTS. \<forall>c. srv_clients srv1 ! i = Some c \<longrightarrow> honest c \<and> (c_fd c \<in> set writes \<longrightarrow> pending c \<noteq> [])"
    and old: "\<forall>i < MAX_CLIENTS. \<forall>c. srv_clients srv ! i = Some c \<longrightarrow> srv_clients srv1 ! i = Some c"
    by (rule round_setup [OF calm input])
  have len: "length (srv_clients srv1) = MAX_CLIENTS" "length reqs = MAX_CLIENTS"
    using srv1(1) input by (simp_all add: calm_def table_ok_def round_input_def)
  have apart: "slot_fds (srv_clients srv1 ! i) \<inter> slot_fds (srv_clients srv1 ! j) = {}" if "i < MAX_CLIENTS" "j < MAX_CLIENTS" "i \<noteq> j" for i j
    using srv1(1) len(1) that by (auto simp: calm_def distinct_fds_def slot_fds_def split: option.splits)
  have all: "list_all2 (\<lambda>i. slot_input K rdy reads (srv_clients srv1 ! i)) [0..<MAX_CLIENTS] reqs"
    by (intro list_all2_all_nthI) (simp_all add: len slots)
  obtain srv2 net where run: "serve_clients (\<lambda>_. t) rdy reads writes [0..<MAX_CLIENTS] srv1 = Inr srv2" "srv_listen_fd srv2 = srv_listen_fd srv1"
      "running srv2 = running srv1" "in_step t (w_db (srv_world srv2)) m'" "srv_net srv2 = srv_net srv1 @ net"
      "list_all2 (\<lambda>i. slot_answered (lost rdy reads writes) (srv_clients srv1 ! i) net (srv_clients srv2 ! i)) [0..<MAX_CLIENTS] vss"
    using clients_answered [OF distinct_upt _ _ _ all, where writes = writes and t = t and m = m and m' = m' and vss = vss]
      srv1 len s spec apart clients by auto
  have answered: "slot_answered (lost rdy reads writes) (srv_clients srv1 ! i) net (srv_clients srv2 ! i) (vss ! i)"
    if "i < MAX_CLIENTS" for i using list_all2_nthD [OF run(6), of i] that by simp
  have "table_ok srv2" by (rule serve_clients_table [OF run(1)]) (use srv1(1) in \<open>simp_all add: calm_def\<close>)
  from calm_slots [OF srv1(1) this run(2) answered] have calm2: "calm srv2" .
  obtain db' where sweep: "db_expire_sweep (\<lambda>_. t) (w_db (srv_world srv2)) = Inr db'" "in_step t db' m'"
    using event_in_step [OF run(4) t, of Sweep m' RDone] by auto
  have "slot_answered (lost rdy (rd_read rdy) (rd_write rdy)) (Some c) net (srv_clients srv2 ! i) (vss ! i)"
    if "i < MAX_CLIENTS" "srv_clients srv ! i = Some c" for i c
    using answered [OF that(1)] old that srv1(4,5)
    by (auto simp: slot_answered_def lost_def recv_fails_def send_fails_def split: option.splits)
  then show ?thesis
    using round run(1,3,5) srv1(2,3) sweep calm2
    by (intro exI [of _ "srv2\<lparr>srv_world := (srv_world srv2)\<lparr>w_db := db'\<rparr>\<rparr>"] exI [of _ net]) (simp add: running_def calm_def)
qed

text \<open>The first of several rounds.\<close>

lemma first_round:
  assumes calm: "calm srv" "running srv" and input: "rounds_input K t0 srv ((t, rdy, reqs) # rounds)" and s: "in_step t0 (w_db (srv_world srv)) m"
    and "spec_rounds m ((t, rdy, reqs) # rounds) = Some (m', vsss)"
  obtains srv1 m1 vss vsss1 where "\<forall>rs. run_rounds srv ((t, rdy, reqs) # rs) = run_rounds srv1 rs" "calm srv1" "running srv1"
    "rounds_input K t srv1 rounds" "in_step t (w_db (srv_world srv1)) m1" "spec_rounds m1 rounds = Some (m', vsss1)" "vsss = vss # vsss1"
    "\<forall>i < MAX_CLIENTS. \<forall>c. srv_clients srv ! i = Some c \<longrightarrow> \<not> lost rdy (rd_read rdy) (rd_write rdy) c \<longrightarrow> got_replies srv srv1 i c (vss ! i)"
proof -
  from assms(5) obtain m1 vss vsss1 where spec: "spec_slots t m reqs = Some (m1, vss)" "spec_rounds m1 rounds = Some (m', vsss1)"
      "vsss = vss # vsss1" by (auto split: bind_splits)
  have t: "t0 \<le> t" "t \<le> INT64_MAX" "round_input K srv rdy reqs" using input by simp_all
  obtain srv1 net where one: "server_round (\<lambda>_. t) (SelectReady rdy) srv = Inr (srv1, True)" "calm srv1" "running srv1"
      "in_step t (w_db (srv_world srv1)) m1" "srv_net srv1 = srv_net srv @ net"
      "\<forall>i < MAX_CLIENTS. \<forall>c. srv_clients srv ! i = Some c \<longrightarrow>
        slot_answered (lost rdy (rd_read rdy) (rd_write rdy)) (Some c) net (srv_clients srv1 ! i) (vss ! i)"
    using round_answered [OF calm(1) t(3) in_step_later [OF s t(1)] t(2) spec(1)] calm(2) by blast
  have "got_replies srv srv1 i c (vss ! i)"
    if "i < MAX_CLIENTS" "srv_clients srv ! i = Some c" "\<not> lost rdy (rd_read rdy) (rd_write rdy) c" for i c
  proof (rule slot_answered_got [OF _ _ one(5)])
    show "slot_answered (lost rdy (rd_read rdy) (rd_write rdy)) (Some c) net (srv_clients srv1 ! i) (vss ! i)"
      using one(6) that(1,2) by blast
  qed (rule that(3))
  then have "\<forall>i < MAX_CLIENTS. \<forall>c. srv_clients srv ! i = Some c \<longrightarrow> \<not> lost rdy (rd_read rdy) (rd_write rdy) c \<longrightarrow>
      got_replies srv srv1 i c (vss ! i)" by blast
  moreover have "\<forall>rs. run_rounds srv ((t, rdy, reqs) # rs) = run_rounds srv1 rs" using one(1) calm(2) by simp
  moreover have "rounds_input K t srv1 rounds" using one(1) input by simp
  ultimately show ?thesis using one(2,3,4) spec(2,3) by (intro that)
qed

lemma rounds_answered:
  assumes "calm srv" "running srv" "rounds_input K t0 srv rounds" "in_step t0 (w_db (srv_world srv)) m"
    and "spec_rounds m rounds = Some (m', vsss)"
  shows "\<exists>srv'. run_rounds srv rounds = Inr srv' \<and>
    (\<forall>i < MAX_CLIENTS. \<forall>c. srv_clients srv ! i = Some c \<longrightarrow> stays c rounds \<longrightarrow>
      got_replies srv srv' i c (concat (map (\<lambda>vss. vss ! i) vsss)))"
  using assms
proof (induction rounds arbitrary: t0 srv m vsss)
  case Nil
  then show ?case by (simp add: got_replies_def)
next
  case (Cons a rounds)
  obtain t rdy reqs where a: "a = (t, rdy, reqs)" by (cases a)
  obtain srv1 m1 vss vsss1 where one: "\<forall>rs. run_rounds srv ((t, rdy, reqs) # rs) = run_rounds srv1 rs" "calm srv1" "running srv1"
    "rounds_input K t srv1 rounds" "in_step t (w_db (srv_world srv1)) m1" "spec_rounds m1 rounds = Some (m', vsss1)" "vsss = vss # vsss1"
    "\<forall>i < MAX_CLIENTS. \<forall>c. srv_clients srv ! i = Some c \<longrightarrow> \<not> lost rdy (rd_read rdy) (rd_write rdy) c \<longrightarrow> got_replies srv srv1 i c (vss ! i)"
    by (rule first_round [OF Cons.prems [unfolded a]])
  obtain srv' where rest: "run_rounds srv1 rounds = Inr srv'"
      "\<And>i c. i < MAX_CLIENTS \<Longrightarrow> srv_clients srv1 ! i = Some c \<Longrightarrow> stays c rounds \<Longrightarrow>
        got_replies srv1 srv' i c (concat (map (\<lambda>vss. vss ! i) vsss1))"
    using Cons.IH [OF one(2-6)] by blast
  have "got_replies srv srv' i c (concat (map (\<lambda>vss. vss ! i) vsss))"
    if c: "i < MAX_CLIENTS" "srv_clients srv ! i = Some c" "stays c (a # rounds)" for i c
  proof -
    have first: "got_replies srv srv1 i c (vss ! i)" using one(8) c by (simp add: stays_def a)
    then obtain c1 where c1: "srv_clients srv1 ! i = Some c1" "c_fd c1 = c_fd c" by (auto simp: got_replies_def)
    have "stays c1 rounds" using c(3) c1(2) by (auto simp: stays_def lost_def recv_fails_def send_fails_def)
    from got_replies_trans [OF first c1(1) rest(2) [OF c(1) c1(1) this]] show ?thesis by (simp add: one(7))
  qed
  with one(1) rest(1) show ?case by (auto simp: a)
qed

lemma rounds_later:
  assumes "calm srv" "running srv" "rounds_input K t0 srv (before @ after)" "in_step t0 (w_db (srv_world srv)) m"
    and "spec_rounds m (before @ after) = Some (m', vsss)"
  shows "\<exists>srv1 t1 m1. run_rounds srv before = Inr srv1 \<and> calm srv1 \<and> running srv1 \<and> rounds_input K t1 srv1 after \<and>
    in_step t1 (w_db (srv_world srv1)) m1 \<and> spec_rounds m1 after = Some (m', drop (length before) vsss)"
  using assms
proof (induction before arbitrary: t0 srv m vsss)
  case Nil
  then show ?case by fastforce
next
  case (Cons a before)
  obtain t rdy reqs where a: "a = (t, rdy, reqs)" by (cases a)
  obtain srv1 m1 vss vsss1 where one: "\<forall>rs. run_rounds srv ((t, rdy, reqs) # rs) = run_rounds srv1 rs" "calm srv1" "running srv1"
    "rounds_input K t srv1 (before @ after)" "in_step t (w_db (srv_world srv1)) m1" "spec_rounds m1 (before @ after) = Some (m', vsss1)"
    "vsss = vss # vsss1"
    by (rule first_round [OF Cons.prems [unfolded a append_Cons]])
  from Cons.IH [OF one(2-6)] one(1,7) show ?case by (simp add: a del: run_rounds.simps)
qed

end

section \<open>Property\<close>

definition started_server :: "server \<Rightarrow> server" where
  "started_server srv = srv\<lparr>srv_world := (srv_world srv)\<lparr>w_running := Some True\<rparr>\<rparr>"

text \<open>C1: a server that was started on an empty database answers all of its clients as one store does that executes their
  requests one after the other: over any rounds of the event loop, with new connections, lost ones, requests cut
  into pieces and partial sends, the requests that become complete in a round are executed slot by slot, and each
  client that stays connected from some round on is sent - or still has pending - exactly the replies of the store to its
  own requests, in their order, if the hashes of the keys differ modulo 64 and nothing overflows.\<close>

theorem server_answers_as_store:
  assumes "spread K" "0 \<le> t0" "db_create (\<lambda>_. t0) = Inr db0"
    and "server_listen la (server_create db0 d port) = (srv, 0)" "fd_ok (srv_listen_fd srv)"
    and "rounds_input K t0 (started_server srv) (before @ after)"
    and "spec_rounds Map.empty (before @ after) = Some (m, vsss)"
  shows "\<exists>srv1 srv2. run_rounds (started_server srv) before = Inr srv1 \<and> run_rounds srv1 after = Inr srv2 \<and>
    (\<forall>i < MAX_CLIENTS. \<forall>c. srv_clients srv1 ! i = Some c \<longrightarrow> stays c after \<longrightarrow>
      got_replies srv1 srv2 i c (concat (map (\<lambda>vss. vss ! i) (drop (length before) vsss))))"
proof -
  have db0: "db0 = \<lparr>db_ht = empty_table 64, last_expire_sweep = t0, db_ticks = 1\<rparr>"
    using assms(3) by (auto simp: db_create_def ht_create_64 imdb_mstime_def)
  have s: "keyed_db.in_step K t0 db0 Map.empty"
    using assms(1,2) by (simp add: db0 keyed_db.in_step_def homed_empty db_view_def ht_map_empty_table)
  have srv: "srv_clients srv = replicate MAX_CLIENTS None" "srv_client_count srv = 0" "w_db (srv_world srv) = db0"
    using assms(4) by (auto simp: server_listen_def server_create_def Let_def split: if_splits)
  have "calm (started_server srv)" "running (started_server srv)"
    using srv(1,2) assms(5) by (simp_all add: calm_def started_server_def running_def table_ok_def distinct_fds_def)
  then obtain srv1 t1 m1 where mid: "run_rounds (started_server srv) before = Inr srv1" "calm srv1" "running srv1" "rounds_input K t1 srv1 after"
      "keyed_db.in_step K t1 (w_db (srv_world srv1)) m1" "spec_rounds m1 after = Some (m, drop (length before) vsss)"
    using keyed_db.rounds_later [OF _ _ assms(6) _ assms(7)] s srv(3) by (auto simp: started_server_def)
  with keyed_db.rounds_answered [OF mid(2-6)] show ?thesis by blast
qed

text \<open>A client connects, stores a number and increments it in one piece, and gets the replies in a later round.\<close>

definition sample_rounds :: "round list" where
  "sample_rounds =
     (let rdy = \<lparr>rd_read = [], rd_write = [], rd_accept = None, rd_recv = \<lambda>fd. None, rd_send = \<lambda>fd. Some 100, rd_io = \<lambda>fd n. fail_io\<rparr>;
          cmds = [[''SET'', ''a'', ''5''], [''INCR'', ''a'']];
          bytes = concat (map (encode \<circ> request) cmds) in
      [(10, rdy\<lparr>rd_read := [3], rd_accept := Some 4\<rparr>, replicate MAX_CLIENTS []),
       (20, rdy\<lparr>rd_read := [4], rd_recv := \<lambda>fd. Some bytes\<rparr>, cmds # replicate 1023 []),
       (30, rdy\<lparr>rd_write := [4]\<rparr>, replicate MAX_CLIENTS [])])"

lemma spec_slots_idle: "spec_slots t m (replicate n []) = Some (m, replicate n [])"
  by (induction n) auto

lemma sample_commands:
  "\<exists>m. spec_commands 20 Map.empty [[''SET'', ''a'', ''5''], [''INCR'', ''a'']] = Some (m, [RESP_SIMPLE_STRING ''OK'', RESP_INTEGER 6])"
proof -
  have "obj_of_value (Some ''5'') = OBJ_INT 5"
    by (simp add: obj_of_value_def obj_create_int_def obj_try_parse_int_def strtoll_def split_sign_def c_isspace_def
        c_isdigit_def digits_val_def digit_val_def INT64_MIN_def INT64_MAX_def Let_def)
  then show ?thesis
    by (simp add: command_spec_def data_command_def data_table_def same_word_def c_tolower_def sem_set_def sem_incr_def one_key_def
        key_step_def key_spec_def shown_def live_def obj_number_def in_int64_def INT64_MIN_def INT64_MAX_def Let_def)
qed

lemma sample_wire:
  "value_ok (request [''SET'', ''a'', ''5''])" "value_ok (request [''INCR'', ''a''])"
  "command_keys [''SET'', ''a'', ''5''] = [''a'']" "command_keys [''INCR'', ''a''] = [''a'']"
  "encode (request [''SET'', ''a'', ''5'']) = ''*3'' @ CRLF @ ''$3'' @ CRLF @ ''SET'' @ CRLF @ ''$1'' @ CRLF @ ''a'' @ CRLF @ ''$1'' @ CRLF @ ''5'' @ CRLF"
  "encode (request [''INCR'', ''a'']) = ''*2'' @ CRLF @ ''$4'' @ CRLF @ ''INCR'' @ CRLF @ ''$1'' @ CRLF @ ''a'' @ CRLF"
proof -
  have "dec_nat (Suc 0) = ''1''" "dec_nat (Suc (Suc 0)) = ''2''" "dec_nat (Suc (Suc (Suc 0))) = ''3''"
    "dec_nat (Suc (Suc (Suc (Suc 0)))) = ''4''" by code_simp+
  then show
    "encode (request [''SET'', ''a'', ''5'']) = ''*3'' @ CRLF @ ''$3'' @ CRLF @ ''SET'' @ CRLF @ ''$1'' @ CRLF @ ''a'' @ CRLF @ ''$1'' @ CRLF @ ''5'' @ CRLF"
    "encode (request [''INCR'', ''a'']) = ''*2'' @ CRLF @ ''$4'' @ CRLF @ ''INCR'' @ CRLF @ ''$1'' @ CRLF @ ''a'' @ CRLF"
    by (simp_all add: request_def)
qed (simp_all add: request_def cstr_ok_def NUL_def INT32_MAX_def command_keys_def data_command_def data_table_def same_word_def
    c_tolower_def second_word_def)

lemma serve_idle:
  "(\<And>i c. i \<in> set is \<Longrightarrow> srv_clients srv ! i = Some c \<Longrightarrow> fd_ok (c_fd c) \<and> c_fd c \<notin> set reads \<and> c_fd c \<notin> set writes) \<Longrightarrow>
   serve_clients clk rdy reads writes is srv = Inr srv"
proof (induction "is")
  case (Cons i "is")
  from Cons.prems [of i] have "serve_client clk rdy reads writes i srv = Inr srv"
    by (cases "srv_clients srv ! i") (auto simp: serve_client_def serve_write_def FD_ISSET_def)
  moreover have "serve_clients clk rdy reads writes is srv = Inr srv" by (rule Cons.IH) (use Cons.prems in force)
  ultimately show ?case by simp
qed simp

lemma sample_accepted:
  assumes "srv_clients srv = replicate MAX_CLIENTS None" "srv_client_count srv = 0" "srv_listen_fd srv = 3"
    and "last_expire_sweep (w_db (srv_world srv)) = 0" "rd_read rdy = [3]" "rd_accept rdy = Some 4"
  shows "\<exists>srv1. server_round (\<lambda>_. 10) (SelectReady rdy) srv = Inr (srv1, True) \<and> srv_listen_fd srv1 = 3 \<and>
    srv_clients srv1 = Some (client_create 4) # replicate 1023 None"
proof -
  have none: "collect_fds (replicate n None) sets = Inr sets" for n sets by (induction n) auto
  have rep: "replicate MAX_CLIENTS None = None # replicate 1023 (None :: client option)" by (simp add: MAX_CLIENTS_def flip: replicate_Suc)
  let ?srv = "srv\<lparr>srv_clients := Some (client_create 4) # replicate 1023 None, srv_client_count := 1\<rparr>"
  have "serve_clients (\<lambda>_. 10) rdy [3] [] [0..<MAX_CLIENTS] ?srv = Inr ?srv"
    by (rule serve_idle) (auto simp: MAX_CLIENTS_def nth_Cons fd_ok_def FD_SETSIZE_def split: nat.splits if_splits)
  moreover have "server_accept (Some 4) srv = ?srv" using assms(1,2) by (simp add: server_accept_def rep) (simp add: MAX_CLIENTS_def)
  moreover have "collect_fds (srv_clients srv) ([3], []) = Inr ([3], [])" using none assms(1) by simp
  ultimately show ?thesis
    using assms(3-6) by (simp add: server_round_def FD_SET_def fd_ok_def FD_SETSIZE_def db_expire_sweep_def imdb_mstime_def int64_def
        in_int64_def INT64_MIN_def INT64_MAX_def EXPIRE_SWEEP_INTERVAL_def)
qed

lemma sample_spec:
  "\<exists>m. spec_rounds Map.empty sample_rounds =
     Some (m, [replicate MAX_CLIENTS [], [RESP_SIMPLE_STRING ''OK'', RESP_INTEGER 6] # replicate 1023 [], replicate MAX_CLIENTS []])"
proof -
  obtain m where m: "spec_commands 20 Map.empty [[''SET'', ''a'', ''5''], [''INCR'', ''a'']] = Some (m, [RESP_SIMPLE_STRING ''OK'', RESP_INTEGER 6])"
    using sample_commands by blast
  have "spec_slots 20 Map.empty ([[''SET'', ''a'', ''5''], [''INCR'', ''a'']] # replicate 1023 []) =
      Some (m, [RESP_SIMPLE_STRING ''OK'', RESP_INTEGER 6] # replicate 1023 [])"
    by (simp only: spec_slots_idle spec_slots.simps m) simp
  then show ?thesis by (simp add: sample_rounds_def Let_def spec_slots_idle del: spec_slots.simps spec_commands.simps)
qed

theorem server_answers_as_store_witness:
  "\<exists>srv0 srv1 srv2 c. run_rounds srv0 (take 1 sample_rounds) = Inr srv1 \<and> run_rounds srv1 (drop 1 sample_rounds) = Inr srv2 \<and>
    srv_clients srv1 ! 0 = Some c \<and> got_replies srv1 srv2 0 c [RESP_SIMPLE_STRING ''OK'', RESP_INTEGER 6]"
proof -
  obtain db0 where db0: "db_create (\<lambda>_. 0) = Inr db0" "last_expire_sweep db0 = 0" by (auto simp: db_create_def ht_create_64 imdb_mstime_def int64_def)
  obtain srv where srv: "server_listen \<lparr>la_socket = 3, la_bind = \<lambda>port. True, la_listen = True\<rparr> (server_create db0 Map.empty 6399) = (srv, 0)"
      "srv_clients srv = replicate MAX_CLIENTS None" "srv_client_count srv = 0" "srv_listen_fd srv = 3" "w_db (srv_world srv) = db0"
    by (simp add: server_listen_def server_create_def INVALID_SOCK_def Let_def)
  let ?srv = "started_server srv"
  have running: "running ?srv" by (simp add: started_server_def running_def)
  have K: "spread {''a''}" by (simp add: spread_def)
  define cmds where "cmds = [[''SET'', ''a'', ''5''], [''INCR'', ''a'']]"
  obtain r1 r2 r3 where rounds: "sample_rounds = [(10, r1, replicate MAX_CLIENTS []), (20, r2, cmds # replicate 1023 []), (30, r3, replicate MAX_CLIENTS [])]"
    and r1: "rd_read r1 = [3]" "rd_accept r1 = Some 4"
    and r2: "rd_read r2 = [4]" "rd_accept r2 = None" "rd_write r2 = []" "rd_recv r2 4 = Some (concat (map (encode \<circ> request) cmds))"
    and r3: "rd_read r3 = []" "rd_accept r3 = None" "rd_send r3 4 = Some 100"
    by (simp add: sample_rounds_def cmds_def Let_def del: encode.simps)
  obtain srv1 where srv1: "server_round (\<lambda>_. 10) (SelectReady r1) ?srv = Inr (srv1, True)" "srv_listen_fd srv1 = 3"
      "srv_clients srv1 = Some (client_create 4) # replicate 1023 None"
    using sample_accepted [of ?srv r1] srv(2-5) db0(2) r1 by (auto simp: started_server_def)
  have bytes: "concat (map (encode \<circ> request) cmds) \<noteq> []" "length (concat (map (encode \<circ> request) cmds)) < CLIENT_BUF_SIZE"
    by (simp_all add: cmds_def sample_wire CLIENT_BUF_SIZE_def del: encode.simps)
  then have arr: "arrives {''a''} (client_create 4) (concat (map (encode \<circ> request) cmds)) cmds"
    by (simp add: arrives_def client_create_def received_def) (simp add: cmds_def sample_wire)
  have in1: "round_input {''a''} ?srv r1 (replicate MAX_CLIENTS [])"
    using srv(2,4) r1 by (auto simp: round_input_def client_fds_def slot_input_def started_server_def fd_ok_def FD_SETSIZE_def)
  have "slot_input {''a''} r2 [4] (srv_clients srv1 ! i) ((cmds # replicate 1023 []) ! i)" if "i < MAX_CLIENTS" for i
    using arr bytes(1) r2 that by (cases i) (simp_all add: srv1(3) slot_input_def recv_fails_def MAX_CLIENTS_def)
  then have in2: "round_input {''a''} srv1 r2 (cmds # replicate 1023 [])"
    using r2 by (simp add: round_input_def MAX_CLIENTS_def)
  have in3: "round_input {''a''} s r3 (replicate MAX_CLIENTS [])" for s
    using r3 by (auto simp: round_input_def slot_input_def split: option.splits)
  have input: "rounds_input {''a''} 0 ?srv (take 1 sample_rounds @ drop 1 sample_rounds)"
    using in1 in2 in3 srv1(1) by (simp add: rounds INT64_MAX_def split: sum.split)
  obtain m where spec: "spec_rounds Map.empty (take 1 sample_rounds @ drop 1 sample_rounds) =
      Some (m, [replicate MAX_CLIENTS [], [RESP_SIMPLE_STRING ''OK'', RESP_INTEGER 6] # replicate 1023 [], replicate MAX_CLIENTS []])"
    using sample_spec by (auto simp del: spec_rounds.simps)
  have "fd_ok (srv_listen_fd srv)" using srv(4) by (simp add: fd_ok_def FD_SETSIZE_def)
  from server_answers_as_store [OF K _ db0(1) srv(1) this input spec] obtain s1 s2 where
    run: "run_rounds ?srv (take 1 sample_rounds) = Inr s1" "run_rounds s1 (drop 1 sample_rounds) = Inr s2"
    and got: "\<And>i c. i < MAX_CLIENTS \<Longrightarrow> srv_clients s1 ! i = Some c \<Longrightarrow> stays c (drop 1 sample_rounds) \<Longrightarrow>
      got_replies s1 s2 i c (concat (map (\<lambda>vss. vss ! i)
        (drop 1 [replicate MAX_CLIENTS [], [RESP_SIMPLE_STRING ''OK'', RESP_INTEGER 6] # replicate 1023 [], replicate MAX_CLIENTS []])))"
    by (auto simp: rounds)
  have "s1 = srv1" using run(1) running srv1(1) by (simp add: rounds)
  moreover have "stays (client_create 4) (drop 1 sample_rounds)"
    using r2 r3 bytes(1) by (simp add: stays_def rounds lost_def recv_fails_def send_fails_def)
  ultimately have "got_replies srv1 s2 0 (client_create 4) [RESP_SIMPLE_STRING ''OK'', RESP_INTEGER 6]"
    using got [of 0 "client_create 4"] by (simp add: srv1(3) MAX_CLIENTS_def)
  moreover have "srv_clients srv1 ! 0 = Some (client_create 4)" by (simp add: srv1(3))
  ultimately show ?thesis using run \<open>s1 = srv1\<close> by blast
qed

end
