(* ===== verification/Startup.thy ===== *)
theory Startup
  imports Server
begin

text \<open>
  \<open>src/main.c\<close>: the options, the start of the server on the data of the dump file, and the handler of
  SIGINT and SIGTERM, which saves and stops. Here signals are taken while the server waits in \<open>select\<close>, in \<open>Process\<close> between
  any two steps; the banner and the other console output have no effect on the state.
\<close>

text \<open>The loop over the arguments behind the program name.\<close>

fun port_of_args :: "string list \<Rightarrow> int \<Rightarrow> int" where
  "port_of_args [] port = port"
| "port_of_args [a] port = port"
| "port_of_args (a # b # args) port =
     (if a = ''--port'' \<or> a = ''-p'' then port_of_args args (atoi b) else port_of_args (b # args) port)"

definition signal_handler :: "io \<Rightarrow> world \<Rightarrow> world res" where
  "signal_handler env w =
     (if w_running w = None then Inr w
      else bindR (persist_save env (w_db w) (w_disk w) dump_name) (\<lambda>(d, r).
           Inr (w\<lparr>w_disk := d, w_running := Some False\<rparr>)))"

text \<open>The handler of the Windows console does the same, in a thread of its own; it is modelled as one step.\<close>

definition console_handler :: "io \<Rightarrow> world \<Rightarrow> (world \<times> bool) res" where
  "console_handler env w =
     (if w_running w = None then Inr (w, True)
      else bindR (persist_save env (w_db w) (w_disk w) dump_name) (\<lambda>(d, r).
           Inr (w\<lparr>w_disk := d, w_running := Some False\<rparr>, True)))"

lemma console_handler_same: "console_handler env w = bindR (signal_handler env w) (\<lambda>w1. Inr (w1, True))"
  by (cases "persist_save env (w_db w) (w_disk w) dump_name") (auto simp: console_handler_def signal_handler_def)

text \<open>
  \<open>main\<close> on a disk, up to the return of \<open>server_run\<close> or the wait for the next \<open>select\<close>. The failure of the
  load is not looked at.
\<close>

definition server_main :: "clock \<Rightarrow> string list \<Rightarrow> disk \<Rightarrow> listen_answers \<Rightarrow> select_result list \<Rightarrow> server res" where
  "server_main clk args d la sels =
     (let port = port_of_args args DEFAULT_PORT in
      bindR (db_create clk) (\<lambda>db.
      bindR (persist_load clk db d dump_name) (\<lambda>(db1, r).
      server_run clk la sels (server_create db1 d port))))"

text \<open>The port is not checked: the server asked to use port 70000 binds port 4464 and says that it listens on 70000.\<close>

lemma large_port_wraps:
  assumes "la_socket la \<noteq> INVALID_SOCK" "la_listen la" "\<And>p. la_bind la p \<longleftrightarrow> p = 4464"
  shows "\<exists>srv. server_listen la (server_create db d 70000) = (srv, 0) \<and> srv_port srv = 70000"
  using assms by (simp add: server_listen_def server_create_def Let_def)

end
