(* ===== verification/Cli.thy ===== *)
theory Cli
  imports Resp
begin

text \<open>
  \<open>cli/cli.c\<close>, the command-line client: its parser of replies, their display, the translation of an input
  line to a request, the loop that receives a reply, and \<open>main\<close>. \<open>find_crlf\<close> is the text of the one in
  \<open>resp.c\<close>. The platform is POSIX (\<open>strndup\<close> of the C library); an allocation of almost 2^64 bytes
  fails. What \<open>recv\<close> returns is an input.
\<close>

definition BUF_SIZE :: nat where "BUF_SIZE = 65536"

section \<open>Replies\<close>

text \<open>An array has its count and the items stored, which are fewer when the count was negative.\<close>

datatype rval =
    R_STRING string
  | R_ERROR string
  | R_INTEGER int
  | R_BULK string
  | R_ARRAY nat "rval list"
  | R_NIL

text \<open>The results 0 and -1 of the parser, and the bytes consumed with the value.\<close>

datatype cli_outcome = CIncomplete | CError | CParsed nat rval

text \<open>The conversion \<open>(size_t)\<close> of an \<open>int\<close>.\<close>

definition size_of_int :: "int \<Rightarrow> nat" where
  "size_of_int n = nat (n mod 2 ^ 64)"

text \<open>The string that \<open>strndup\<close> copies, and the one a bulk reply holds up to its first NUL.\<close>

definition cstr_of :: "string \<Rightarrow> nat \<Rightarrow> string" where
  "cstr_of mem n = takeWhile (\<lambda>c. c \<noteq> NUL) (take n mem)"

lemma takeWhile_take: "takeWhile P (take n xs) = take n (takeWhile P xs)"
  by (induction xs arbitrary: n) (auto simp: take_Cons split: nat.split)

text \<open>
  \<open>my_strndup\<close> of the Windows build looks for the NUL first, wherever it is: with a NUL in the memory it copies the same
  string, and without one it reads on behind the buffer. On other systems \<open>strndup\<close> is the C library's.
\<close>

definition my_strndup :: "string \<Rightarrow> nat \<Rightarrow> string res" where
  "my_strndup mem n =
     (if NUL \<in> set mem
      then (let s = takeWhile (\<lambda>c. c \<noteq> NUL) mem; len = length s in Inr (take (if n < len then n else len) s))
      else Inl OutOfBounds)"

lemma my_strndup_cstr_of: "NUL \<in> set mem \<Longrightarrow> my_strndup mem n = Inr (cstr_of mem n)"
  by (auto simp: my_strndup_def cstr_of_def Let_def takeWhile_take)

lemma my_strndup_overread: "NUL \<notin> set mem \<Longrightarrow> my_strndup mem n = Inl OutOfBounds"
  by (simp add: my_strndup_def)

function parse_resp :: "string \<Rightarrow> nat \<Rightarrow> cli_outcome res"
  and parse_resp_items :: "nat \<Rightarrow> nat \<Rightarrow> string \<Rightarrow> nat \<Rightarrow> nat \<Rightarrow> rval list \<Rightarrow> cli_outcome res" where
  "parse_resp mem len =
     (if len = 0 then Inr CIncomplete
      else case find_crlf (take len mem) of
        None \<Rightarrow> Inr CIncomplete
      | Some line_len \<Rightarrow>
         (let consumed = line_len + 2; c = mem ! 0 in
          if c = CHR ''+'' then Inr (CParsed consumed (R_STRING (cstr_of (drop 1 mem) (line_len - 1))))
          else if c = CHR ''-'' then Inr (CParsed consumed (R_ERROR (cstr_of (drop 1 mem) (line_len - 1))))
          else if c = CHR '':'' then bindR (mem_strtoll (drop 1 mem)) (\<lambda>n. Inr (CParsed consumed (R_INTEGER n)))
          else if c = CHR ''$'' then
            bindR (mem_atoi (drop 1 mem)) (\<lambda>blen.
            if blen = -1 then Inr (CParsed consumed R_NIL)
            else if size_of_int (int consumed + blen + 2) > len then Inr CIncomplete
            else if blen < 0 then Inl NullDeref
            else Inr (CParsed (consumed + nat blen + 2) (R_BULK (cstr_of (drop consumed mem) (nat blen)))))
          else if c = CHR ''*'' then
            bindR (mem_atoi (drop 1 mem)) (\<lambda>cnt.
            if cnt = -1 then Inr (CParsed consumed R_NIL)
            else parse_resp_items (nat cnt) (size_of_int cnt) (drop consumed mem) (len - consumed) consumed [])
          else Inr CError))"
| "parse_resp_items 0 num mem len used items = Inr (CParsed used (R_ARRAY num (rev items)))"
| "parse_resp_items (Suc k) num mem len used items =
     bindR (parse_resp mem len) (\<lambda>r.
     case r of
       CParsed n v \<Rightarrow> parse_resp_items k num (drop n mem) (len - n) (used + n) (v # items)
     | _ \<Rightarrow> Inr r)"
  by pat_completeness auto
termination
  by (relation "inv_image (less_than <*lex*> less_than)
        (case_sum (\<lambda>(mem, len). (len, 0)) (\<lambda>(k, num, mem, len, used, items). (len, Suc k)))")
     auto

declare parse_resp.simps [simp del]

text \<open>\<open>print_resp\<close>: the text printed. An item that was never stored is a null pointer.\<close>

fun print_resp :: "rval \<Rightarrow> nat \<Rightarrow> string res"
  and print_items :: "rval list \<Rightarrow> nat \<Rightarrow> nat \<Rightarrow> nat \<Rightarrow> string res" where
  "print_resp (R_STRING s) indent = Inr (s @ [LF])"
| "print_resp (R_ERROR s) indent = Inr (''(error) '' @ s @ [LF])"
| "print_resp (R_INTEGER n) indent = Inr (''(integer) '' @ dec_int n @ [LF])"
| "print_resp (R_BULK s) indent = Inr ([CHR 0x22] @ s @ [CHR 0x22, LF])"
| "print_resp R_NIL indent = Inr (''(nil)'' @ [LF])"
| "print_resp (R_ARRAY num items) indent =
     (if num = 0 then Inr (''(empty array)'' @ [LF]) else print_items items 0 num indent)"
| "print_items [] i num indent = (if i < num then Inl NullDeref else Inr [])"
| "print_items (v # vs) i num indent =
     (if i < num
      then bindR (print_resp v (indent + 3)) (\<lambda>out.
           bindR (print_items vs (i + 1) num indent) (\<lambda>rest.
           Inr (replicate indent (CHR '' '') @ dec_nat (i + 1) @ '') '' @ out @ rest)))
      else Inr [])"

section \<open>Requests\<close>

text \<open>\<open>tokenize k p\<close> is the loop of \<open>build_command\<close> at \<open>p\<close> with \<open>k\<close> of the 128 places left.\<close>

definition is_blank :: "char \<Rightarrow> bool" where
  "is_blank c \<longleftrightarrow> c = CHR '' '' \<or> c = CHR 0x09"

fun tokenize :: "nat \<Rightarrow> string \<Rightarrow> string list" where
  "tokenize 0 p = []"
| "tokenize (Suc k) p =
     (case dropWhile is_blank p of
        [] \<Rightarrow> []
      | c # q \<Rightarrow>
          if c = CHR 0x22
          then (let start = takeWhile (\<lambda>d. d \<noteq> CHR 0x22) q; rest = dropWhile (\<lambda>d. d \<noteq> CHR 0x22) q
                in start # tokenize k (drop 1 rest))
          else (let start = takeWhile (\<lambda>d. \<not> is_blank d) (c # q); rest = dropWhile (\<lambda>d. \<not> is_blank d) (c # q)
                in start # tokenize k rest))"

definition emit_arg :: "string \<Rightarrow> string" where
  "emit_arg s = ''$'' @ dec_nat (length s) @ CRLF @ s @ CRLF"

text \<open>
  The bytes written to \<open>out\<close> and their number; the copies are not checked against \<open>out_cap\<close>. Without
  arguments the result is 0.
\<close>

definition build_command :: "string \<Rightarrow> nat \<Rightarrow> string res" where
  "build_command line out_cap =
     (let args = tokenize 128 line in
      if args = [] then Inr []
      else (let out = ''*'' @ dec_nat (length args) @ CRLF @ concat (map emit_arg args)
            in if length out \<le> out_cap then Inr out else Inl OutOfBounds))"

section \<open>Sessions\<close>

text \<open>
  \<open>recv_response\<close> for the answers of \<open>recv\<close>: \<open>None\<close> while it waits for the next one, the result -1
  as \<open>Some None\<close>, otherwise the contents of the buffer and the number of bytes received.
\<close>

fun recv_response :: "string \<Rightarrow> nat \<Rightarrow> string option list \<Rightarrow> (string \<times> nat) option option res" where
  "recv_response buf tot answers =
     (if tot < length buf
      then (case answers of
              [] \<Rightarrow> Inr None
            | a # as \<Rightarrow>
                (case a of
                   None \<Rightarrow> Inr (Some None)
                 | Some bytes \<Rightarrow>
                     (let got = take (length buf - tot) bytes; n = length got in
                      if n = 0 then Inr (Some None)
                      else
                        (let buf1 = take tot buf @ got @ drop (tot + n) buf in
                         bindR (parse_resp buf1 (tot + n)) (\<lambda>r.
                         case r of
                           CParsed k v \<Rightarrow> Inr (Some (Some (buf1, tot + n)))
                         | _ \<Rightarrow> recv_response buf1 (tot + n) as)))))
      else Inr (Some (Some (buf, tot))))"

declare recv_response.simps [simp del]

definition trim_newline :: "string \<Rightarrow> string" where
  "trim_newline s = rev (dropWhile (\<lambda>c. c = LF \<or> c = CR) (rev s))"

text \<open>The bytes a line sends to the server.\<close>

definition request_of_line :: "string \<Rightarrow> string res" where
  "request_of_line line = (let l = trim_newline line in if l = [] then Inr [] else build_command l BUF_SIZE)"

text \<open>What is printed for a received reply: nothing if it does not parse.\<close>

definition display_reply :: "string \<Rightarrow> nat \<Rightarrow> string res" where
  "display_reply buf n =
     bindR (parse_resp buf n) (\<lambda>r. case r of CParsed k v \<Rightarrow> print_resp v 0 | _ \<Rightarrow> Inr [])"

text \<open>The test of the client for its last command.\<close>

definition is_shutdown_line :: "string \<Rightarrow> bool" where
  "is_shutdown_line line \<longleftrightarrow> take 8 line = ''SHUTDOWN'' \<or> take 8 line = ''shutdown''"

text \<open>
  The loop of \<open>main\<close> for the lines of the standard input, each with the number of bytes that \<open>send\<close> takes
  (0 for an error) and the answers of \<open>recv\<close> in its turn; \<open>buf\<close> is \<open>recv_buf\<close>. The result has the bytes sent
  and the text displayed for each line, and whether the loop ended or waits in \<open>recv\<close>.
\<close>

fun cli_loop :: "string \<Rightarrow> (string \<times> nat \<times> string option list) list \<Rightarrow> (string list \<times> string list \<times> bool) res" where
  "cli_loop buf [] = Inr ([], [], True)"
| "cli_loop buf ((line, sent, answers) # turns) =
     bindR (request_of_line line) (\<lambda>cmd.
     if cmd = [] then cli_loop buf turns
     else if sent = 0 then Inr ([], [''Connection lost''], True)
     else
       bindR (recv_response buf 0 answers) (\<lambda>r.
       case r of
         None \<Rightarrow> Inr ([take sent cmd], [], False)
       | Some None \<Rightarrow> Inr ([take sent cmd], [''Connection lost''], True)
       | Some (Some (buf1, n)) \<Rightarrow>
           bindR (display_reply buf1 n) (\<lambda>text.
           if is_shutdown_line (trim_newline line) then Inr ([take sent cmd], [text], True)
           else bindR (cli_loop buf1 turns) (\<lambda>(cmds, texts, over). Inr (take sent cmd # cmds, text # texts, over)))))"

text \<open>\<open>fgets\<close> with a buffer of \<open>cap\<close> bytes: the bytes stored and the rest of the input.\<close>

definition fgets :: "nat \<Rightarrow> string \<Rightarrow> (string \<times> string) option" where
  "fgets cap input =
     (if input = [] then None
      else (let chunk = take (cap - 1) input; line = takeWhile (\<lambda>c. c \<noteq> LF) chunk;
                n = (if length line < length chunk then length line + 1 else length chunk)
            in Some (take n input, drop n input)))"

lemma fgets_shorter: "fgets 4096 input = Some (line, rest) \<Longrightarrow> length rest < length input"
  by (cases input) (auto simp: fgets_def Let_def split: if_splits)

text \<open>All lines that the client reads: the strings in \<open>line\<close>, which a NUL byte cuts.\<close>

function input_lines :: "string \<Rightarrow> string list" where
  "input_lines input =
     (case fgets 4096 input of
        None \<Rightarrow> []
      | Some (line, rest) \<Rightarrow> cstr_of line (length line) # input_lines rest)"
  by pat_completeness auto
termination
  by (relation "measure length") (auto dest: fgets_shorter)

declare input_lines.simps [simp del]

section \<open>The start of the client\<close>

text \<open>The options behind the program name: host and port.\<close>

fun cli_options :: "string list \<Rightarrow> string \<times> int \<Rightarrow> string \<times> int" where
  "cli_options [] opts = opts"
| "cli_options [a] opts = opts"
| "cli_options (a # b # args) (host, port) =
     (if a = ''-h'' \<or> a = ''--host'' then cli_options args (b, port)
      else if a = ''-p'' \<or> a = ''--port'' then cli_options args (host, atoi b)
      else cli_options (b # args) (host, port))"

text \<open>\<open>inet_pton\<close> for IPv4: four decimal numbers up to 255 without leading zeros. In network order.\<close>

fun split_dots :: "string \<Rightarrow> string list" where
  "split_dots [] = [[]]"
| "split_dots (c # s) =
     (if c = CHR ''.'' then [] # split_dots s
      else (case split_dots s of [] \<Rightarrow> [[c]] | x # xs \<Rightarrow> (c # x) # xs))"

definition is_octet :: "string \<Rightarrow> bool" where
  "is_octet s \<longleftrightarrow> s \<noteq> [] \<and> length s \<le> 3 \<and> list_all c_isdigit s \<and> (length s > 1 \<longrightarrow> hd s \<noteq> CHR ''0'') \<and> digits_val s \<le> 255"

definition inet_pton :: "string \<Rightarrow> 32 word option" where
  "inet_pton host =
     (let parts = split_dots host in
      if length parts = 4 \<and> list_all is_octet parts
      then Some (foldl (\<lambda>acc s. acc * 256 + word_of_nat (digits_val s)) 0 parts)
      else None)"

text \<open>The answers of \<open>socket\<close>, and of \<open>connect\<close> for an address and a port.\<close>

record connect_answers =
  ca_socket :: int
  ca_connect :: "32 word \<Rightarrow> 16 word \<Rightarrow> bool"

text \<open>
  \<open>main\<close>: the exit status (\<open>None\<close> while it waits), the bytes sent and the text displayed. The result of \<open>inet_pton\<close> is
  not looked at, so that the address stays 0 for a host name. \<open>buf\<close> is what \<open>recv_buf\<close> holds at first.
\<close>

definition cli_main :: "string list \<Rightarrow> connect_answers \<Rightarrow> string \<Rightarrow> string \<Rightarrow> (nat \<Rightarrow> nat \<times> string option list) \<Rightarrow>
    (int option \<times> string list \<times> string list) res" where
  "cli_main args ca buf input answers =
     (let (host, port) = cli_options args (''127.0.0.1'', 6399) in
      if ca_socket ca = -1 then Inr (Some 1, [], [''Cannot create socket''])
      else
        (let addr = (case inet_pton host of None \<Rightarrow> 0 | Some a \<Rightarrow> a) in
         if \<not> ca_connect ca addr (word_of_int port)
         then Inr (Some 1, [], [''Cannot connect to '' @ host @ '':'' @ dec_int port])
         else
           bindR (cli_loop buf (map (\<lambda>(i, line). (line, answers i)) (enumerate 0 (input_lines input)))) (\<lambda>(cmds, texts, over).
           Inr (if over then Some 0 else None, cmds, texts))))"

end
