(* ===== verification/Cli_Props.thy ===== *)
theory Cli_Props
  imports Cli Resp_Props
begin

text \<open>
  The client: its parser is a parser of the wire format and receives every reply that fits into its
  buffer, in any pieces; the requests it builds are the wire format of the words of the line.
\<close>

section \<open>The parser of the wire format\<close>

fun rval_of :: "resp_value \<Rightarrow> rval" where
  "rval_of (RESP_SIMPLE_STRING s) = R_STRING s"
| "rval_of (RESP_ERROR s) = R_ERROR s"
| "rval_of (RESP_INTEGER n) = R_INTEGER n"
| "rval_of (RESP_BULK_STRING s) = R_BULK s"
| "rval_of (RESP_ARRAY vs) = R_ARRAY (length vs) (map rval_of vs)"
| "rval_of RESP_NIL = R_NIL"

lemma parse_resp_line:
  assumes "CR \<notin> set (c # b)" "length b + 3 \<le> len"
  shows "parse_resp (c # b @ CRLF @ r) len =
     (if c = CHR ''+'' then Inr (CParsed (length b + 3) (R_STRING (cstr_of (b @ CRLF @ r) (length b))))
      else if c = CHR ''-'' then Inr (CParsed (length b + 3) (R_ERROR (cstr_of (b @ CRLF @ r) (length b))))
      else if c = CHR '':'' then bindR (mem_strtoll (b @ CRLF @ r)) (\<lambda>n. Inr (CParsed (length b + 3) (R_INTEGER n)))
      else if c = CHR ''$'' then
        bindR (mem_atoi (b @ CRLF @ r)) (\<lambda>blen.
        if blen = -1 then Inr (CParsed (length b + 3) R_NIL)
        else if size_of_int (int (length b + 3) + blen + 2) > len then Inr CIncomplete
        else if blen < 0 then Inl NullDeref
        else Inr (CParsed (length b + 3 + nat blen + 2) (R_BULK (cstr_of r (nat blen)))))
      else if c = CHR ''*'' then
        bindR (mem_atoi (b @ CRLF @ r)) (\<lambda>cnt.
        if cnt = -1 then Inr (CParsed (length b + 3) R_NIL)
        else parse_resp_items (nat cnt) (size_of_int cnt) r (len - (length b + 3)) (length b + 3) [])
      else Inr CError)"
proof -
  have "find_crlf (take len (c # b @ CRLF @ r)) = Some (Suc (length b))"
    using find_crlf_take(1) [OF assms(1), of len r] assms(2) by simp
  moreover have "Suc (length b) + 2 = length b + 3" "len \<noteq> 0" "drop 1 (c # b @ CRLF @ r) = b @ CRLF @ r" "(c # b @ CRLF @ r) ! 0 = c" "Suc (length b) - 1 = length b"
    using assms(2) by simp_all
  moreover have "drop (length b + 3) (c # b @ CRLF @ r) = r" by (simp add: numeral_3_eq_3)
  ultimately show ?thesis
    unfolding parse_resp.simps [of "c # b @ CRLF @ r" len] by (simp only: if_False option.case Let_def)
qed

lemma parse_resp_short_line:
  assumes "CR \<notin> set (c # b)" "len < length b + 3"
  shows "parse_resp (take len (c # b @ CRLF @ r) @ junk) len = Inr CIncomplete"
proof -
  define m where "m = take len (c # b @ CRLF @ r)"
  have "length m = len" using assms(2) by (simp add: m_def)
  then have "take len (m @ junk) = m" by simp
  moreover have "find_crlf m = None"
    using find_crlf_take(2) [OF assms(1), of len r] assms(2) by (simp add: m_def)
  ultimately show ?thesis unfolding m_def [symmetric] by (simp add: parse_resp.simps [of _ len])
qed

lemma cstr_of_exact: "cstr_ok s \<Longrightarrow> cstr_of (s @ r) (length s) = s"
  by (auto simp: cstr_of_def cstr_ok_def)

lemma size_of_int_small: "0 \<le> x \<Longrightarrow> x < 2 ^ 64 \<Longrightarrow> size_of_int x = nat x"
  by (simp add: size_of_int_def)

lemma bulk_size:
  assumes "int n \<le> INT32_MAX" "len < 2 ^ 63" "b \<le> len"
  shows "size_of_int (int b + int n + 2) = b + n + 2"
proof -
  have "int b + int n + 2 < 2 ^ 64" using assms by (simp add: INT32_MAX_def)
  then show ?thesis by (simp add: size_of_int_small nat_add_distrib)
qed

interpretation client_parser: resp_parser parse_resp
  "\<lambda>k mem len used vs. parse_resp_items k (k + length vs) mem len used (map rval_of vs)"
  "\<lambda>n v. CParsed n (rval_of v)" CIncomplete "\<lambda>r. True" "\<lambda>len. len < 2 ^ 63"
proof (unfold_locales, goal_cases)
  case (1 c b len r junk)
  then show ?case by (rule parse_resp_short_line)
next
  case (2 s r len)
  then show ?case by (subst parse_resp_line) (auto simp: line_ok_def cstr_of_exact cstr_ok_def simp del: append.simps)
next
  case (3 s r len)
  then show ?case by (subst parse_resp_line) (auto simp: line_ok_def cstr_of_exact cstr_ok_def simp del: append.simps)
next
  case (4 n len r)
  then show ?case using number_line(2) [of n r] by (subst parse_resp_line) (simp_all add: dec_no_CR)
next
  case (5 len r)
  then show ?case using parse_resp_line [of "CHR ''$''" "''-1''" len r] mem_atoi_dec(2) [of r] by simp
next
  case (6 s r len)
  then have "size_of_int (int (length (dec_nat (length s)) + 3) + int (length s) + 2) = length (dec_nat (length s)) + 3 + length s + 2"
    by (intro bulk_size [of _ len]) auto
  with 6 mem_atoi_dec(1) [of "length s" "s @ CRLF @ r"] cstr_of_exact [of s "CRLF @ r"] show ?case
    by (subst parse_resp_line) (simp_all add: dec_no_CR del: append.simps)
next
  case (7 n len r)
  then have "size_of_int (int (length (dec_nat n) + 3) + int n + 2) = length (dec_nat n) + 3 + n + 2"
    by (intro bulk_size [of _ len]) auto
  with 7 mem_atoi_dec(1) [of n r] show ?case by (subst parse_resp_line) (simp_all add: dec_no_CR del: append.simps)
next
  case (8 n len r)
  then have "size_of_int (int n) = n" by (simp add: size_of_int_small INT32_MAX_def)
  with 8 mem_atoi_dec(1) [of n r] show ?case by (subst parse_resp_line) (simp_all add: dec_no_CR)
qed (auto simp: rev_map)

section \<open>Receiving a reply\<close>

text \<open>The buffer after one more piece of a reply.\<close>

lemma received_piece:
  assumes "length w \<le> length buf" "tot < length w" "take tot buf = take tot w" "take tot w @ x @ concat xs = w"
  defines "tot1 \<equiv> tot + length x" and "buf1 \<equiv> take tot buf @ x @ drop (tot + length x) buf"
  shows "take (length buf - tot) x = x" "tot1 + length (concat xs) = length w" "length buf1 = length buf"
    "buf1 = take tot1 w @ drop tot1 buf1" "take tot1 w @ concat xs = w"
proof -
  have len: "tot + length x + length (concat xs) = length w"
    using arg_cong [OF assms(4), of length] assms(2) by simp
  then show "take (length buf - tot) x = x" "tot1 + length (concat xs) = length w" "length buf1 = length buf"
    using assms(1) by (simp_all add: tot1_def buf1_def)
  have front: "take tot w @ x = take tot1 w"
  proof -
    have "take tot1 (take tot w @ x @ concat xs) = take tot w @ x" using assms(2) by (simp add: tot1_def)
    with assms(4) show ?thesis by simp
  qed
  then show "take tot1 w @ concat xs = w" using assms(4) by (metis append.assoc)
  have "take tot1 buf1 = take tot1 w" using len assms(1,2,3) front by (simp add: buf1_def tot1_def)
  then show "buf1 = take tot1 w @ drop tot1 buf1" by (metis append_take_drop_id)
qed

lemma recv_response_reply:
  assumes "value_ok v" "length buf < 2 ^ 63" "length (encode v) \<le> length buf"
    and "\<forall>x \<in> set xs. x \<noteq> []" "tot < length (encode v)"
    and "take tot buf = take tot (encode v)" "take tot (encode v) @ concat xs = encode v"
  shows "\<exists>buf'. recv_response buf tot (map Some xs) = Inr (Some (Some (buf', length (encode v)))) \<and>
    take (length (encode v)) buf' = encode v \<and> length buf' = length buf"
  using assms
proof (induction xs arbitrary: buf tot)
  case Nil
  then show ?case by (metis append_Nil2 concat.simps(1) length_take less_irrefl min.absorb4)
next
  case (Cons x xs)
  have x: "x \<noteq> []" using Cons.prems(4) by simp
  define tot1 where "tot1 = tot + length x"
  define buf1 where "buf1 = take tot buf @ x @ drop tot1 buf"
  have "take tot (encode v) @ x @ concat xs = encode v" using Cons.prems(7) by simp
  note got = received_piece [OF Cons.prems(3,5,6) this, folded tot1_def, folded buf1_def]
  note fits = got(1) and len = got(2) and len1 = got(3) and buf1 = got(4)
  have step: "recv_response buf tot (map Some (x # xs)) =
      bindR (parse_resp buf1 tot1) (\<lambda>r. case r of CParsed k u \<Rightarrow> Inr (Some (Some (buf1, tot1))) | _ \<Rightarrow> recv_response buf1 tot1 (map Some xs))"
    unfolding buf1_def tot1_def
    using Cons.prems(3,5) x fits by (simp add: recv_response.simps [of buf tot] Let_def)
  show ?case
  proof (cases "tot1 < length (encode v)")
    case True
    have "parse_resp (take tot1 (encode v) @ drop tot1 buf1) tot1 = Inr CIncomplete"
      by (rule client_parser.prefix) (use True Cons.prems in simp_all)
    then have "parse_resp buf1 tot1 = Inr CIncomplete" using buf1 by simp
    moreover have "\<exists>buf'. recv_response buf1 tot1 (map Some xs) = Inr (Some (Some (buf', length (encode v)))) \<and>
        take (length (encode v)) buf' = encode v \<and> length buf' = length buf1"
    proof (rule Cons.IH)
      show "take tot1 buf1 = take tot1 (encode v)" using buf1 True by (metis append_eq_conv_conj length_take min.absorb4)
      show "take tot1 (encode v) @ concat xs = encode v" by (rule got(5))
    qed (use True Cons.prems len1 in simp_all)
    ultimately show ?thesis using step len1 by simp
  next
    case False
    then have tot1: "tot1 = length (encode v)" using len by (simp add: tot1_def)
    have "parse_resp (encode v @ drop tot1 buf1) tot1 = Inr (CParsed (length (encode v)) (rval_of v))"
      by (rule client_parser.complete) (use tot1 Cons.prems in simp_all)
    then have "parse_resp buf1 tot1 = Inr (CParsed (length (encode v)) (rval_of v))" using buf1 tot1 by simp
    moreover have "take (length (encode v)) buf1 = encode v" using buf1 tot1 by (metis append_eq_conv_conj take_all_iff order_refl)
    ultimately show ?thesis using step tot1 len1 by simp
  qed
qed

lemma print_rval_of: "\<exists>text. print_resp (rval_of v) indent = Inr text"
proof (induction v arbitrary: indent)
  case (RESP_ARRAY vs)
  have "\<exists>text. print_items (map rval_of ws) i (i + length ws) indent = Inr text" if "set ws \<subseteq> set vs" for ws i
    using that
  proof (induction ws arbitrary: i)
    case (Cons w ws)
    obtain t where t: "print_resp (rval_of w) (indent + 3) = Inr t" using RESP_ARRAY.IH Cons.prems by fastforce
    obtain u where "print_items (map rval_of ws) (i + 1) (i + 1 + length ws) indent = Inr u" using Cons.IH Cons.prems by fastforce
    with t show ?case by simp
  qed simp
  from this [of vs 0] show ?case by simp
qed simp_all

section \<open>Requests\<close>

text \<open>The bytes of a list of words, as the server writes and reads them.\<close>

lemma emit_encode: "concat (map emit_arg args) = concat (map encode (map RESP_BULK_STRING args))"
  by (induction args) (simp_all add: emit_arg_def)

lemma build_encode:
  assumes "tokenize 128 line \<noteq> []"
  shows "build_command line cap =
    (let out = encode (RESP_ARRAY (map RESP_BULK_STRING (tokenize 128 line)))
     in if length out \<le> cap then Inr out else Inl OutOfBounds)"
  using assms by (simp add: build_command_def emit_encode Let_def)

lemma tokenize_step:
  shows "dropWhile is_blank p = [] \<Longrightarrow> tokenize (Suc k) p = []"
    and "dropWhile is_blank p = CHR 0x22 # q \<Longrightarrow> tokenize (Suc k) p =
      takeWhile (\<lambda>d. d \<noteq> CHR 0x22) q # tokenize k (drop 1 (dropWhile (\<lambda>d. d \<noteq> CHR 0x22) q))"
    and "dropWhile is_blank p = c # q \<Longrightarrow> c \<noteq> CHR 0x22 \<Longrightarrow> tokenize (Suc k) p =
      takeWhile (\<lambda>d. \<not> is_blank d) (c # q) # tokenize k (dropWhile (\<lambda>d. \<not> is_blank d) (c # q))"
  unfolding tokenize.simps Let_def by (simp_all only: list.case simp_thms if_True if_False)

declare tokenize.simps(2) [simp del]

lemma while_parts:
  "length (takeWhile P r) + length (dropWhile P r) = length r" "set (dropWhile P r) \<subseteq> set r" "set (takeWhile P r) \<subseteq> set r"
  using set_dropWhileD set_takeWhileD by (fastforce simp flip: length_append)+

lemma tokenize_bounds:
  "length (tokenize k p) \<le> k \<and> sum_list (map length (tokenize k p)) \<le> length p \<and> (\<forall>s \<in> set (tokenize k p). set s \<subseteq> set p)"
proof (induction k arbitrary: p)
  case (Suc k)
  show ?case
  proof (cases "dropWhile is_blank p")
    case Nil
    then show ?thesis by (simp only: tokenize_step(1)) simp
  next
    case (Cons c q)
    have sub: "set (c # q) \<subseteq> set p" "length (c # q) \<le> length p"
      using while_parts(2) [of is_blank p] length_dropWhile_le [of is_blank p] unfolding Cons by auto
    have "\<exists>s r. tokenize (Suc k) p = s # tokenize k r \<and> length s + length r \<le> length p \<and> set s \<subseteq> set p \<and> set r \<subseteq> set p"
    proof (cases "c = CHR 0x22")
      case True
      let ?P = "\<lambda>d. d \<noteq> CHR 0x22"
      have "set (drop 1 (dropWhile ?P q)) \<subseteq> set q" using set_drop_subset while_parts(2) by (rule subset_trans)
      moreover have "length (takeWhile ?P q) + length (drop 1 (dropWhile ?P q)) \<le> length q"
        using while_parts(1) [of ?P q] by simp
      ultimately show ?thesis
        using tokenize_step(2) [of p q k] Cons True sub while_parts(3) [of ?P q] by fastforce
    next
      case False
      let ?P = "\<lambda>d. \<not> is_blank d"
      show ?thesis
        using tokenize_step(3) [OF Cons False, of k] sub while_parts [of ?P "c # q"]
        by (metis order_trans order_refl subset_trans)
    qed
    then obtain s r where "tokenize (Suc k) p = s # tokenize k r" "length s + length r \<le> length p" "set s \<subseteq> set p" "set r \<subseteq> set p"
      by blast
    with Suc [of r] show ?thesis by fastforce
  qed
qed simp

text \<open>An argument in quotes; the arguments are separated by blanks.\<close>

definition quote_arg :: "string \<Rightarrow> string" where
  "quote_arg s = CHR 0x22 # s @ [CHR 0x22]"

lemma tokenize_quoted:
  "\<forall>s \<in> set args. CHR 0x22 \<notin> set s \<Longrightarrow> length args \<le> k \<Longrightarrow>
   tokenize k (concat (map (\<lambda>s. quote_arg s @ '' '') args)) = args"
proof (induction args arbitrary: k)
  case Nil
  then show ?case by (cases k) (simp_all add: tokenize_step(1))
next
  case (Cons s args)
  then obtain k' where k: "k = Suc k'" by (cases k) auto
  let ?r = "concat (map (\<lambda>s. quote_arg s @ '' '') args)" and ?P = "\<lambda>d. d \<noteq> CHR 0x22"
  let ?p = "concat (map (\<lambda>s. quote_arg s @ '' '') (s # args))"
  have p: "dropWhile is_blank ?p = CHR 0x22 # s @ CHR 0x22 # '' '' @ ?r" by (simp add: quote_arg_def is_blank_def)
  have s: "takeWhile ?P (s @ CHR 0x22 # '' '' @ ?r) = s" "dropWhile ?P (s @ CHR 0x22 # '' '' @ ?r) = CHR 0x22 # '' '' @ ?r"
  proof -
    have "CHR 0x22 \<notin> set s" using Cons.prems(1) by simp
    then show "takeWhile ?P (s @ CHR 0x22 # '' '' @ ?r) = s" "dropWhile ?P (s @ CHR 0x22 # '' '' @ ?r) = CHR 0x22 # '' '' @ ?r"
      by (induction s) auto
  qed
  have blank: "tokenize n ('' '' @ r) = tokenize n r" for n r
    by (cases n) (simp_all add: tokenize.simps is_blank_def)
  show ?case
    unfolding k tokenize_step(2) [OF p] s using Cons blank k by simp
qed

lemma dec_nat_length: "n < 10 ^ k \<Longrightarrow> 0 < k \<Longrightarrow> length (dec_nat n) \<le> k"
proof (induction k arbitrary: n)
  case (Suc k)
  show ?case
  proof (cases "n < 10")
    case True
    then show ?thesis by (simp add: dec_nat.simps [of n])
  next
    case False
    with Suc.prems have "n div 10 < 10 ^ k" "0 < k" by (auto intro: gr0I)
    with Suc.IH [of "n div 10"] False show ?thesis by (simp add: dec_nat.simps [of n])
  qed
qed simp

lemma request_length:
  assumes "length args \<le> 128" "sum_list (map length args) < 4096"
  shows "length (encode (RESP_ARRAY (map RESP_BULK_STRING args))) \<le> 6 + 9 * length args + sum_list (map length args)"
proof -
  have "length (dec_nat (length args)) \<le> 3" by (rule dec_nat_length) (use assms(1) in auto)
  moreover have "length (concat (map emit_arg args)) \<le> 9 * length args + sum_list (map length args)"
    using assms(2)
  proof (induction args)
    case (Cons s args)
    have "length (dec_nat (length s)) \<le> 4" by (rule dec_nat_length) (use Cons.prems in auto)
    with Cons show ?case by (simp add: emit_arg_def)
  qed simp
  moreover have "length (encode (RESP_ARRAY (map RESP_BULK_STRING args))) =
      3 + length (dec_nat (length args)) + length (concat (map emit_arg args))"
    unfolding emit_encode by simp
  ultimately show ?thesis by linarith
qed

lemma request_value_ok:
  assumes "cstr_ok line" "length line < 4096"
  shows "value_ok (RESP_ARRAY (map RESP_BULK_STRING (tokenize 128 line)))"
proof -
  note b = tokenize_bounds [of 128 line]
  have "length s \<le> length line" if "s \<in> set (tokenize 128 line)" for s
    using member_le_sum_list [of "length s" "map length (tokenize 128 line)"] that b by force
  with b assms show ?thesis by (fastforce simp: list_all_iff cstr_ok_def INT32_MAX_def)
qed

lemma reply_received:
  assumes "value_ok v" "concat xs = encode v" "\<forall>x \<in> set xs. x \<noteq> []" "length buf = BUF_SIZE" "length (encode v) \<le> BUF_SIZE"
  shows "\<exists>buf' text. recv_response buf 0 (map Some xs) = Inr (Some (Some (buf', length (encode v)))) \<and>
    display_reply buf' (length (encode v)) = Inr text \<and> print_resp (rval_of v) 0 = Inr text \<and> length buf' = BUF_SIZE"
proof -
  have "0 < length (encode v)" by (cases v) simp_all
  then obtain buf' where b: "recv_response buf 0 (map Some xs) = Inr (Some (Some (buf', length (encode v))))"
      "take (length (encode v)) buf' = encode v" "length buf' = BUF_SIZE"
    using recv_response_reply [of v buf xs 0] assms by (auto simp: BUF_SIZE_def)
  obtain shown where "print_resp (rval_of v) 0 = Inr shown" using print_rval_of by blast
  moreover have "parse_resp (encode v @ drop (length (encode v)) buf') (length (encode v)) = Inr (CParsed (length (encode v)) (rval_of v))"
    by (rule client_parser.complete) (use assms in \<open>simp_all add: BUF_SIZE_def\<close>)
  then have "parse_resp buf' (length (encode v)) = Inr (CParsed (length (encode v)) (rval_of v))"
    using b(2) by (metis append_take_drop_id)
  ultimately show ?thesis using b(1,3) by (simp add: display_reply_def)
qed

section \<open>Sessions\<close>

lemma trim_newline_line: "LF \<notin> set l \<Longrightarrow> CR \<notin> set l \<Longrightarrow> trim_newline (l @ [LF]) = l"
proof -
  assume l: "LF \<notin> set l" "CR \<notin> set l"
  then have "\<forall>c \<in> set (rev l). \<not> (c = LF \<or> c = CR)" by auto
  then have "dropWhile (\<lambda>c. c = LF \<or> c = CR) (rev l) = rev l" by (cases "rev l") auto
  then show ?thesis by (simp add: trim_newline_def)
qed

lemma takeWhile_before: "x \<notin> set l \<Longrightarrow> takeWhile (\<lambda>c. c \<noteq> x) (l @ x # r) = l"
  by (induction l) auto

lemma takeWhile_without: "x \<notin> set l \<Longrightarrow> takeWhile (\<lambda>c. c \<noteq> x) l = l"
  by (induction l) auto

lemma fgets_line:
  assumes "LF \<notin> set l" "length l < 4095"
  shows "fgets 4096 (l @ LF # r) = Some (l @ [LF], r)"
proof -
  have "take 4095 (l @ LF # r) = l @ LF # take (4094 - length l) r" using assms(2) by (simp add: take_Cons' Suc_diff_Suc)
  then show ?thesis using takeWhile_before [OF assms(1)] assms(2) by (simp add: fgets_def Let_def)
qed

lemma input_lines_short:
  "\<forall>l \<in> set lines. LF \<notin> set l \<and> NUL \<notin> set l \<and> length l < 4095 \<Longrightarrow>
   input_lines (concat (map (\<lambda>l. l @ [LF]) lines)) = map (\<lambda>l. l @ [LF]) lines"
proof (induction lines)
  case Nil
  show ?case by (simp add: input_lines.simps [of "[]"] fgets_def)
next
  case (Cons l lines)
  have "cstr_of (l @ [LF]) (length (l @ [LF])) = l @ [LF]"
    unfolding cstr_of_def using takeWhile_without [of NUL "l @ [LF]"] Cons.prems by (simp add: NUL_def LF_def)
  then show ?case using Cons fgets_line [of l] by (simp add: input_lines.simps [of "l @ _"])
qed

text \<open>A line that \<open>fgets\<close> delivers in one piece. The client takes its turn with each of them that is not blank, up to
  and with the first SHUTDOWN: \<open>turns\<close> gives the numbers of these lines.\<close>

definition typed_ok :: "string \<Rightarrow> bool" where
  "typed_ok l \<longleftrightarrow> cstr_ok l \<and> LF \<notin> set l \<and> CR \<notin> set l \<and> length l < 4095"

fun turns :: "nat \<Rightarrow> string list \<Rightarrow> nat list" where
  "turns k [] = []"
| "turns k (l # ls) =
     (if tokenize 128 l = [] then turns (Suc k) ls
      else if is_shutdown_line l then [k] else k # turns (Suc k) ls)"

definition request_bytes :: "string \<Rightarrow> string" where
  "request_bytes l = encode (RESP_ARRAY (map RESP_BULK_STRING (tokenize 128 l)))"

lemma turns_ge: "i \<in> set (turns k ls) \<Longrightarrow> k \<le> i"
  by (induction ls arbitrary: k) (fastforce split: if_splits)+

lemma tokenize_Nil: "tokenize 128 [] = []"
  by code_simp

lemma request_of_line_ok:
  assumes "typed_ok l"
  shows "request_of_line (l @ [LF]) = Inr (if tokenize 128 l = [] then [] else request_bytes l)"
    and "length (request_bytes l) \<le> BUF_SIZE"
proof -
  show len: "length (request_bytes l) \<le> BUF_SIZE"
    using request_length [of "tokenize 128 l"] tokenize_bounds [of 128 l] assms
    by (simp add: typed_ok_def request_bytes_def BUF_SIZE_def del: encode.simps)
  show "request_of_line (l @ [LF]) = Inr (if tokenize 128 l = [] then [] else request_bytes l)"
    using assms len build_encode [of l BUF_SIZE] trim_newline_line [of l] tokenize_Nil
    by (auto simp: request_of_line_def typed_ok_def request_bytes_def build_command_def Let_def simp del: encode.simps)
qed

lemma cli_loop_session:
  assumes "list_all typed_ok lines" "length buf = BUF_SIZE"
    and "\<And>i. i \<in> set (turns k lines) \<Longrightarrow> value_ok (reply i) \<and> length (encode (reply i)) \<le> BUF_SIZE \<and>
      concat (pieces i) = encode (reply i) \<and> [] \<notin> set (pieces i)"
  shows "\<exists>texts. cli_loop buf (map (\<lambda>(i, line). (line, BUF_SIZE, map Some (pieces i))) (enumerate k (map (\<lambda>l. l @ [LF]) lines))) =
      Inr (map (\<lambda>i. request_bytes (lines ! (i - k))) (turns k lines), texts, True) \<and>
    map Inr texts = map (\<lambda>i. print_resp (rval_of (reply i)) 0) (turns k lines)"
  using assms
proof (induction lines arbitrary: k buf)
  case Nil
  then show ?case by simp
next
  case (Cons l lines)
  have l: "typed_ok l" using Cons.prems(1) by simp
  note req = request_of_line_ok [OF l]
  have nth: "map (\<lambda>i. request_bytes ((l # lines) ! (i - k))) (turns (Suc k) lines) =
      map (\<lambda>i. request_bytes (lines ! (i - Suc k))) (turns (Suc k) lines)"
    by (rule map_cong [OF refl]) (auto dest!: turns_ge simp: nth_Cons' Suc_le_eq)
  show ?case
  proof (cases "tokenize 128 l = []")
    case True
    with Cons.IH [of buf "Suc k"] Cons.prems req show ?thesis by (simp add: nth)
  next
    case False
    then have k: "k \<in> set (turns k (l # lines))" by simp
    have "concat (pieces k) = encode (reply k)" "\<forall>x \<in> set (pieces k). x \<noteq> []" using Cons.prems(3) [OF k] by auto
    then obtain buf' shown where r: "recv_response buf 0 (map Some (pieces k)) = Inr (Some (Some (buf', length (encode (reply k)))))"
        "display_reply buf' (length (encode (reply k))) = Inr shown" "print_resp (rval_of (reply k)) 0 = Inr shown" "length buf' = BUF_SIZE"
      using reply_received [of "reply k" "pieces k" buf] Cons.prems(2) Cons.prems(3) [OF k] by auto
    have cut: "trim_newline (l @ [LF]) = l" using l trim_newline_line [of l] by (simp add: typed_ok_def)
    have send: "request_bytes l \<noteq> []" "BUF_SIZE \<noteq> 0" "take BUF_SIZE (request_bytes l) = request_bytes l"
      using req(2) by (simp_all add: request_bytes_def BUF_SIZE_def)
    show ?thesis
    proof (cases "is_shutdown_line l")
      case True
      with False r cut send req(1) show ?thesis by simp
    next
      case other: False
      obtain texts where t: "cli_loop buf' (map (\<lambda>(i, line). (line, BUF_SIZE, map Some (pieces i))) (enumerate (Suc k) (map (\<lambda>l. l @ [LF]) lines))) =
            Inr (map (\<lambda>i. request_bytes (lines ! (i - Suc k))) (turns (Suc k) lines), texts, True)"
          "map Inr texts = map (\<lambda>i. print_resp (rval_of (reply i)) 0) (turns (Suc k) lines)"
        using Cons.IH [of buf' "Suc k"] Cons.prems r(4) False other by auto
      with False other r cut send req(1) show ?thesis by (simp add: nth)
    qed
  qed
qed

section \<open>Properties\<close>

text \<open>C24: a session of the client that gets its connection. The lines are shorter than 4095 characters and hold no NUL and no
  CR; each request is taken whole by one \<open>send\<close>; and the reply to each is one value that fits into the 64 KB of the receive
  buffer, in whatever pieces it comes. Then the client sends, in the order of the lines, exactly the words of those
  that are not blank, up to and with the first line that begins with SHUTDOWN, displays exactly the reply to each
  of them in this order, sends nothing for the lines behind a SHUTDOWN, and ends with status 0. (Outside of these conditions it fails:
  \<open>long_line_is_split\<close>, \<open>long_reply_displays_nothing\<close>.)\<close>

theorem session_in_order:
  assumes "list_all typed_ok lines"
    and "\<And>i. i \<in> set (turns 0 lines) \<Longrightarrow> value_ok (reply i) \<and> length (encode (reply i)) \<le> BUF_SIZE \<and>
      concat (pieces i) = encode (reply i) \<and> [] \<notin> set (pieces i)"
    and "ca_socket ca \<noteq> -1" "\<And>addr port. ca_connect ca addr port" "length buf = BUF_SIZE"
  shows "\<exists>texts. cli_main args ca buf (concat (map (\<lambda>l. l @ [LF]) lines)) (\<lambda>i. (BUF_SIZE, map Some (pieces i))) =
      Inr (Some 0, map (\<lambda>i. encode (RESP_ARRAY (map RESP_BULK_STRING (tokenize 128 (lines ! i))))) (turns 0 lines), texts) \<and>
    map Inr texts = map (\<lambda>i. print_resp (rval_of (reply i)) 0) (turns 0 lines)"
proof -
  obtain texts where "cli_loop buf (map (\<lambda>(i, line). (line, BUF_SIZE, map Some (pieces i))) (enumerate 0 (map (\<lambda>l. l @ [LF]) lines))) =
      Inr (map (\<lambda>i. request_bytes (lines ! (i - 0))) (turns 0 lines), texts, True)"
    "map Inr texts = map (\<lambda>i. print_resp (rval_of (reply i)) 0) (turns 0 lines)"
    using cli_loop_session [of lines buf 0 reply pieces] assms(1,2,5) by blast
  moreover have "input_lines (concat (map (\<lambda>l. l @ [LF]) lines)) = map (\<lambda>l. l @ [LF]) lines"
    by (rule input_lines_short) (use assms(1) in \<open>auto simp: list_all_iff typed_ok_def cstr_ok_def\<close>)
  ultimately show ?thesis
    using assms(3,4) by (cases "cli_options args (''127.0.0.1'', 6399)") (simp add: cli_main_def request_bytes_def)
qed

theorem session_in_order_witness:
  "\<exists>texts. cli_main [] \<lparr>ca_socket = 3, ca_connect = (\<lambda>addr port. True)\<rparr> (replicate BUF_SIZE (CHR ''?''))
        (concat (map (\<lambda>l. l @ [LF]) [''GET k'', [], ''SHUTDOWN'', ''PING'']))
        (\<lambda>i. (BUF_SIZE, map Some (if i = 0 then [''$-1'' @ CRLF] else [''+O'', ''K'' @ CRLF]))) =
      Inr (Some 0, [encode (RESP_ARRAY [RESP_BULK_STRING ''GET'', RESP_BULK_STRING ''k'']), encode (RESP_ARRAY [RESP_BULK_STRING ''SHUTDOWN''])], texts) \<and>
    map Inr texts = [print_resp (rval_of RESP_NIL) 0, print_resp (rval_of (RESP_SIMPLE_STRING ''OK'')) 0]"
proof -
  have t: "tokenize 128 ''GET k'' = [''GET'', ''k'']" "tokenize 128 ''SHUTDOWN'' = [''SHUTDOWN'']" by code_simp+
  then have turns: "turns 0 [''GET k'', [], ''SHUTDOWN'', ''PING''] = [0, 2]" by (simp add: tokenize_Nil is_shutdown_line_def)
  have typed: "list_all typed_ok [''GET k'', [], ''SHUTDOWN'', ''PING'']"
    by (simp add: typed_ok_def cstr_ok_def NUL_def LF_def CR_def)
  have "\<exists>texts. cli_main [] \<lparr>ca_socket = 3, ca_connect = (\<lambda>addr port. True)\<rparr> (replicate BUF_SIZE (CHR ''?''))
        (concat (map (\<lambda>l. l @ [LF]) [''GET k'', [], ''SHUTDOWN'', ''PING'']))
        (\<lambda>i. (BUF_SIZE, map Some (if i = 0 then [''$-1'' @ CRLF] else [''+O'', ''K'' @ CRLF]))) =
      Inr (Some 0, map (\<lambda>i. encode (RESP_ARRAY (map RESP_BULK_STRING (tokenize 128 ([''GET k'', [], ''SHUTDOWN'', ''PING''] ! i)))))
        (turns 0 [''GET k'', [], ''SHUTDOWN'', ''PING'']), texts) \<and>
      map Inr texts = map (\<lambda>i. print_resp (rval_of ((\<lambda>i. if i = 0 then RESP_NIL else RESP_SIMPLE_STRING ''OK'') i)) 0)
        (turns 0 [''GET k'', [], ''SHUTDOWN'', ''PING''])"
    by (rule session_in_order [OF typed]) (auto simp: turns BUF_SIZE_def CR_def LF_def NUL_def line_ok_def)
  then show ?thesis unfolding turns using t by simp
qed

text \<open>A line that \<open>fgets\<close> can deliver is turned into one request within the bounds of the buffer, and the
  server reads back exactly the words of the line.\<close>

theorem request_reaches_server:
  assumes "cstr_ok line" "length line < 4096" "tokenize 128 line \<noteq> []" "NUL \<in> set rest"
  shows "\<exists>out. build_command line BUF_SIZE = Inr out \<and> length out \<le> BUF_SIZE \<and>
    resp_parse (out @ rest) (length out) = Inr (Parsed (length out) (RESP_ARRAY (map RESP_BULK_STRING (tokenize 128 line))))"
proof -
  let ?v = "RESP_ARRAY (map RESP_BULK_STRING (tokenize 128 line))"
  note b = tokenize_bounds [of 128 line]
  have "length (encode ?v) \<le> BUF_SIZE"
    using request_length [of "tokenize 128 line"] b assms(2) by (simp add: BUF_SIZE_def del: encode.simps)
  with build_encode [OF assms(3), of BUF_SIZE] parse_complete [OF request_value_ok [OF assms(1,2)] assms(4) order_refl] show ?thesis
    by (auto simp: Let_def resp_parse_def simp del: encode.simps)
qed

theorem request_reaches_server_witness:
  "\<exists>out. build_command ''GET k'' BUF_SIZE = Inr out \<and> length out \<le> BUF_SIZE \<and>
    resp_parse (out @ [NUL]) (length out) = Inr (Parsed (length out) (RESP_ARRAY (map RESP_BULK_STRING [''GET'', ''k''])))"
proof -
  have t: "tokenize 128 ''GET k'' = [''GET'', ''k'']" by code_simp
  then show ?thesis using request_reaches_server [of "''GET k''" "[NUL]"] by (simp add: cstr_ok_def NUL_def)
qed

text \<open>Any list of at most 128 arguments without quotation marks can be typed, blanks and empty strings
  included: each in quotation marks.\<close>

theorem quoted_arguments_roundtrip:
  assumes "\<forall>s \<in> set args. CHR 0x22 \<notin> set s" "length args \<le> 128"
  shows "tokenize 128 (concat (map (\<lambda>s. quote_arg s @ '' '') args)) = args"
  by (rule tokenize_quoted [OF assms])

theorem quoted_arguments_roundtrip_witness:
  "tokenize 128 (concat (map (\<lambda>s. quote_arg s @ '' '') [''SET'', ''a b'', []])) = [''SET'', ''a b'', []]"
  by (rule quoted_arguments_roundtrip) simp_all

text \<open>A reply that is longer than the buffer of the client is cut off: the client displays nothing for it,
  and takes the rest of it for the beginning of the next reply.\<close>

theorem long_reply_displays_nothing:
  assumes "value_ok v" "length buf = BUF_SIZE" "BUF_SIZE < length (encode v)"
  shows "recv_response buf 0 [Some (encode v)] = Inr (Some (Some (take BUF_SIZE (encode v), BUF_SIZE))) \<and>
    display_reply (take BUF_SIZE (encode v)) BUF_SIZE = Inr []"
proof -
  have pos: "0 < length buf" "length buf < 2 ^ 63" using assms(2) by (simp_all add: BUF_SIZE_def)
  have "parse_resp (take (length buf) (encode v) @ []) (length buf) = Inr CIncomplete"
    by (rule client_parser.prefix) (use assms pos in simp_all)
  moreover have "encode v \<noteq> []" by (cases v) simp_all
  ultimately show ?thesis
    using assms pos by (simp add: recv_response.simps [of buf] recv_response.simps [of "take BUF_SIZE (encode v)"] display_reply_def Let_def)
qed

theorem long_reply_displays_nothing_witness:
  "display_reply (take BUF_SIZE (encode (RESP_BULK_STRING (replicate 70000 (CHR ''x''))))) BUF_SIZE = Inr []"
  using long_reply_displays_nothing [of "RESP_BULK_STRING (replicate 70000 (CHR ''x''))" "replicate BUF_SIZE NUL"]
  by (simp add: BUF_SIZE_def cstr_ok_def NUL_def INT32_MAX_def)

text \<open>Lengths below -1 are not rejected: an array of -2 items is taken for one of 2^64-2 items that are all
  null pointers, and a string of -2 bytes is copied to a null pointer.\<close>

theorem negative_lengths_crash_client:
  "parse_resp (''*-2'' @ CRLF) 5 = Inr (CParsed 5 (R_ARRAY 18446744073709551614 [])) \<and>
   display_reply (''*-2'' @ CRLF) 5 = Inl NullDeref \<and> parse_resp (''$-2'' @ CRLF) 5 = Inl NullDeref"
proof -
  have arr: "parse_resp (''*-2'' @ CRLF) 5 = Inr (CParsed 5 (R_ARRAY 18446744073709551614 []))"
    and str: "parse_resp (''$-2'' @ CRLF) 5 = Inl NullDeref"
    by (simp_all add: parse_resp.simps mem_atoi_def number_ends_def atoi_def strtoll_val_def
        strtoll_def split_sign_def c_isspace_def c_isdigit_def digits_val_def digit_val_def CR_def LF_def
        to_int32_def INT64_MIN_def INT64_MAX_def Let_def size_of_int_def)
  then show ?thesis by (simp add: display_reply_def)
qed

text \<open>A line of 4095 bytes and more is executed as several commands: the first is cut off, the rest of
  the line is the next one, whatever command it spells.\<close>

theorem long_line_is_split:
  assumes "LF \<notin> set a" "NUL \<notin> set a" "length a = 4095" "LF \<notin> set b" "NUL \<notin> set b" "length b < 4095"
  shows "input_lines (a @ b @ [LF]) = [a, b @ [LF]]"
proof -
  have "fgets 4096 (a @ b @ [LF]) = Some (a, b @ [LF])"
    by (simp add: fgets_def Let_def takeWhile_without [OF assms(1)] assms(3))
  moreover have "cstr_of a (length a) = a" using assms(2) takeWhile_without [of NUL a] by (simp add: cstr_of_def)
  moreover have "input_lines (b @ [LF]) = [b @ [LF]]" using input_lines_short [of "[b]"] assms(4-6) by simp
  ultimately show ?thesis by (subst input_lines.simps) simp
qed

theorem long_line_is_split_witness:
  "input_lines (replicate 4095 (CHR ''x'') @ ''DEL k'' @ [LF]) = [replicate 4095 (CHR ''x''), ''DEL k'' @ [LF]]"
  by (rule long_line_is_split) (simp_all add: LF_def NUL_def)

text \<open>A host that is no IPv4 address is not reported: the client connects to the address 0.0.0.0, which is the
  local machine, and goes on as if this had been asked for.\<close>

theorem host_name_connects_locally:
  assumes "inet_pton host = None" "ca_connect ca 0 (word_of_int port)"
    and "cli_options args (''127.0.0.1'', 6399) = (host, port)" "cli_options args1 (''127.0.0.1'', 6399) = (''0.0.0.0'', port)"
  shows "cli_main args ca buf input answers = cli_main args1 ca buf input answers"
proof -
  have "inet_pton ''0.0.0.0'' = Some 0" by code_simp
  then show ?thesis using assms by (simp add: cli_main_def)
qed

theorem host_name_connects_locally_witness:
  "cli_main [''-h'', ''db.example.com''] \<lparr>ca_socket = 3, ca_connect = (\<lambda>addr port. True)\<rparr> buf input answers =
   cli_main [''-h'', ''0.0.0.0''] \<lparr>ca_socket = 3, ca_connect = (\<lambda>addr port. True)\<rparr> buf input answers"
proof (rule host_name_connects_locally)
  show "inet_pton ''db.example.com'' = None" by code_simp
qed simp_all

end
