(* ===== verification/Platform.thy ===== *)
theory Platform
  imports Util
begin

text \<open>
  The parts of \<open>src/util.c\<close> that depend on the platform: the wrappers of the allocator, which end the
  program when it has no memory left, and the clock in milliseconds, from \<open>gettimeofday\<close> or from the Windows
  file time. The other theories use what is shown here: the wrappers never return NULL for a size that is not 0, and
  both clocks give the milliseconds since 1970.
\<close>

section \<open>The allocator\<close>

text \<open>What a wrapper does: it returns the pointer (\<open>None\<close> is NULL), or the program ends in \<open>abort\<close>.\<close>

datatype 'p allocation = Aborts | Returns "'p option"

definition imdb_malloc :: "(nat \<Rightarrow> 'p option) \<Rightarrow> nat \<Rightarrow> 'p allocation" where
  "imdb_malloc malloc bytes =
     (let p = malloc bytes in if p = None \<and> bytes \<noteq> 0 then Aborts else Returns p)"

definition imdb_calloc :: "(nat \<Rightarrow> nat \<Rightarrow> 'p option) \<Rightarrow> nat \<Rightarrow> nat \<Rightarrow> 'p allocation" where
  "imdb_calloc calloc num bytes =
     (let p = calloc num bytes in if p = None \<and> num \<noteq> 0 \<and> bytes \<noteq> 0 then Aborts else Returns p)"

definition imdb_realloc :: "('p option \<Rightarrow> nat \<Rightarrow> 'p option) \<Rightarrow> 'p option \<Rightarrow> nat \<Rightarrow> 'p allocation" where
  "imdb_realloc realloc ptr bytes =
     (let p = realloc ptr bytes in if p = None \<and> bytes \<noteq> 0 then Aborts else Returns p)"

lemma wrappers_not_null:
  "imdb_malloc malloc bytes = Returns p \<Longrightarrow> bytes \<noteq> 0 \<Longrightarrow> p \<noteq> None"
  "imdb_calloc calloc num bytes = Returns p \<Longrightarrow> num \<noteq> 0 \<Longrightarrow> bytes \<noteq> 0 \<Longrightarrow> p \<noteq> None"
  "imdb_realloc realloc ptr bytes = Returns p \<Longrightarrow> bytes \<noteq> 0 \<Longrightarrow> p \<noteq> None"
  by (auto simp: imdb_malloc_def imdb_calloc_def imdb_realloc_def Let_def split: if_splits)

section \<open>The clock\<close>

record timeval =
  tv_sec :: int
  tv_usec :: int

text \<open>On POSIX systems; the microseconds of \<open>gettimeofday\<close> are not negative.\<close>

definition timeval_ms :: "timeval \<Rightarrow> int res" where
  "timeval_ms tv =
     bindR (int64 (tv_sec tv * 1000)) (\<lambda>s. int64 (s + tv_usec tv div 1000))"

text \<open>On Windows: 100-nanosecond intervals since 1601 in two halves; the subtraction is unsigned and wraps before 1970.\<close>

definition filetime_ms :: "32 word \<Rightarrow> 32 word \<Rightarrow> int" where
  "filetime_ms high low =
     (let t = push_bit 32 (ucast high) OR ucast low :: 64 word in sint (t div 10000 - 11644473600000))"

lemma filetime_ticks:
  fixes high low :: "32 word"
  defines "t \<equiv> push_bit 32 (ucast high) OR ucast low :: 64 word"
  shows "uint t = uint high * 2 ^ 32 + uint low"
proof -
  have b: "uint high < 2 ^ 32" "uint low < 2 ^ 32" using uint_lt2p [of high] uint_lt2p [of low] by simp_all
  have "push_bit 32 (ucast high) AND ucast low = (0 :: 64 word)"
    by (rule bit_word_eqI) (auto simp: bit_simps dest: bit_imp_le_length)
  then have "t = push_bit 32 (ucast high) + ucast low" by (simp add: t_def disjunctive_add_eq_or)
  moreover have "uint (push_bit 32 (ucast high :: 64 word)) = uint high * 2 ^ 32"
    using b by (simp add: push_bit_eq_mult uint_word_ariths unsigned_ucast_eq take_bit_eq_mod)
  moreover have "uint (ucast low :: 64 word) = uint low" using b by (simp add: unsigned_ucast_eq take_bit_eq_mod)
  ultimately show ?thesis using b by (simp add: uint_word_ariths)
qed

text \<open>The detour through unsigned numbers does no harm: the result is exact for every file time.\<close>

lemma filetime_ms_exact:
  "filetime_ms high low = (uint high * 2 ^ 32 + uint low) div 10000 - 11644473600000"
proof -
  let ?t = "push_bit 32 (ucast high) OR ucast low :: 64 word"
  have t: "uint ?t = uint high * 2 ^ 32 + uint low" by (rule filetime_ticks)
  have r: "0 \<le> uint ?t" "uint ?t < 2 ^ 64" using uint_lt2p [of ?t] by simp_all
  have d: "uint (?t div 10000) = uint ?t div 10000" by (simp add: uint_div)
  have small: "0 \<le> uint ?t div 10000" "uint ?t div 10000 < 2 ^ 63"
  proof -
    have "0 \<le> x div 10000 \<and> x div 10000 < 9223372036854775808" if "0 \<le> x" "x < 18446744073709551616" for x :: int
      using that by linarith
    from this [of "uint ?t"] r show "0 \<le> uint ?t div 10000" "uint ?t div 10000 < 2 ^ 63" by simp_all
  qed
  have s: "sint (?t div 10000) = uint ?t div 10000"
    unfolding sint_uint d using small by (intro signed_take_bit_int_eq_self) auto
  have "sint (11644473600000 :: 64 word) = 11644473600000" by simp
  then have "sint (?t div 10000 - 11644473600000) = signed_take_bit 63 (uint ?t div 10000 - 11644473600000)"
    by (simp add: sint_word_ariths(2) s)
  also have "\<dots> = uint ?t div 10000 - 11644473600000"
    using small by (intro signed_take_bit_int_eq_self) auto
  finally show ?thesis by (simp add: filetime_ms_def t Let_def)
qed

text \<open>Both platforms give the same time for the same instant: \<open>us\<close> microseconds since 1970, in the file time with
  the 134774 days between the two epochs.\<close>

theorem clocks_agree:
  assumes "0 \<le> us" "us \<le> 253402300799999999" "0 \<le> tv_usec tv" "tv_usec tv < 1000000" "us = tv_sec tv * 1000000 + tv_usec tv"
    and "uint high * 2 ^ 32 + uint low = us * 10 + 116444736000000000"
  shows "timeval_ms tv = Inr (us div 1000) \<and> filetime_ms high low = us div 1000"
proof
  define s u where "s = tv_sec tv" and "u = tv_usec tv"
  note us = assms(5) [folded s_def u_def]
  have "us div 1000 = (u + s * 1000 * 1000) div 1000" by (simp add: us algebra_simps)
  also have "\<dots> = s * 1000 + u div 1000" by (simp only: div_mult_self1)
  finally have ms: "us div 1000 = s * 1000 + u div 1000" .
  have "0 \<le> s" "s \<le> 253402300800" using assms(1-4) us unfolding u_def [symmetric] by linarith+
  moreover have "0 \<le> u div 1000" "u div 1000 \<le> 1000000" using assms(3,4) unfolding u_def by linarith+
  ultimately show "timeval_ms tv = Inr (us div 1000)"
    unfolding ms by (simp add: timeval_ms_def int64_def in_int64_def INT64_MIN_def INT64_MAX_def s_def u_def)
  have "(us * 10 + 116444736000000000) div 10000 = (us + 11644473600000 * 1000) * 10 div (1000 * 10)" by (simp add: algebra_simps)
  also have "\<dots> = (us + 11644473600000 * 1000) div 1000" by (rule div_mult_mult2) simp
  also have "\<dots> = 11644473600000 + us div 1000" by (simp only: div_mult_self1)
  finally show "filetime_ms high low = us div 1000" unfolding filetime_ms_exact assms(6) by linarith
qed

end
