(* ===== verification/Resp_Memory.thy ===== *)
theory Resp_Memory
  imports Resp_Props Platform
begin

text \<open>
  The memory behind parsed values: the parser of \<open>src/resp.c\<close> with its allocations, and \<open>resp_free\<close>. A value
  is a block for its \<open>struct resp_value\<close>, a block for its string or its array of items, and the blocks of the
  items. The parser here and that of \<open>Resp\<close>, which returns values, are shown to agree; what is allocated on
  the way of a request that turns out to be incomplete or malformed is given back, and \<open>resp_free\<close> frees each
  block of a value exactly once. \<open>calloc\<close> for an array without items answers a block, as in the GNU library.
\<close>

section \<open>Memory\<close>

type_synonym address = nat

text \<open>\<open>Uninit\<close> is what \<open>malloc\<close> answers; \<open>Value_Str\<close> is a value of one of the three string types.\<close>

datatype string_type = SIMPLE_STRING | ERROR | BULK_STRING

datatype block =
    Uninit
  | Chars string
  | Items "address option list"
  | Value_Str string_type address
  | Value_Int int
  | Value_Nil
  | Value_Array address nat

record memory =
  blocks :: "address \<Rightarrow> block option"
  break_at :: address

definition allocate :: "block \<Rightarrow> memory \<Rightarrow> address \<times> memory" where
  "allocate b m = (break_at m, m\<lparr>blocks := (blocks m)(break_at m := Some b), break_at := Suc (break_at m)\<rparr>)"

definition block_at :: "memory \<Rightarrow> address \<Rightarrow> block res" where
  "block_at m a = (case blocks m a of None \<Rightarrow> Inl DanglingDeref | Some b \<Rightarrow> Inr b)"

definition write_block :: "address \<Rightarrow> block \<Rightarrow> memory \<Rightarrow> memory" where
  "write_block a b m = m\<lparr>blocks := (blocks m)(a := Some b)\<rparr>"

text \<open>To free a block twice is a fault; to free NULL has no effect.\<close>

definition free_block :: "address option \<Rightarrow> memory \<Rightarrow> memory res" where
  "free_block p m =
     (case p of
        None \<Rightarrow> Inr m
      | Some a \<Rightarrow> (case blocks m a of None \<Rightarrow> Inl DanglingDeref | Some b \<Rightarrow> Inr (m\<lparr>blocks := (blocks m)(a := None)\<rparr>)))"

section \<open>Freeing\<close>

text \<open>The pointer \<open>val->data.array.items[i]\<close>; a value of another type has no items.\<close>

definition item_at :: "memory \<Rightarrow> address \<Rightarrow> nat \<Rightarrow> address option res" where
  "item_at m a i =
     bindR (block_at m a) (\<lambda>b.
     case b of
       Value_Array items n \<Rightarrow>
         bindR (block_at m items) (\<lambda>c.
         case c of Items ps \<Rightarrow> if i < length ps then Inr (ps ! i) else Inl OutOfBounds | _ \<Rightarrow> Inl OutOfBounds)
     | _ \<Rightarrow> Inl OutOfBounds)"

text \<open>The loop over the indices of the items; a call that does not return makes the loop not return.\<close>

fun each_item :: "(address option \<Rightarrow> memory \<Rightarrow> memory res option) \<Rightarrow> address \<Rightarrow> nat list \<Rightarrow> memory \<Rightarrow> memory res option" where
  "each_item f a [] m = Some (Inr m)"
| "each_item f a (i # is) m =
     (case item_at m a i of
        Inl e \<Rightarrow> Some (Inl e)
      | Inr p \<Rightarrow> Option.bind (f p m) (\<lambda>r. case r of Inl e \<Rightarrow> Some (Inl e) | Inr m1 \<Rightarrow> each_item f a is m1))"

lemma each_item_mono [partial_function_mono]:
  assumes "\<And>p m. mono_option (\<lambda>f. F f p m)"
  shows "mono_option (\<lambda>f. each_item (F f) a is m)"
proof (induction "is" arbitrary: m)
  case (Cons i "is")
  show ?case
  proof (cases "item_at m a i")
    case (Inr p)
    have "mono_option (\<lambda>f. case r of Inl e \<Rightarrow> Some (Inl e) | Inr m1 \<Rightarrow> each_item (F f) a is m1)" for r
      using Cons.IH by (cases r) (simp_all add: option.const_mono)
    then show ?thesis by (simp add: Inr) (intro bind_mono assms)
  qed (simp add: option.const_mono)
qed (simp add: option.const_mono)

text \<open>The items and the value of an array, after the loop over its items.\<close>

definition free_array :: "address \<Rightarrow> memory \<Rightarrow> memory res" where
  "free_array a m =
     bindR (block_at m a) (\<lambda>b.
     case b of
       Value_Array items n \<Rightarrow> bindR (free_block (Some items) m) (free_block (Some a))
     | _ \<Rightarrow> Inl OutOfBounds)"

partial_function (option) resp_free :: "address option \<Rightarrow> memory \<Rightarrow> memory res option" where
  "resp_free val m =
     (case val of
        None \<Rightarrow> Some (Inr m)
      | Some a \<Rightarrow>
          (case block_at m a of
             Inl e \<Rightarrow> Some (Inl e)
           | Inr (Value_Str ty s) \<Rightarrow> Some (bindR (free_block (Some s) m) (free_block (Some a)))
           | Inr (Value_Array items n) \<Rightarrow>
               Option.bind (each_item (\<lambda>p m. resp_free p m) a [0..<n] m) (\<lambda>r. Some (bindR r (free_array a)))
           | Inr Value_Nil \<Rightarrow> Some (free_block (Some a) m)
           | Inr (Value_Int k) \<Rightarrow> Some (free_block (Some a) m)
           | Inr _ \<Rightarrow> Some (Inl OutOfBounds)))"

section \<open>The parser with its allocations\<close>

datatype alloc_outcome = Needs_More | Malformed | Allocated nat address

definition new_value :: "block \<Rightarrow> memory \<Rightarrow> address \<times> memory" where
  "new_value b m = (let (v, m1) = allocate Uninit m in (v, write_block v b m1))"

definition new_string_value :: "string_type \<Rightarrow> string \<Rightarrow> memory \<Rightarrow> address \<times> memory" where
  "new_string_value ty s m =
     (let (v, m1) = allocate Uninit m; (p, m2) = allocate (Chars s) m1 in (v, write_block v (Value_Str ty p) m2))"

definition new_array :: "nat \<Rightarrow> memory \<Rightarrow> address \<times> memory" where
  "new_array n m =
     (let (v, m1) = allocate Uninit m; (items, m2) = allocate (Items (replicate n None)) m1
      in (v, write_block v (Value_Array items n) m2))"

text \<open>The write through the pointer \<open>&v->data.array.items[i]\<close>.\<close>

definition set_item :: "address \<Rightarrow> nat \<Rightarrow> address \<Rightarrow> memory \<Rightarrow> memory res" where
  "set_item a i p m =
     bindR (block_at m a) (\<lambda>b.
     case b of
       Value_Array items n \<Rightarrow>
         bindR (block_at m items) (\<lambda>c.
         case c of
           Items ps \<Rightarrow> if i < length ps then Inr (write_block items (Items (ps[i := Some p])) m) else Inl OutOfBounds
         | _ \<Rightarrow> Inl OutOfBounds)
     | _ \<Rightarrow> Inl OutOfBounds)"

definition allocated :: "nat \<Rightarrow> address \<times> memory \<Rightarrow> (alloc_outcome \<times> memory) res" where
  "allocated n r = Inr (Allocated n (fst r), snd r)"

text \<open>What the loop over the items does when an item is incomplete or malformed.\<close>

definition give_back :: "address \<Rightarrow> nat \<Rightarrow> memory \<Rightarrow> memory res" where
  "give_back a i m = bindR (returns (each_item resp_free a [0..<i] m)) (\<lambda>r. bindR r (free_array a))"

function parse_alloc :: "string \<Rightarrow> nat \<Rightarrow> memory \<Rightarrow> (alloc_outcome \<times> memory) res"
  and parse_alloc_items :: "address \<Rightarrow> nat \<Rightarrow> nat \<Rightarrow> string \<Rightarrow> nat \<Rightarrow> nat \<Rightarrow> memory \<Rightarrow> (alloc_outcome \<times> memory) res" where
  "parse_alloc mem len m =
     (if len = 0 then Inr (Needs_More, m)
      else case find_crlf (take len mem) of
        None \<Rightarrow> Inr (Needs_More, m)
      | Some line_len \<Rightarrow>
         (let consumed = line_len + 2; c = mem ! 0 in
          if c = CHR ''+'' then
            bindR (mem_strndup (drop 1 mem) (line_len - 1)) (\<lambda>s. allocated consumed (new_string_value SIMPLE_STRING s m))
          else if c = CHR ''-'' then
            bindR (mem_strndup (drop 1 mem) (line_len - 1)) (\<lambda>s. allocated consumed (new_string_value ERROR s m))
          else if c = CHR '':'' then
            bindR (mem_strtoll (drop 1 mem)) (\<lambda>n. allocated consumed (new_value (Value_Int n) m))
          else if c = CHR ''$'' then
            bindR (mem_atoi (drop 1 mem)) (\<lambda>bulk_len.
            if bulk_len = -1 then allocated consumed (new_value Value_Nil m)
            else if bulk_len < 0 then Inr (Malformed, m)
            else if consumed + nat bulk_len + 2 > len then Inr (Needs_More, m)
            else bindR (mem_strndup (drop consumed mem) (nat bulk_len)) (\<lambda>s.
                 allocated (consumed + nat bulk_len + 2) (new_string_value BULK_STRING s m)))
          else if c = CHR ''*'' then
            bindR (mem_atoi (drop 1 mem)) (\<lambda>arr_count.
            if arr_count = -1 then allocated consumed (new_value Value_Nil m)
            else if arr_count < 0 then Inr (Malformed, m)
            else (let (v, m1) = new_array (nat arr_count) m in
                  parse_alloc_items v 0 (nat arr_count) (drop consumed mem) (len - consumed) consumed m1))
          else Inr (Malformed, m)))"
| "parse_alloc_items a i 0 mem len used m = Inr (Allocated used a, m)"
| "parse_alloc_items a i (Suc k) mem len used m =
     bindR (parse_alloc mem len m) (\<lambda>(r, m1).
     case r of
       Allocated n p \<Rightarrow>
         bindR (set_item a i p m1) (\<lambda>m2. parse_alloc_items a (Suc i) k (drop n mem) (len - n) (used + n) m2)
     | _ \<Rightarrow> bindR (give_back a i m1) (\<lambda>m2. Inr (r, m2)))"
  by pat_completeness auto
termination
  by (relation "inv_image (less_than <*lex*> less_than)
        (case_sum (\<lambda>(mem, len, m). (len, 0)) (\<lambda>(a, i, k, mem, len, used, m). (len, Suc k)))")
     auto

declare parse_alloc.simps [simp del]

section \<open>Values in memory\<close>

text \<open>The value at an address, with the list of the blocks that it consists of.\<close>

fun value_at :: "(address \<Rightarrow> block option) \<Rightarrow> address \<Rightarrow> resp_value \<Rightarrow> address list \<Rightarrow> bool"
  and values_at :: "(address \<Rightarrow> block option) \<Rightarrow> address list \<Rightarrow> resp_value list \<Rightarrow> address list \<Rightarrow> bool" where
  "value_at c a (RESP_SIMPLE_STRING s) fp \<longleftrightarrow> (\<exists>p. c a = Some (Value_Str SIMPLE_STRING p) \<and> c p = Some (Chars s) \<and> fp = [a, p])"
| "value_at c a (RESP_ERROR s) fp \<longleftrightarrow> (\<exists>p. c a = Some (Value_Str ERROR p) \<and> c p = Some (Chars s) \<and> fp = [a, p])"
| "value_at c a (RESP_BULK_STRING s) fp \<longleftrightarrow> (\<exists>p. c a = Some (Value_Str BULK_STRING p) \<and> c p = Some (Chars s) \<and> fp = [a, p])"
| "value_at c a (RESP_INTEGER n) fp \<longleftrightarrow> c a = Some (Value_Int n) \<and> fp = [a]"
| "value_at c a RESP_NIL fp \<longleftrightarrow> c a = Some Value_Nil \<and> fp = [a]"
| "value_at c a (RESP_ARRAY vs) fp \<longleftrightarrow>
     (\<exists>items ps fp1. c a = Some (Value_Array items (length vs)) \<and> c items = Some (Items (map Some ps)) \<and>
        values_at c ps vs fp1 \<and> fp = a # items # fp1)"
| "values_at c ps [] fp \<longleftrightarrow> ps = [] \<and> fp = []"
| "values_at c ps (v # vs) fp \<longleftrightarrow>
     (\<exists>p ps1 fp1 fp2. ps = p # ps1 \<and> value_at c p v fp1 \<and> values_at c ps1 vs fp2 \<and> fp = fp1 @ fp2)"

lemma value_at_cong:
  "value_at c a v fp \<Longrightarrow> (\<And>x. x \<in> set fp \<Longrightarrow> c' x = c x) \<Longrightarrow> value_at c' a v fp"
  "values_at c ps vs fp \<Longrightarrow> (\<And>x. x \<in> set fp \<Longrightarrow> c' x = c x) \<Longrightarrow> values_at c' ps vs fp"
proof (induction c a v fp and c ps vs fp rule: value_at_values_at.induct)
  case (6 c a vs fp)
  then show ?case by fastforce
next
  case (8 c ps v vs fp)
  from "8.prems"(1) obtain p ps1 fp1 fp2 where
    s: "ps = p # ps1" "value_at c p v fp1" "values_at c ps1 vs fp2" "fp = fp1 @ fp2" by auto
  then have "value_at c' p v fp1" "values_at c' ps1 vs fp2" using 8 by auto
  with s show ?case by auto
qed auto

lemma values_at_length: "values_at c ps vs fp \<Longrightarrow> length ps = length vs"
  by (induction vs arbitrary: ps fp) auto

lemma values_at_snoc:
  "values_at c ps vs fp \<Longrightarrow> value_at c p v fp1 \<Longrightarrow> values_at c (ps @ [p]) (vs @ [v]) (fp @ fp1)"
proof (induction vs arbitrary: ps fp)
  case Nil
  then show ?case by (auto intro!: exI [of _ "[]"])
next
  case (Cons u us)
  from Cons.prems(1) obtain q ps1 fpa fpb where "ps = q # ps1" "value_at c q u fpa" "values_at c ps1 us fpb" "fp = fpa @ fpb" by auto
  with Cons.IH [of ps1 fpb] Cons.prems(2) show ?case by fastforce
qed

section \<open>Freeing a value\<close>

text \<open>The memory without some blocks.\<close>

definition without :: "address list \<Rightarrow> memory \<Rightarrow> memory" where
  "without fp m = m\<lparr>blocks := (\<lambda>x. if x \<in> set fp then None else blocks m x)\<rparr>"

lemma blocks_without [simp]:
  "blocks (without fp m) x = (if x \<in> set fp then None else blocks m x)" "break_at (without fp m) = break_at m"
  by (simp_all add: without_def)

lemma memory_eqI: "(\<And>x. blocks m x = blocks m' x) \<Longrightarrow> break_at m = break_at m' \<Longrightarrow> m = (m' :: memory)"
  by (rule memory.equality) auto

lemma without_append: "without fp2 (without fp1 m) = without (fp1 @ fp2) m"
  by (rule memory_eqI) auto

lemma without_Nil [simp]: "without [] m = m"
  by (rule memory_eqI) auto

lemma free_block_without: "blocks m a \<noteq> None \<Longrightarrow> free_block (Some a) m = Inr (without [a] m)"
  by (auto simp: free_block_def intro!: memory_eqI)

text \<open>Some of the items of an array, from index \<open>i\<close> on.\<close>

definition items_from :: "memory \<Rightarrow> address \<Rightarrow> address \<Rightarrow> nat \<Rightarrow> address list \<Rightarrow> bool" where
  "items_from m a items i ps \<longleftrightarrow> (\<exists>n qs. blocks m a = Some (Value_Array items n) \<and> blocks m items = Some (Items qs) \<and>
     i + length ps \<le> length qs \<and> (\<forall>j < length ps. qs ! (i + j) = Some (ps ! j)))"

lemma items_from_Cons:
  assumes "items_from m a items i (p # ps)"
  shows "item_at m a i = Inr (Some p)" "items_from m a items (Suc i) ps"
proof -
  obtain n qs where q: "blocks m a = Some (Value_Array items n)" "blocks m items = Some (Items qs)" "i + length (p # ps) \<le> length qs"
      "\<forall>j < length (p # ps). qs ! (i + j) = Some ((p # ps) ! j)"
    using assms by (auto simp: items_from_def)
  from q(4) have "qs ! i = Some p" by (auto dest: spec [of _ 0])
  with q(1-3) show "item_at m a i = Inr (Some p)" by (simp add: item_at_def block_at_def)
  have "qs ! (Suc i + j) = Some (ps ! j)" if "j < length ps" for j
    using q(4) [rule_format, of "Suc j"] that by simp
  with q(1-3) show "items_from m a items (Suc i) ps" by (simp add: items_from_def)
qed

lemma items_from_without: "items_from m a items i ps \<Longrightarrow> a \<notin> set fp \<Longrightarrow> items \<notin> set fp \<Longrightarrow> items_from (without fp m) a items i ps"
  by (simp add: items_from_def)

lemma free_array_without:
  assumes "blocks m a = Some (Value_Array items n)" "blocks m items = Some b" "a \<noteq> items"
  shows "free_array a m = Inr (without [a, items] m)"
proof -
  have "free_block (Some a) (without [items] m) = Inr (without [a] (without [items] m))"
    by (rule free_block_without) (simp add: assms)
  moreover have "without [a] (without [items] m) = without [a, items] m" by (rule memory_eqI) simp_all
  ultimately show ?thesis using assms by (simp add: free_array_def block_at_def free_block_without)
qed

lemma resp_free_value:
  "value_at c a v fp \<Longrightarrow> (\<forall>x \<in> set fp. blocks m x = c x) \<Longrightarrow> distinct fp \<Longrightarrow> resp_free (Some a) m = Some (Inr (without fp m))"
  "values_at c ps vs fp \<Longrightarrow> (\<forall>x \<in> set fp. blocks m x = c x) \<Longrightarrow> distinct fp \<Longrightarrow> items_from m b items i ps \<Longrightarrow> b \<notin> set fp \<Longrightarrow>
     items \<notin> set fp \<Longrightarrow> each_item resp_free b [i..<i + length ps] m = Some (Inr (without fp m))"
proof (induction c a v fp and c ps vs fp arbitrary: m and m b items i rule: value_at_values_at.induct)
  case (6 c a vs fp)
  from "6.prems"(1) obtain it ps fp1 where s: "c a = Some (Value_Array it (length vs))" "c it = Some (Items (map Some ps))"
      "values_at c ps vs fp1" "fp = a # it # fp1" by auto
  have m: "blocks m a = Some (Value_Array it (length vs))" "blocks m it = Some (Items (map Some ps))"
    using s "6.prems"(2) by simp_all
  have "each_item resp_free a [0..<0 + length ps] m = Some (Inr (without fp1 m))"
    by (rule "6.IH" [OF s(3), where items = it]) (use s(4) m "6.prems" in \<open>simp_all add: items_from_def\<close>)
  then have loop: "each_item resp_free a [0..<length vs] m = Some (Inr (without fp1 m))" using values_at_length [OF s(3)] by simp
  have "free_array a (without fp1 m) = Inr (without [a, it] (without fp1 m))"
    by (rule free_array_without) (use s(4) m "6.prems"(3) in auto)
  moreover have "without [a, it] (without fp1 m) = without fp m" by (rule memory_eqI) (auto simp: s(4))
  ultimately show ?case using m loop by (simp add: resp_free.simps [of "Some a"] block_at_def)
next
  case (8 c ps v vs fp)
  from "8.prems"(1) obtain p ps1 fp1 fp2 where
    s: "ps = p # ps1" "value_at c p v fp1" "values_at c ps1 vs fp2" "fp = fp1 @ fp2" by auto
  note it = items_from_Cons [OF "8.prems"(4) [unfolded s(1)]]
  have one: "resp_free (Some p) m = Some (Inr (without fp1 m))"
    by (rule "8.IH"(1) [OF s(2)]) (use s(4) "8.prems" in auto)
  have "each_item resp_free b [Suc i..<Suc i + length ps1] (without fp1 m) = Some (Inr (without fp2 (without fp1 m)))"
    by (rule "8.IH"(2) [OF s(3), where items = items])
       (use s(4) "8.prems" it(2) in \<open>auto intro: items_from_without\<close>)
  moreover have "[i..<i + length ps] = i # [Suc i..<Suc i + length ps1]" by (simp add: s(1) upt_conv_Cons del: upt_Suc)
  ultimately show ?case using one it(1) by (simp add: s(4) without_append del: upt_Suc)
qed (auto simp: resp_free.simps block_at_def free_block_without without_append intro!: memory_eqI)

section \<open>The two parsers agree\<close>

text \<open>Addresses from \<open>break_at\<close> on are not in use.\<close>

definition fresh :: "memory \<Rightarrow> bool" where
  "fresh m \<longleftrightarrow> (\<forall>x \<ge> break_at m. blocks m x = None)"

text \<open>The blocks \<open>fp\<close> are new in \<open>m'\<close>, and nothing else has changed.\<close>

definition extends :: "memory \<Rightarrow> address list \<Rightarrow> memory \<Rightarrow> bool" where
  "extends m fp m' \<longleftrightarrow> distinct fp \<and> break_at m \<le> break_at m' \<and> (\<forall>x \<in> set fp. break_at m \<le> x \<and> x < break_at m') \<and>
     (\<forall>x. x \<notin> set fp \<longrightarrow> blocks m' x = blocks m x)"

lemma extends_fresh: "extends m fp m' \<Longrightarrow> fresh m \<Longrightarrow> fresh m'"
  unfolding extends_def fresh_def by (metis le_trans linorder_not_less)

lemma extends_trans:
  "extends m fp1 m1 \<Longrightarrow> extends m1 fp2 m2 \<Longrightarrow> extends m (fp1 @ fp2) m2"
  unfolding extends_def by (auto dest: order_less_le_trans le_trans)

lemma extends_refl [simp]: "extends m [] m"
  by (simp add: extends_def)

lemma extends_write: "extends m fp m' \<Longrightarrow> a \<in> set fp \<Longrightarrow> extends m fp (write_block a b m')"
  by (auto simp: extends_def write_block_def)

lemma extends_allocate: "extends m [break_at m] (snd (allocate b m))"
  by (simp add: extends_def allocate_def)

lemma extends_without: "extends m fp m' \<Longrightarrow> fresh m \<Longrightarrow> blocks (without fp m') = blocks m"
  by (rule ext) (auto simp: extends_def fresh_def)

text \<open>The outcome of the parser with allocations, from that of the parser without.\<close>

definition agrees :: "memory \<Rightarrow> (alloc_outcome \<times> memory) res \<Rightarrow> resp_outcome res \<Rightarrow> bool" where
  "agrees m run result \<longleftrightarrow>
     (case result of
        Inl e \<Rightarrow> run = Inl e
      | Inr Incomplete \<Rightarrow> \<exists>m'. run = Inr (Needs_More, m') \<and> extends m [] m'
      | Inr ParseError \<Rightarrow> \<exists>m'. run = Inr (Malformed, m') \<and> extends m [] m'
      | Inr (Parsed n v) \<Rightarrow> \<exists>a fp m'. run = Inr (Allocated n a, m') \<and> value_at (blocks m') a v fp \<and> extends m fp m')"

lemma new_value_agrees:
  "(\<And>c a. c a = Some b \<Longrightarrow> value_at c a v [a]) \<Longrightarrow> agrees m (allocated n (new_value b m)) (Inr (Parsed n v))"
  unfolding agrees_def allocated_def new_value_def
  by (auto simp: allocate_def write_block_def extends_def intro!: exI [of _ "[break_at m]"])

lemma new_string_agrees:
  "(\<And>c a p. c a = Some (Value_Str ty p) \<Longrightarrow> c p = Some (Chars s) \<Longrightarrow> value_at c a v [a, p]) \<Longrightarrow>
   agrees m (allocated n (new_string_value ty s m)) (Inr (Parsed n v))"
  unfolding agrees_def allocated_def new_string_value_def
  by (auto simp: allocate_def write_block_def extends_def intro!: exI [of _ "[break_at m, Suc (break_at m)]"])

lemma agrees_bind:
  "(\<And>x. p = Inr x \<Longrightarrow> agrees m (f x) (g x)) \<Longrightarrow> agrees m (bindR p f) (bindR p g)"
  by (cases p) (simp_all add: agrees_def)

text \<open>An array of which some items have been read.\<close>

definition half_read :: "memory \<Rightarrow> address \<Rightarrow> nat \<Rightarrow> resp_value list \<Rightarrow> memory \<Rightarrow> bool" where
  "half_read m0 a k vs m \<longleftrightarrow> (\<exists>items ps fp. blocks m a = Some (Value_Array items (length vs + k)) \<and>
     blocks m items = Some (Items (map Some ps @ replicate k None)) \<and> values_at (blocks m) ps vs fp \<and> extends m0 (a # items # fp) m)"

lemma half_read_start:
  "half_read m (fst (new_array k m)) k [] (snd (new_array k m))"
  unfolding half_read_def new_array_def
  by (auto simp: allocate_def write_block_def extends_def intro!: exI [of _ "Suc (break_at m)"] exI [of _ "[]"])

lemma half_read_done: "half_read m0 a 0 vs m \<Longrightarrow> agrees m0 (Inr (Allocated n a, m)) (Inr (Parsed n (RESP_ARRAY vs)))"
  by (auto simp: half_read_def agrees_def)

lemma half_read_step:
  assumes "half_read m0 a (Suc k) vs m" "value_at (blocks m1) p v fp1" "extends m fp1 m1" "fresh m0"
  obtains m2 where "set_item a (length vs) p m1 = Inr m2" "half_read m0 a k (vs @ [v]) m2"
proof -
  obtain items ps fp where h: "blocks m a = Some (Value_Array items (length vs + Suc k))"
      "blocks m items = Some (Items (map Some ps @ replicate (Suc k) None))" "values_at (blocks m) ps vs fp" "extends m0 (a # items # fp) m"
    using assms(1) by (auto simp: half_read_def)
  have apart: "x \<notin> set fp1" if "x \<in> set (a # items # fp)" for x
    using that h(4) assms(3) unfolding extends_def by (meson linorder_not_less)
  have same: "blocks m1 x = blocks m x" if "x \<in> set (a # items # fp)" for x
    using apart [OF that] assms(3) by (simp add: extends_def)
  have len: "length ps = length vs" by (rule values_at_length [OF h(3)])
  define qs where "qs = map Some (ps @ [p]) @ replicate k None"
  define m2 where "m2 = write_block items (Items qs) m1"
  have upd: "(map Some ps @ replicate (Suc k) None)[length vs := Some p] = qs" by (simp add: qs_def len [symmetric] list_update_append)
  have "set_item a (length vs) p m1 = Inr m2"
    using h(1,2) same len upd by (simp add: set_item_def block_at_def m2_def)
  moreover have "values_at (blocks m2) (ps @ [p]) (vs @ [v]) (fp @ fp1)"
  proof (rule values_at_snoc)
    show "values_at (blocks m2) ps vs fp"
      by (rule value_at_cong(2) [OF h(3)]) (use h(4) same in \<open>auto simp: m2_def write_block_def extends_def\<close>)
    show "value_at (blocks m2) p v fp1"
      by (rule value_at_cong(1) [OF assms(2)]) (use apart in \<open>auto simp: m2_def write_block_def\<close>)
  qed
  moreover have "extends m0 (a # items # fp @ fp1) m2"
    using extends_write [OF extends_trans [OF h(4) assms(3)], of items "Items qs"] by (simp add: m2_def)
  moreover have "blocks m2 a = Some (Value_Array items (length (vs @ [v]) + k))" "blocks m2 items = Some (Items qs)"
    using h(1,4) same by (auto simp: m2_def write_block_def extends_def)
  ultimately have "set_item a (length vs) p m1 = Inr m2" "half_read m0 a k (vs @ [v]) m2"
    unfolding half_read_def qs_def by blast+
  then show ?thesis by (rule that)
qed

text \<open>Giving back a half-read array restores the memory.\<close>

lemma half_read_give_back:
  assumes "half_read m0 a k vs m" "extends m [] m1" "fresh m0"
  shows "\<exists>m2. give_back a (length vs) m1 = Inr m2 \<and> extends m0 [] m2"
proof -
  obtain items ps fp where h: "blocks m a = Some (Value_Array items (length vs + k))"
      "blocks m items = Some (Items (map Some ps @ replicate k None))" "values_at (blocks m) ps vs fp" "extends m0 (a # items # fp) m"
    using assms(1) by (auto simp: half_read_def)
  have same: "blocks m1 x = blocks m x" for x using assms(2) by (simp add: extends_def)
  have d: "distinct (a # items # fp)" using h(4) by (simp add: extends_def)
  have len: "length ps = length vs" by (rule values_at_length [OF h(3)])
  have "each_item resp_free a [0..<0 + length ps] m1 = Some (Inr (without fp m1))"
    by (rule resp_free_value(2) [OF h(3)]) (use d h(1,2) same in \<open>auto simp: items_from_def nth_append\<close>)
  moreover have "free_array a (without fp m1) = Inr (without [a, items] (without fp m1))"
    by (rule free_array_without) (use d h(1,2) same in auto)
  moreover have "extends m0 [] (without [a, items] (without fp m1))"
  proof -
    have x: "extends m0 (a # items # fp) m1" using extends_trans [OF h(4) assms(2)] by simp
    have "blocks (without [a, items] (without fp m1)) y = blocks (without (a # items # fp) m1) y" for y by simp
    then have "blocks (without [a, items] (without fp m1)) y = blocks m0 y" for y
      unfolding extends_without [OF x assms(3)] .
    with x show ?thesis by (simp add: extends_def)
  qed
  ultimately show ?thesis by (simp add: give_back_def len)
qed

lemma agrees_if:
  "(c \<Longrightarrow> agrees m run1 r1) \<Longrightarrow> (\<not> c \<Longrightarrow> agrees m run2 r2) \<Longrightarrow> agrees m (if c then run1 else run2) (if c then r1 else r2)"
  by simp

lemma agrees_option:
  "(x = None \<Longrightarrow> agrees m run1 r1) \<Longrightarrow> (\<And>y. x = Some y \<Longrightarrow> agrees m (run2 y) (r2 y)) \<Longrightarrow>
   agrees m (case x of None \<Rightarrow> run1 | Some y \<Rightarrow> run2 y) (case x of None \<Rightarrow> r1 | Some y \<Rightarrow> r2 y)"
  by (cases x) simp_all

lemma agrees_same [simp]:
  "agrees m (Inr (Needs_More, m)) (Inr Incomplete)" "agrees m (Inr (Malformed, m)) (Inr ParseError)"
  by (simp_all add: agrees_def)

lemma parse_alloc_agrees:
  "fresh m \<Longrightarrow> agrees m (parse_alloc mem len m) (resp_parse_value mem len)"
  "fresh m0 \<Longrightarrow> half_read m0 a k (rev items) m \<Longrightarrow>
     agrees m0 (parse_alloc_items a (length items) k mem len used m) (resp_parse_items k mem len used items)"
proof (induction mem len and k mem len used items arbitrary: m and m m0 a rule: resp_parse_value_resp_parse_items.induct)
  case (1 mem len)
  have array: "agrees m (let (v, m1) = new_array (nat n) m in parse_alloc_items v 0 (nat n) (drop (l + 2) mem) (len - (l + 2)) (l + 2) m1)
      (resp_parse_items (nat n) (drop (l + 2) mem) (len - (l + 2)) (l + 2) [])"
    if "len \<noteq> 0" "find_crlf (take len mem) = Some l" "mem ! 0 = CHR ''*''" "mem_atoi (drop 1 mem) = Inr n" "n \<noteq> -1" "\<not> n < 0" for n l
    using "1.IH" [OF that(1,2) refl refl _ _ _ _ that(3-6) "1.prems", of "fst (new_array (nat n) m)" "snd (new_array (nat n) m)"]
      half_read_start [of m "nat n"] that(3)
    by (simp add: case_prod_beta)
  show ?case
    unfolding parse_alloc.simps [of mem len m] resp_parse_value.simps [of mem len] Let_def [of "_ + 2"] Let_def [of "mem ! 0"]
    by (intro agrees_if agrees_option agrees_bind agrees_same new_value_agrees new_string_agrees array) simp_all
next
  case (2 mem len used items)
  then show ?case using half_read_done [of m0 a "rev items" m used] by simp
next
  case (3 k mem len used items)
  have m: "fresh m" using "3.prems" extends_fresh by (auto simp: half_read_def)
  have child: "agrees m (parse_alloc mem len m) (resp_parse_value mem len)" by (rule "3.IH"(1) [OF m])
  have stop: "agrees m0 (bindR (give_back a (length items) m1) (\<lambda>m2. Inr (r, m2))) (Inr q)"
    if "extends m [] m1" "r = Needs_More \<and> q = Incomplete \<or> r = Malformed \<and> q = ParseError" for m1 r q
    using half_read_give_back [OF "3.prems"(2) that(1) "3.prems"(1)] that(2) by (auto simp: agrees_def)
  show ?case
  proof (cases "resp_parse_value mem len")
    case (Inl e)
    with child show ?thesis by (simp add: agrees_def)
  next
    case (Inr r)
    show ?thesis
    proof (cases r)
      case (Parsed n v)
      from child Inr Parsed obtain p fp1 m1 where c: "parse_alloc mem len m = Inr (Allocated n p, m1)" "value_at (blocks m1) p v fp1"
          "extends m fp1 m1" by (auto simp: agrees_def)
      obtain m2 where m2: "set_item a (length (rev items)) p m1 = Inr m2" "half_read m0 a k (rev items @ [v]) m2"
        by (rule half_read_step [OF "3.prems"(2) c(2,3) "3.prems"(1)])
      have "agrees m0 (parse_alloc_items a (length (v # items)) k (drop n mem) (len - n) (used + n) m2)
          (resp_parse_items k (drop n mem) (len - n) (used + n) (v # items))"
        using "3.IH"(2) [of "Parsed n v" n v m0 a m2] Inr Parsed "3.prems"(1) m2(2) by simp
      with c(1) m2(1) Inr Parsed show ?thesis by simp
    qed (use child Inr stop in \<open>auto simp: agrees_def [of m]\<close>)
  qed
qed

section \<open>Properties\<close>

text \<open>The count of an array is believed before any item has arrived: for 13 bytes the parser first asks for 2147483647
  pointers, and \<open>imdb_calloc\<close> ends the program when the allocator does not have them.\<close>

theorem huge_array_is_allocated_first:
  "parse_alloc (''*2147483647'' @ CRLF @ [NUL]) 13 m =
     (let (v, m1) = new_array 2147483647 m in parse_alloc_items v 0 2147483647 [NUL] 0 13 m1) \<and>
   imdb_calloc (\<lambda>num bytes. if num * bytes \<le> 8000000000 then Some p else None) 2147483647 8 = Aborts"
proof
  have atoi: "mem_atoi (''2147483647'' @ CRLF @ [NUL]) = Inr 2147483647"
    by (simp add: mem_atoi_def number_ends_def atoi_def strtoll_val_def
      strtoll_def split_sign_def c_isspace_def c_isdigit_def digits_val_def digit_val_def CR_def LF_def NUL_def
      to_int32_def INT64_MIN_def INT64_MAX_def Let_def)
  have thirteen: "Suc (Suc (Suc (Suc (Suc (Suc (Suc (Suc (Suc (Suc (Suc (Suc (Suc 0)))))))))))) = 13" by simp
  from atoi show "parse_alloc (''*2147483647'' @ CRLF @ [NUL]) 13 m =
     (let (v, m1) = new_array 2147483647 m in parse_alloc_items v 0 2147483647 [NUL] 0 13 m1)"
    by (simp add: parse_alloc.simps [of "_ # _"] CR_def LF_def Let_def thirteen del: parse_alloc_items.simps)
  show "imdb_calloc (\<lambda>num bytes. if num * bytes \<le> 8000000000 then Some p else None) 2147483647 8 = Aborts"
    by (simp add: imdb_calloc_def)
qed

text \<open>C20: the parser that allocates has the outcome of the one that returns values. A request that is incomplete or
  malformed, however deeply nested, leaves no block behind and frees none twice; a parsed request owns blocks that
  were free before, and \<open>resp_free\<close> frees exactly these, each once, whatever else has changed in the meantime.\<close>

theorem parsed_requests_own_memory:
  assumes "fresh m"
  shows "case resp_parse mem len of
      Inl e \<Rightarrow> parse_alloc mem len m = Inl e
    | Inr Incomplete \<Rightarrow> \<exists>m1. parse_alloc mem len m = Inr (Needs_More, m1) \<and> blocks m1 = blocks m
    | Inr ParseError \<Rightarrow> \<exists>m1. parse_alloc mem len m = Inr (Malformed, m1) \<and> blocks m1 = blocks m
    | Inr (Parsed n v) \<Rightarrow> \<exists>a fp m1. parse_alloc mem len m = Inr (Allocated n a, m1) \<and> value_at (blocks m1) a v fp \<and>
        blocks (without fp m1) = blocks m \<and> (\<forall>x \<in> set fp. blocks m x = None) \<and>
        (\<forall>m2. (\<forall>x \<in> set fp. blocks m2 x = blocks m1 x) \<longrightarrow> resp_free (Some a) m2 = Some (Inr (without fp m2)))"
proof -
  have *: "agrees m (parse_alloc mem len m) (resp_parse mem len)"
    using parse_alloc_agrees(1) [OF assms] by (simp add: resp_parse_def)
  have none: "blocks m x = None" if "extends m fp m1" "x \<in> set fp" for fp m1 x
    using that assms by (auto simp: extends_def fresh_def)
  show ?thesis
  proof (cases "resp_parse mem len")
    case (Inl e)
    with * show ?thesis by (simp add: agrees_def)
  next
    case (Inr r)
    show ?thesis
    proof (cases r)
      case (Parsed n v)
      with * Inr obtain a fp m1 where p: "parse_alloc mem len m = Inr (Allocated n a, m1)" "value_at (blocks m1) a v fp" "extends m fp m1"
        by (auto simp: agrees_def)
      have "distinct fp" using p(3) by (simp add: extends_def)
      then have "resp_free (Some a) m2 = Some (Inr (without fp m2))" if "\<forall>x \<in> set fp. blocks m2 x = blocks m1 x" for m2
        using resp_free_value(1) [OF p(2) that] by simp
      with p none [OF p(3)] extends_without [OF p(3) assms] Inr Parsed show ?thesis by auto
    qed (use * Inr in \<open>auto simp: agrees_def extends_def fun_eq_iff\<close>)
  qed
qed

theorem parsed_requests_own_memory_witness:
  "\<exists>n a fp m1 m2. parse_alloc (encode (RESP_ARRAY [RESP_NIL, RESP_BULK_STRING ''k'']) @ [NUL]) (length (encode (RESP_ARRAY [RESP_NIL, RESP_BULK_STRING ''k''])))
      \<lparr>blocks = Map.empty, break_at = 0\<rparr> = Inr (Allocated n a, m1) \<and>
    value_at (blocks m1) a (RESP_ARRAY [RESP_NIL, RESP_BULK_STRING ''k'']) fp \<and>
    resp_free (Some a) m1 = Some (Inr m2) \<and> blocks m2 = Map.empty"
proof -
  let ?v = "RESP_ARRAY [RESP_NIL, RESP_BULK_STRING ''k'']"
  have "value_ok ?v" by (simp add: cstr_ok_def NUL_def INT32_MAX_def)
  then have p: "resp_parse (encode ?v @ [NUL]) (length (encode ?v)) = Inr (Parsed (length (encode ?v)) ?v)"
    using parse_complete [of ?v "[NUL]" "length (encode ?v)"] by (simp add: resp_parse_def)
  have "fresh \<lparr>blocks = Map.empty, break_at = 0\<rparr>" by (simp add: fresh_def)
  from parsed_requests_own_memory [OF this, of "encode ?v @ [NUL]" "length (encode ?v)"]
  obtain a fp m1 where "parse_alloc (encode ?v @ [NUL]) (length (encode ?v)) \<lparr>blocks = Map.empty, break_at = 0\<rparr> = Inr (Allocated (length (encode ?v)) a, m1)"
      "value_at (blocks m1) a ?v fp" "blocks (without fp m1) = Map.empty" "resp_free (Some a) m1 = Some (Inr (without fp m1))"
    unfolding p by (auto simp del: encode.simps value_at.simps)
  then show ?thesis by blast
qed

end
