(* ===== verification/Ledger.thy ===== *)
theory Ledger
  imports CackPrelude
begin

text \<open>
  The heap as the collection of its live blocks, for the theories that follow every \<open>malloc\<close> and \<open>free\<close> of the
  database, of the client and (with the open sockets) of the server. To free a block that is not live is a fault. Blocks with the same
  contents are not told apart: the ledger says how many of them are live, not which.
\<close>

section \<open>Blocks\<close>

text \<open>A block, by what it was allocated for; \<open>Chars_Block\<close> is a copied string.\<close>

datatype heap_block =
    Chars_Block string
  | Node_Block
  | List_Block
  | Object_Block
  | Entry_Block
  | Array_Block nat
  | Slots_Block nat
  | Table_Block
  | Database_Block
  | Reply_Block

type_synonym ledger = "heap_block multiset"

definition release :: "'b \<Rightarrow> 'b multiset \<Rightarrow> 'b multiset res" where
  "release b live = (if b \<in># live then Inr (live - {#b#}) else Inl DanglingDeref)"

lemma release_live [simp]: "release b (add_mset b live) = Inr live"
  by (simp add: release_def)

section \<open>Operations that agree and keep track\<close>

text \<open>
  The outcome with memory is the outcome without it; the blocks afterwards are those of the result, \<open>own x\<close>, and the
  \<open>rest\<close> that was there before.
\<close>

definition tracks :: "('a \<Rightarrow> 'b multiset) \<Rightarrow> 'b multiset \<Rightarrow> ('a \<times> 'b multiset) res \<Rightarrow> 'a res \<Rightarrow> bool" where
  "tracks own rest mm m \<longleftrightarrow> mm = bindR m (\<lambda>x. Inr (x, own x + rest))"

lemma tracks_Inr [simp]: "tracks own rest (Inr (x, mem)) (Inr y) \<longleftrightarrow> x = y \<and> mem = own y + rest"
  by (auto simp: tracks_def)

lemma tracks_Inl [simp]: "tracks own rest (Inl e) (Inl e') \<longleftrightarrow> e = e'"
  by (auto simp: tracks_def)

lemma tracks_bind:
  assumes "tracks own rest mm m" "res_ok UNIV Q m"
    and "\<And>x. Q x \<Longrightarrow> tracks own' rest' (ff (x, own x + rest)) (f x)"
  shows "tracks own' rest' (bindR mm ff) (bindR m f)"
  using assms by (cases m) (auto simp: tracks_def)

lemma tracks_same:
  assumes "res_ok UNIV Q m" and "\<And>x. Q x \<Longrightarrow> tracks own rest (ff x) (f x)"
  shows "tracks own rest (bindR m ff) (bindR m f)"
  using assms by (cases m) (auto simp: tracks_def)

lemma res_ok_any: "res_ok UNIV (\<lambda>x. True) m"
  by (cases m) simp_all

lemma tracks_seq:
  assumes "tracks own rest mm m" and "\<And>x. m = Inr x \<Longrightarrow> tracks own' rest' (ff (x, own x + rest)) (f x)"
  shows "tracks own' rest' (bindR mm ff) (bindR m f)"
  using assms by (cases m) (auto simp: tracks_def)

lemma tracks_step:
  assumes "\<And>x. m = Inr x \<Longrightarrow> tracks own rest (ff x) (f x)"
  shows "tracks own rest (bindR m ff) (bindR m f)"
  using assms by (cases m) (auto simp: tracks_def)

lemma tracks_if:
  "tracks own rest mm m \<Longrightarrow> tracks own rest mm' m' \<Longrightarrow> tracks own rest (if b then mm else mm') (if b then m else m')"
  by simp

end
