(* ===== verification/HashTable_Memory.thy ===== *)
theory HashTable_Memory
  imports HashTable_Wf Ledger
begin

text \<open>
  The memory of the hash table of \<open>src/hashtable.c\<close>: its operations with every \<open>malloc\<close> and \<open>free\<close>, and
  \<open>ht_destroy\<close>. The heap is the collection of the live blocks; to free a block that is not live is a fault.
  Values belong to the table once they are in it, and \<open>free_fn\<close> is called with each value that leaves it. The
  locale \<open>value_memory\<close> is the contract of such a function; under it each operation does what the one of
  \<open>HashTable\<close> does, frees nothing twice, and owns afterwards exactly the blocks of its bindings.
\<close>

text \<open>\<open>free_fn\<close>, which may be NULL.\<close>

type_synonym 'v free_fn = "('v \<Rightarrow> ledger \<Rightarrow> ledger res) option"

definition call_free :: "'v free_fn \<Rightarrow> 'v \<Rightarrow> ledger \<Rightarrow> ledger res" where
  "call_free free_fn v live = (case free_fn of None \<Rightarrow> Inr live | Some f \<Rightarrow> f v live)"

section \<open>The operations with their memory\<close>

definition ht_create_memory :: "nat \<Rightarrow> ledger \<Rightarrow> ('v hashtable \<times> ledger) res" where
  "ht_create_memory initial_capacity live =
     bindR (returns (ht_create initial_capacity)) (\<lambda>ht.
     Inr (ht, add_mset (Slots_Block (capacity ht)) (add_mset Table_Block live)))"

text \<open>The slots are freed in their order, then the array of slots and the table.\<close>

fun destroy_slots :: "'v free_fn \<Rightarrow> 'v ht_entry list \<Rightarrow> ledger \<Rightarrow> ledger res" where
  "destroy_slots free_fn [] live = Inr live"
| "destroy_slots free_fn (HtOccupied k h v # es) live =
     bindR (release (Chars_Block k) live) (\<lambda>live1.
     bindR (call_free free_fn v live1) (\<lambda>live2. destroy_slots free_fn es live2))"
| "destroy_slots free_fn (_ # es) live = destroy_slots free_fn es live"

definition ht_destroy :: "'v free_fn \<Rightarrow> 'v hashtable option \<Rightarrow> ledger \<Rightarrow> ledger res" where
  "ht_destroy free_fn p live =
     (case p of
        None \<Rightarrow> Inr live
      | Some ht \<Rightarrow>
          bindR (destroy_slots free_fn (entries ht) live) (\<lambda>live1.
          bindR (release (Slots_Block (capacity ht)) live1) (release Table_Block)))"

text \<open>Resizing moves the bindings without copying the keys.\<close>

definition ht_resize_memory :: "'v hashtable \<Rightarrow> nat \<Rightarrow> ledger \<Rightarrow> ('v hashtable \<times> ledger) res" where
  "ht_resize_memory ht new_cap live =
     bindR (returns (ht_resize ht new_cap)) (\<lambda>ht1.
     bindR (release (Slots_Block (capacity ht)) (add_mset (Slots_Block (capacity ht1)) live)) (\<lambda>live1.
     Inr (ht1, live1)))"

text \<open>When the key is there already, the old value is freed and the copy of the key in hand.\<close>

partial_function (option) ht_set_memory_loop ::
    "'v free_fn \<Rightarrow> string \<Rightarrow> 'v hashtable \<Rightarrow> string \<Rightarrow> 32 word \<Rightarrow> 'v \<Rightarrow> int \<Rightarrow> nat \<Rightarrow> ledger \<Rightarrow>
     (('v hashtable \<times> int) \<times> ledger) res option" where
  "ht_set_memory_loop free_fn key ht nk h nv is_new i live =
     (let cap = capacity ht; es = entries ht; idx = probe_index cap h i in
      case es ! idx of
        HtEmpty \<Rightarrow>
          Some (Inr ((ht\<lparr>entries := es[idx := HtOccupied nk h nv], size_of := size_of ht + 1\<rparr>, is_new), live))
      | HtTombstone \<Rightarrow>
          Some (Inr ((ht\<lparr>entries := es[idx := HtOccupied nk h nv], size_of := size_of ht + 1,
                        tombstones := tombstones ht - 1\<rparr>, is_new), live))
      | HtOccupied ek eh ev \<Rightarrow>
          if eh = h \<and> ek = key
          then Some (bindR (call_free free_fn ev live) (\<lambda>live1.
                     bindR (release (Chars_Block nk) live1) (\<lambda>live2.
                     Inr ((ht\<lparr>entries := es[idx := HtOccupied ek eh nv]\<rparr>, 0), live2))))
          else if probe_distance cap h idx > probe_distance cap eh idx
          then ht_set_memory_loop free_fn key (ht\<lparr>entries := es[idx := HtOccupied nk h nv]\<rparr>) ek eh ev 1 (Suc i) live
          else ht_set_memory_loop free_fn key ht nk h nv is_new (Suc i) live)"

definition ht_set_memory :: "'v free_fn \<Rightarrow> 'v hashtable \<Rightarrow> string \<Rightarrow> 'v \<Rightarrow> ledger \<Rightarrow> (('v hashtable \<times> int) \<times> ledger) res" where
  "ht_set_memory free_fn ht key v live =
     bindR (if load_high ht then ht_resize_memory ht (capacity ht * 2) live else Inr (ht, live)) (\<lambda>(ht1, live1).
     bindR (returns (ht_set_memory_loop free_fn key ht1 key (ht_hash key) v 1 0 (add_mset (Chars_Block key) live1)))
       (\<lambda>outcome. outcome))"

definition ht_delete_memory :: "'v free_fn \<Rightarrow> 'v hashtable \<Rightarrow> string \<Rightarrow> ledger \<Rightarrow> (('v hashtable \<times> int) \<times> ledger) res" where
  "ht_delete_memory free_fn ht key live =
     bindR (returns (ht_find ht key)) (\<lambda>p.
     case p of
       None \<Rightarrow> Inr ((ht, 0), live)
     | Some idx \<Rightarrow>
         (case entries ht ! idx of
            HtOccupied k h v \<Rightarrow>
              bindR (release (Chars_Block k) live) (\<lambda>live1.
              bindR (call_free free_fn v live1) (\<lambda>live2.
              let ht1 = bury ht idx in
              if load_low ht1
              then bindR (ht_resize_memory ht1 (capacity ht1 div 2) live2) (\<lambda>(ht2, live3). Inr ((ht2, 1), live3))
              else Inr ((ht1, 1), live2)))
          | _ \<Rightarrow> Inl DanglingDeref))"

section \<open>The blocks of a table\<close>

definition bag_memory :: "('v \<Rightarrow> ledger) \<Rightarrow> (string \<times> 'v) multiset \<Rightarrow> ledger" where
  "bag_memory blocks_of B = (\<Sum>(k, v) \<in># B. add_mset (Chars_Block k) (blocks_of v))"

lemma bag_memory_simps [simp]:
  "bag_memory f {#} = {#}"
  "bag_memory f (add_mset (k, v) B) = add_mset (Chars_Block k) (f v + bag_memory f B)"
  "bag_memory f (A + B) = bag_memory f A + bag_memory f B"
  by (simp_all add: bag_memory_def)

definition table_memory :: "('v \<Rightarrow> ledger) \<Rightarrow> 'v hashtable \<Rightarrow> ledger" where
  "table_memory blocks_of ht =
     add_mset (Slots_Block (capacity ht)) (add_mset Table_Block (bag_memory blocks_of (ht_bag ht)))"

lemma bag_memory_update:
  assumes "i < length es"
  shows "bag_memory f (slots_bag (es[i := e])) + bag_memory f (entry_bag (es ! i)) =
    bag_memory f (slots_bag es) + bag_memory f (entry_bag e)"
  using arg_cong [OF bag_update [OF assms, of e], of "bag_memory f"] by simp

lemma capacity_empty_table [simp]: "capacity (empty_table cap) = cap"
  by (simp add: empty_table_def)

lemma ht_create_memory_64:
  fixes f :: "'v \<Rightarrow> ledger"
  shows "ht_create_memory 64 live = Inr (empty_table 64 :: 'v hashtable, table_memory f (empty_table 64) + live)"
  by (simp add: ht_create_memory_def ht_create_64 table_memory_def)

lemma ht_resize_memory_eq:
  assumes "ht_resize ht n = Some ht1" "ht_bag ht1 = ht_bag ht"
  shows "ht_resize_memory ht n (table_memory f ht + live) = Inr (ht1, table_memory f ht1 + live)"
proof -
  have "add_mset (Slots_Block (capacity ht1)) (table_memory f ht + live) =
      add_mset (Slots_Block (capacity ht)) (table_memory f ht1 + live)"
    using assms(2) by (simp add: table_memory_def)
  then show ?thesis unfolding ht_resize_memory_def assms(1) by (simp only: returns_simps bindR_Inr release_live)
qed

section \<open>Values that the table frees\<close>

locale value_memory =
  fixes free_value :: "'v \<Rightarrow> ledger \<Rightarrow> ledger res"
    and blocks_of :: "'v \<Rightarrow> ledger"
  assumes free_value: "free_value v (blocks_of v + live) = Inr live"
begin

lemma destroy_slots_all: "destroy_slots (Some free_value) es (bag_memory blocks_of (slots_bag es) + live) = Inr live"
proof (induction es)
  case (Cons e es)
  then show ?case by (cases e) (simp_all add: call_free_def free_value add.assoc)
qed simp

lemma ht_destroy_all: "ht_destroy (Some free_value) (Some ht) (table_memory blocks_of ht + live) = Inr live"
  using destroy_slots_all [of "entries ht" "add_mset (Slots_Block (capacity ht)) (add_mset Table_Block live)"]
  by (simp add: ht_destroy_def table_memory_def ht_bag_def)

lemma set_memory_loop:
  assumes "ht_set_loop key ht nk h nv is_new i = Some q" "table_cap (capacity ht)" "length (entries ht) = capacity ht"
  shows "capacity (fst q) = capacity ht \<and>
    ht_set_memory_loop (Some free_value) key ht nk h nv is_new i
        (add_mset (Chars_Block nk) (blocks_of nv + (bag_memory blocks_of (ht_bag ht) + live))) =
      Some (Inr (q, bag_memory blocks_of (ht_bag (fst q)) + live))"
  using assms
proof (induction rule: ht_set_loop.raw_induct [rotated, consumes 1, case_names step])
  case (step loop key ht nk h nv is_new i q)
  let ?idx = "probe_index (capacity ht) h i"
  have idx: "?idx < length (entries ht)" using step.prems by simp
  note upd = bag_memory_update [OF idx, of blocks_of]
  note unfold = ht_set_memory_loop.simps [of "Some free_value" key ht nk h nv is_new i] Let_def
  show ?case
  proof (cases "entries ht ! ?idx")
    case HtEmpty
    with step(2) upd [of "HtOccupied nk h nv"] show ?thesis by (auto simp: unfold ht_bag_def add.assoc)
  next
    case HtTombstone
    with step(2) upd [of "HtOccupied nk h nv"] show ?thesis by (auto simp: unfold ht_bag_def add.assoc)
  next
    case (HtOccupied ek eh ev)
    consider (match) "eh = h" "ek = key"
      | (swap) "\<not> (eh = h \<and> ek = key)" "probe_distance (capacity ht) h ?idx > probe_distance (capacity ht) eh ?idx"
      | (walk) "\<not> (eh = h \<and> ek = key)" "\<not> probe_distance (capacity ht) h ?idx > probe_distance (capacity ht) eh ?idx"
      by blast
    then show ?thesis
    proof cases
      case match
      let ?ht' = "ht\<lparr>entries := (entries ht)[?idx := HtOccupied ek eh nv]\<rparr>"
      have "blocks_of nv + bag_memory blocks_of (ht_bag ht) = blocks_of ev + bag_memory blocks_of (ht_bag ?ht')"
        using upd [of "HtOccupied ek eh nv"] HtOccupied by (simp add: ht_bag_def ac_simps)
      then have *: "add_mset (Chars_Block nk) (blocks_of nv + (bag_memory blocks_of (ht_bag ht) + live)) =
          blocks_of ev + add_mset (Chars_Block nk) (bag_memory blocks_of (ht_bag ?ht') + live)"
        by (simp add: add.assoc [symmetric])
      have q: "q = (?ht', 0)" using step(2) match HtOccupied by (simp add: Let_def)
      show ?thesis
        using match HtOccupied free_value [of ev "add_mset (Chars_Block nk) (bag_memory blocks_of (ht_bag ?ht') + live)"]
        unfolding * unfold q by (simp add: call_free_def)
    next
      case swap
      let ?ht1 = "ht\<lparr>entries := (entries ht)[?idx := HtOccupied nk h nv]\<rparr>"
      have "loop key ?ht1 ek eh ev 1 (Suc i) = Some q" using step(2) swap HtOccupied by (auto simp add: Let_def)
      note IH = step(1) [OF this]
      have *: "add_mset (Chars_Block nk) (blocks_of nv + (bag_memory blocks_of (ht_bag ht) + live)) =
          add_mset (Chars_Block ek) (blocks_of ev + (bag_memory blocks_of (ht_bag ?ht1) + live))"
        using upd [of "HtOccupied nk h nv"] HtOccupied by (simp add: ht_bag_def ac_simps)
      have "ht_set_memory_loop (Some free_value) key ht nk h nv is_new i l =
          ht_set_memory_loop (Some free_value) key ?ht1 ek eh ev 1 (Suc i) l" for l
        using swap HtOccupied by (auto simp: unfold)
      with IH step.prems show ?thesis unfolding * by simp
    next
      case walk
      have "loop key ht nk h nv is_new (Suc i) = Some q" using step(2) walk HtOccupied by (auto simp: Let_def)
      note IH = step(1) [OF this step.prems]
      have "ht_set_memory_loop (Some free_value) key ht nk h nv is_new i l =
          ht_set_memory_loop (Some free_value) key ht nk h nv is_new (Suc i) l" for l
        using walk HtOccupied by (auto simp: unfold)
      with IH show ?thesis by simp
    qed
  qed
qed

lemma ht_set_memory_eq:
  assumes wf: "wf_ht ht" and set: "ht_set ht key v = Some q"
  shows "ht_set_memory (Some free_value) ht key v (table_memory blocks_of ht + (blocks_of v + live)) =
    Inr (q, table_memory blocks_of (fst q) + live)"
proof -
  obtain ht1 where g: "grown ht = Some ht1" "slots_ok (capacity ht1) (entries ht1)" "ht_bag ht1 = ht_bag ht"
    using grown_total [OF wf] by blast
  let ?rest = "add_mset (Slots_Block (capacity ht1)) (add_mset Table_Block live)"
  have start: "(if load_high ht then ht_resize_memory ht (capacity ht * 2) (table_memory blocks_of ht + (blocks_of v + live))
      else Inr (ht, table_memory blocks_of ht + (blocks_of v + live))) = Inr (ht1, table_memory blocks_of ht1 + (blocks_of v + live))"
    using g by (auto simp: grown_def ht_resize_memory_eq split: if_splits)
  have "ht_set_loop key ht1 key (ht_hash key) v 1 0 = Some q" using set g(1) by (simp add: ht_set_grown)
  from set_memory_loop [OF this slots_okD(1,2) [OF g(2)], of ?rest]
  show ?thesis unfolding ht_set_memory_def start by (simp add: table_memory_def ac_simps)
qed

lemma ht_delete_memory_eq:
  assumes wf: "wf_ht ht" and del: "ht_delete ht key = Some q"
  shows "ht_delete_memory (Some free_value) ht key (table_memory blocks_of ht + live) =
    Inr (q, table_memory blocks_of (fst q) + live)"
proof -
  obtain p where p: "ht_find ht key = Some p"
    and at: "\<And>s. p = Some s \<Longrightarrow> s < capacity ht \<and> (\<exists>v. entries ht ! s = HtOccupied key (ht_hash key) v)"
    using ht_find_total [OF wf, of key] by blast
  show ?thesis
  proof (cases p)
    case None
    with p del show ?thesis by (auto simp: ht_delete_def ht_delete_memory_def)
  next
    case (Some s)
    with at obtain v where s: "s < capacity ht" "entries ht ! s = HtOccupied key (ht_hash key) v" by blast
    note b = bury_facts [OF wf s]
    have "table_memory blocks_of ht = add_mset (Chars_Block key) (blocks_of v + table_memory blocks_of (bury ht s))"
      using arg_cong [OF b(2), of "bag_memory blocks_of"] b(3) by (simp add: table_memory_def ac_simps)
    then have freed: "bindR (release (Chars_Block key) (table_memory blocks_of ht + live)) (call_free (Some free_value) v) =
        Inr (table_memory blocks_of (bury ht s) + live)"
      using free_value [of v "table_memory blocks_of (bury ht s) + live"] by (simp add: call_free_def add.assoc)
    show ?thesis
    proof (cases "load_low (bury ht s)")
      case True
      from shrink_total [OF b(1) True] obtain ht' where
        "ht_resize (bury ht s) (capacity (bury ht s) div 2) = Some ht'" "ht_bag ht' = ht_bag (bury ht s)" by blast
      with True p Some s del freed show ?thesis
        by (auto simp: ht_delete_def ht_delete_memory_def bindR_eq_Inr Let_def ht_resize_memory_eq)
    next
      case False
      with p Some s del freed show ?thesis
        by (auto simp: ht_delete_def ht_delete_memory_def bindR_eq_Inr Let_def)
    qed
  qed
qed

end

end
