(* ===== verification/Database_Memory.thy ===== *)
theory Database_Memory
  imports HashTable_Memory Database_Spec
begin

text \<open>
  The memory of the database: the functions of \<open>src/object.c\<close> and \<open>src/db.c\<close> with every \<open>malloc\<close> and
  \<open>free\<close>, among them \<open>obj_free\<close>, \<open>entry_free\<close> and \<open>db_destroy\<close>. The operations are those of \<open>Database\<close>, with the
  live blocks passed along. \<open>entry_free\<close> is the function that the table calls for its values: it meets the contract
  \<open>value_memory\<close>, so every history of operations owns exactly the blocks of the keys and entries that are stored,
  and \<open>db_destroy\<close> gives all of them back.
\<close>

section \<open>Objects and entries\<close>

text \<open>\<open>imdb_strdup\<close> and \<open>imdb_free\<close> of a string; for NULL neither does anything.\<close>

definition strdup_memory :: "cstr \<Rightarrow> ledger \<Rightarrow> ledger" where
  "strdup_memory str mem = (case str of None \<Rightarrow> mem | Some s \<Rightarrow> add_mset (Chars_Block s) mem)"

definition free_cstr :: "cstr \<Rightarrow> ledger \<Rightarrow> ledger res" where
  "free_cstr str mem = (case str of None \<Rightarrow> Inr mem | Some s \<Rightarrow> release (Chars_Block s) mem)"

definition obj_create_string_memory :: "cstr \<Rightarrow> ledger \<Rightarrow> dbobj \<times> ledger" where
  "obj_create_string_memory str mem = (obj_create_string str, strdup_memory str (add_mset Object_Block mem))"

definition obj_create_int_memory :: "int \<Rightarrow> ledger \<Rightarrow> dbobj \<times> ledger" where
  "obj_create_int_memory num mem = (obj_create_int num, add_mset Object_Block mem)"

definition obj_create_list_memory :: "ledger \<Rightarrow> dbobj \<times> ledger" where
  "obj_create_list_memory mem = (obj_create_list, add_mset List_Block (add_mset Object_Block mem))"

text \<open>The loop of \<open>list_destroy\<close> over the nodes, by their values.\<close>

fun free_nodes :: "cstr list \<Rightarrow> ledger \<Rightarrow> ledger res" where
  "free_nodes [] mem = Inr mem"
| "free_nodes (v # vs) mem =
     bindR (free_cstr v mem) (\<lambda>mem1. bindR (release Node_Block mem1) (free_nodes vs))"

definition obj_free :: "dbobj option \<Rightarrow> ledger \<Rightarrow> ledger res" where
  "obj_free p mem =
     (case p of
        None \<Rightarrow> Inr mem
      | Some ob \<Rightarrow>
          bindR (case ob of
                   OBJ_STRING str \<Rightarrow> free_cstr str mem
                 | OBJ_INT num \<Rightarrow> Inr mem
                 | OBJ_LIST vs \<Rightarrow> bindR (free_nodes vs mem) (release List_Block))
            (release Object_Block))"

definition entry_free :: "db_entry option \<Rightarrow> ledger \<Rightarrow> ledger res" where
  "entry_free p mem =
     (case p of
        None \<Rightarrow> Inr mem
      | Some entry \<Rightarrow> bindR (obj_free (Some (obj entry)) mem) (release Entry_Block))"

abbreviation db_free_fn :: "db_entry free_fn" where
  "db_free_fn \<equiv> Some (\<lambda>entry. entry_free (Some entry))"

section \<open>The operations with their memory\<close>

definition db_create_memory :: "clock \<Rightarrow> ledger \<Rightarrow> (database \<times> ledger) res" where
  "db_create_memory clk mem =
     bindR (ht_create_memory 64 (add_mset Database_Block mem)) (\<lambda>(ht, mem1).
     Inr (\<lparr>db_ht = ht, last_expire_sweep = clk 0, db_ticks = 1\<rparr>, mem1))"

definition db_destroy :: "database option \<Rightarrow> ledger \<Rightarrow> ledger res" where
  "db_destroy p mem =
     (case p of
        None \<Rightarrow> Inr mem
      | Some db \<Rightarrow> bindR (ht_destroy db_free_fn (Some (db_ht db)) mem) (release Database_Block))"

definition ht_put_memory :: "database \<Rightarrow> string \<Rightarrow> db_entry \<Rightarrow> ledger \<Rightarrow> (database \<times> ledger) res" where
  "ht_put_memory db key e mem =
     bindR (ht_set_memory db_free_fn (db_ht db) key e mem) (\<lambda>((ht, r), mem1). Inr (db\<lparr>db_ht := ht\<rparr>, mem1))"

definition ht_remove_memory :: "database \<Rightarrow> string \<Rightarrow> ledger \<Rightarrow> ((database \<times> int) \<times> ledger) res" where
  "ht_remove_memory db key mem =
     bindR (ht_delete_memory db_free_fn (db_ht db) key mem) (\<lambda>((ht, r), mem1). Inr ((db\<lparr>db_ht := ht\<rparr>, r), mem1))"

text \<open>Code that neither allocates nor frees.\<close>

definition unchanged :: "ledger \<Rightarrow> 'a res \<Rightarrow> ('a \<times> ledger) res" where
  "unchanged mem m = bindR m (\<lambda>x. Inr (x, mem))"

definition check_expired_memory :: "clock \<Rightarrow> database \<Rightarrow> string \<Rightarrow> ledger \<Rightarrow> ((database \<times> bool) \<times> ledger) res" where
  "check_expired_memory clk db key mem =
     bindR (returns (ht_get_entry (db_ht db) key)) (\<lambda>he.
     case he of
       None \<Rightarrow> Inr ((db, False), mem)
     | Some idx \<Rightarrow>
         bindR (entry_at db idx) (\<lambda>entry.
         if expire entry \<ge> 0
         then (let (now, db1) = imdb_mstime clk db in
               if now > expire entry
               then bindR (ht_remove_memory db1 key mem) (\<lambda>((db2, r), mem1). Inr ((db2, True), mem1))
               else Inr ((db1, False), mem))
         else Inr ((db, False), mem)))"

definition db_get_entry_memory :: "clock \<Rightarrow> database \<Rightarrow> string \<Rightarrow> ledger \<Rightarrow> ((database \<times> nat option) \<times> ledger) res" where
  "db_get_entry_memory clk db key mem =
     bindR (check_expired_memory clk db key mem) (\<lambda>((db1, gone), mem1).
     unchanged mem1 (if gone then Inr (db1, None) else bindR (entry_ptr db1 key) (\<lambda>p. Inr (db1, p))))"

definition db_set_memory :: "database \<Rightarrow> cstr \<Rightarrow> cstr \<Rightarrow> ledger \<Rightarrow> ((database \<times> int) \<times> ledger) res" where
  "db_set_memory db key0 value mem =
     (let mem1 = add_mset Entry_Block mem;
          (ob, mem2) = (case obj_try_parse_int value of
                           Some num \<Rightarrow> obj_create_int_memory num mem1
                         | None \<Rightarrow> obj_create_string_memory value mem1) in
      bindR (deref key0) (\<lambda>key.
      bindR (ht_put_memory db key \<lparr>obj = ob, expire = -1\<rparr> mem2) (\<lambda>(db1, mem3). Inr ((db1, 1), mem3))))"

definition db_get_memory :: "clock \<Rightarrow> database \<Rightarrow> cstr \<Rightarrow> ledger \<Rightarrow> ((database \<times> dbobj option) \<times> ledger) res" where
  "db_get_memory clk db key0 mem =
     bindR (deref key0) (\<lambda>key.
     bindR (db_get_entry_memory clk db key mem) (\<lambda>((db1, p), mem1).
     unchanged mem1 (case p of
       None \<Rightarrow> Inr (db1, None)
     | Some idx \<Rightarrow> bindR (entry_at db1 idx) (\<lambda>entry. Inr (db1, Some (obj entry))))))"

definition db_del_memory :: "clock \<Rightarrow> database \<Rightarrow> cstr \<Rightarrow> ledger \<Rightarrow> ((database \<times> int) \<times> ledger) res" where
  "db_del_memory clk db key0 mem =
     bindR (deref key0) (\<lambda>key.
     bindR (check_expired_memory clk db key mem) (\<lambda>((db1, gone), mem1). ht_remove_memory db1 key mem1))"

definition db_exists_memory :: "clock \<Rightarrow> database \<Rightarrow> cstr \<Rightarrow> ledger \<Rightarrow> ((database \<times> int) \<times> ledger) res" where
  "db_exists_memory clk db key0 mem =
     bindR (deref key0) (\<lambda>key.
     bindR (check_expired_memory clk db key mem) (\<lambda>((db1, gone), mem1).
     unchanged mem1 (if gone then Inr (db1, 0)
       else bindR (returns (ht_exists (db_ht db1) key)) (\<lambda>r. Inr (db1, r)))))"

text \<open>The entry that \<open>db_incr\<close> creates for a missing key.\<close>

definition put_number_memory :: "database \<Rightarrow> string \<Rightarrow> int \<Rightarrow> ledger \<Rightarrow> ((database \<times> int) \<times> ledger) res" where
  "put_number_memory db key delta mem =
     (let (ob, mem1) = obj_create_int_memory delta (add_mset Entry_Block mem) in
      bindR (ht_put_memory db key \<lparr>obj = ob, expire = -1\<rparr> mem1) (\<lambda>(db1, mem2). Inr ((db1, delta), mem2)))"

definition db_incr_memory :: "clock \<Rightarrow> database \<Rightarrow> cstr \<Rightarrow> int \<Rightarrow> ledger \<Rightarrow> ((database \<times> int) \<times> ledger) res" where
  "db_incr_memory clk db key0 delta mem =
     bindR (deref key0) (\<lambda>key.
     bindR (check_expired_memory clk db key mem) (\<lambda>((db1, gone), mem1).
     if gone then put_number_memory db1 key delta mem1
     else
       bindR (entry_ptr db1 key) (\<lambda>p.
       case p of
         None \<Rightarrow> put_number_memory db1 key delta mem1
       | Some idx \<Rightarrow>
           bindR (entry_at db1 idx) (\<lambda>entry.
           case obj entry of
             OBJ_INT num \<Rightarrow>
               bindR (int64 (num + delta)) (\<lambda>n. Inr ((write_entry db1 idx (entry\<lparr>obj := OBJ_INT n\<rparr>), n), mem1))
           | OBJ_STRING str \<Rightarrow>
               (case obj_try_parse_int str of
                  Some num \<Rightarrow>
                    bindR (obj_free (Some (obj entry)) mem1) (\<lambda>mem2.
                    bindR (int64 (num + delta)) (\<lambda>n.
                    let (ob, mem3) = obj_create_int_memory n mem2 in
                    Inr ((write_entry db1 idx (entry\<lparr>obj := ob\<rparr>), n), mem3)))
                | None \<Rightarrow> Inr ((db1, INT64_MIN), mem1))
           | OBJ_LIST vs \<Rightarrow> Inr ((db1, INT64_MIN), mem1)))))"

text \<open>A missing key is given an entry with an empty list, which \<open>ht_set\<close> takes over in \<open>save_entry\<close>.\<close>

definition get_or_create_list_memory ::
    "clock \<Rightarrow> database \<Rightarrow> string \<Rightarrow> ledger \<Rightarrow> ((database \<times> nat option \<times> db_entry) \<times> ledger) res" where
  "get_or_create_list_memory clk db key mem =
     bindR (check_expired_memory clk db key mem) (\<lambda>((db1, gone), mem1).
     bindR (entry_ptr db1 key) (\<lambda>p.
     case p of
       Some idx \<Rightarrow> bindR (entry_at db1 idx) (\<lambda>entry. Inr ((db1, Some idx, entry), mem1))
     | None \<Rightarrow>
         (let (ob, mem2) = obj_create_list_memory (add_mset Entry_Block mem1) in
          Inr ((db1, None, \<lparr>obj = ob, expire = -1\<rparr>), mem2))))"

definition save_entry_memory :: "database \<Rightarrow> string \<Rightarrow> nat option \<Rightarrow> db_entry \<Rightarrow> ledger \<Rightarrow> (database \<times> ledger) res" where
  "save_entry_memory db key slot e mem =
     (case slot of Some idx \<Rightarrow> Inr (write_entry db idx e, mem) | None \<Rightarrow> ht_put_memory db key e mem)"

text \<open>\<open>make_node\<close>: the node and the copy of the value.\<close>

definition make_node_memory :: "cstr \<Rightarrow> ledger \<Rightarrow> ledger" where
  "make_node_memory v mem = strdup_memory v (add_mset Node_Block mem)"

definition db_push_memory ::
    "(cstr \<Rightarrow> cstr list \<Rightarrow> cstr list) \<Rightarrow> clock \<Rightarrow> database \<Rightarrow> cstr \<Rightarrow> cstr \<Rightarrow> ledger \<Rightarrow> ((database \<times> int) \<times> ledger) res" where
  "db_push_memory push clk db key0 v mem =
     bindR (deref key0) (\<lambda>key.
     bindR (get_or_create_list_memory clk db key mem) (\<lambda>((db1, slot, entry), mem1).
     case obj entry of
       OBJ_LIST vs \<Rightarrow>
         bindR (save_entry_memory db1 key slot (entry\<lparr>obj := OBJ_LIST (push v vs)\<rparr>) (make_node_memory v mem1)) (\<lambda>(db2, mem2).
         Inr ((db2, to_int32 (int (length (push v vs)))), mem2))
     | _ \<Rightarrow> Inr ((db1, -1), mem1)))"

definition db_lpush_memory :: "clock \<Rightarrow> database \<Rightarrow> cstr \<Rightarrow> cstr \<Rightarrow> ledger \<Rightarrow> ((database \<times> int) \<times> ledger) res" where
  "db_lpush_memory = db_push_memory (\<lambda>v vs. v # vs)"

definition db_rpush_memory :: "clock \<Rightarrow> database \<Rightarrow> cstr \<Rightarrow> cstr \<Rightarrow> ledger \<Rightarrow> ((database \<times> int) \<times> ledger) res" where
  "db_rpush_memory = db_push_memory (\<lambda>v vs. vs @ [v])"

text \<open>The node of a popped value is freed; the value is handed to the caller.\<close>

definition db_pop_memory :: "list_op \<Rightarrow> clock \<Rightarrow> database \<Rightarrow> cstr \<Rightarrow> ledger \<Rightarrow> ((database \<times> cstr) \<times> ledger) res" where
  "db_pop_memory which clk db key0 mem =
     bindR (deref key0) (\<lambda>key.
     bindR (check_expired_memory clk db key mem) (\<lambda>((db1, gone), mem1).
     if gone then Inr ((db1, None), mem1)
     else
       bindR (entry_ptr db1 key) (\<lambda>p.
       case p of
         None \<Rightarrow> Inr ((db1, None), mem1)
       | Some idx \<Rightarrow>
           bindR (entry_at db1 idx) (\<lambda>entry.
           case obj entry of
             OBJ_LIST vs \<Rightarrow>
               (let (vs', r) = vlist_step vs which;
                    val = (case r of None \<Rightarrow> None | Some v \<Rightarrow> v);
                    db2 = write_entry db1 idx (entry\<lparr>obj := OBJ_LIST vs'\<rparr>)
                in bindR (case r of None \<Rightarrow> Inr mem1 | Some v \<Rightarrow> release Node_Block mem1) (\<lambda>mem2.
                   if length vs' = 0
                   then bindR (ht_remove_memory db2 key mem2) (\<lambda>((db3, d), mem3). Inr ((db3, val), mem3))
                   else Inr ((db2, val), mem2)))
           | _ \<Rightarrow> Inr ((db1, None), mem1)))))"

definition db_lpop_memory :: "clock \<Rightarrow> database \<Rightarrow> cstr \<Rightarrow> ledger \<Rightarrow> ((database \<times> cstr) \<times> ledger) res" where
  "db_lpop_memory = db_pop_memory LPop"

definition db_rpop_memory :: "clock \<Rightarrow> database \<Rightarrow> cstr \<Rightarrow> ledger \<Rightarrow> ((database \<times> cstr) \<times> ledger) res" where
  "db_rpop_memory = db_pop_memory RPop"

definition db_llen_memory :: "clock \<Rightarrow> database \<Rightarrow> cstr \<Rightarrow> ledger \<Rightarrow> ((database \<times> int) \<times> ledger) res" where
  "db_llen_memory clk db key0 mem =
     bindR (deref key0) (\<lambda>key.
     bindR (check_expired_memory clk db key mem) (\<lambda>((db1, gone), mem1).
     unchanged mem1 (if gone then Inr (db1, 0)
     else
       bindR (entry_ptr db1 key) (\<lambda>p.
       case p of
         None \<Rightarrow> Inr (db1, 0)
       | Some idx \<Rightarrow>
           bindR (entry_at db1 idx) (\<lambda>entry.
           case obj entry of
             OBJ_LIST vs \<Rightarrow> Inr (db1, int (length vs))
           | _ \<Rightarrow> Inr (db1, -1))))))"

text \<open>The array of a range is allocated; the strings in it are borrowed.\<close>

definition list_range_memory :: "cstr list \<Rightarrow> int \<Rightarrow> int \<Rightarrow> ledger \<Rightarrow> cstr list option \<times> ledger" where
  "list_range_memory vs start stop mem =
     (case vlist_range vs start stop of
        None \<Rightarrow> (None, mem)
      | Some xs \<Rightarrow> (Some xs, add_mset (Array_Block (length xs)) mem))"

definition db_lrange_memory :: "clock \<Rightarrow> database \<Rightarrow> cstr \<Rightarrow> int \<Rightarrow> int \<Rightarrow> ledger \<Rightarrow> ((database \<times> cstr list option) \<times> ledger) res" where
  "db_lrange_memory clk db key0 start stop mem =
     bindR (deref key0) (\<lambda>key.
     bindR (check_expired_memory clk db key mem) (\<lambda>((db1, gone), mem1).
     if gone then Inr ((db1, None), mem1)
     else
       bindR (entry_ptr db1 key) (\<lambda>p.
       case p of
         None \<Rightarrow> Inr ((db1, None), mem1)
       | Some idx \<Rightarrow>
           bindR (entry_at db1 idx) (\<lambda>entry.
           case obj entry of
             OBJ_LIST vs \<Rightarrow> (let (items, mem2) = list_range_memory vs start stop mem1 in Inr ((db1, items), mem2))
           | _ \<Rightarrow> Inr ((db1, None), mem1)))))"

definition db_expire_memory :: "clock \<Rightarrow> database \<Rightarrow> cstr \<Rightarrow> int \<Rightarrow> ledger \<Rightarrow> ((database \<times> int) \<times> ledger) res" where
  "db_expire_memory clk db key0 seconds mem =
     bindR (deref key0) (\<lambda>key.
     bindR (db_get_entry_memory clk db key mem) (\<lambda>((db1, p), mem1).
     unchanged mem1 (case p of
       None \<Rightarrow> Inr (db1, 0)
     | Some idx \<Rightarrow>
         bindR (entry_at db1 idx) (\<lambda>entry.
         let (now, db2) = imdb_mstime clk db1 in
         bindR (int64 (seconds * 1000)) (\<lambda>ms.
         bindR (int64 (now + ms)) (\<lambda>at.
         Inr (write_entry db2 idx (entry\<lparr>expire := at\<rparr>), 1)))))))"

definition db_ttl_memory :: "clock \<Rightarrow> database \<Rightarrow> cstr \<Rightarrow> ledger \<Rightarrow> ((database \<times> int) \<times> ledger) res" where
  "db_ttl_memory clk db key0 mem =
     bindR (deref key0) (\<lambda>key.
     bindR (db_get_entry_memory clk db key mem) (\<lambda>((db1, p), mem1).
     unchanged mem1 (case p of
       None \<Rightarrow> Inr (db1, -2)
     | Some idx \<Rightarrow>
         bindR (entry_at db1 idx) (\<lambda>entry.
         if expire entry < 0 then Inr (db1, -1)
         else
           (let (now, db2) = imdb_mstime clk db1 in
            bindR (int64 (expire entry - now)) (\<lambda>left.
            let remaining = c_div left 1000 in
            Inr (db2, if remaining > 0 then remaining else 0)))))))"

definition db_persist_memory :: "clock \<Rightarrow> database \<Rightarrow> cstr \<Rightarrow> ledger \<Rightarrow> ((database \<times> int) \<times> ledger) res" where
  "db_persist_memory clk db key0 mem =
     bindR (deref key0) (\<lambda>key.
     bindR (db_get_entry_memory clk db key mem) (\<lambda>((db1, p), mem1).
     unchanged mem1 (case p of
       None \<Rightarrow> Inr (db1, 0)
     | Some idx \<Rightarrow>
         bindR (entry_at db1 idx) (\<lambda>entry.
         if expire entry < 0 then Inr (db1, 0)
         else Inr (write_entry db1 idx (entry\<lparr>expire := -1\<rparr>), 1)))))"

definition db_flush_memory :: "database \<Rightarrow> ledger \<Rightarrow> (database \<times> ledger) res" where
  "db_flush_memory db mem =
     bindR (ht_destroy db_free_fn (Some (db_ht db)) mem) (\<lambda>mem1.
     bindR (ht_create_memory 64 mem1) (\<lambda>(ht, mem2). Inr (db\<lparr>db_ht := ht\<rparr>, mem2)))"

text \<open>The sweep copies the key before the deletion frees it.\<close>

fun sweep_loop_memory :: "nat \<Rightarrow> int \<Rightarrow> database \<Rightarrow> nat \<Rightarrow> ledger \<Rightarrow> (database \<times> ledger) res" where
  "sweep_loop_memory 0 now db index mem = Inr (db, mem)"
| "sweep_loop_memory (Suc left) now db index mem =
     (case ht_iter_next (db_ht db) index of
        (index', None) \<Rightarrow> Inr (db, mem)
      | (index', Some s) \<Rightarrow>
          (case entries (db_ht db) ! s of
             HtOccupied key h entry \<Rightarrow>
               if expire entry \<ge> 0 \<and> now > expire entry
               then bindR (ht_remove_memory db key (strdup_memory (Some key) mem)) (\<lambda>((db1, r), mem1).
                    bindR (free_cstr (Some key) mem1) (\<lambda>mem2. sweep_loop_memory left now db1 0 mem2))
               else sweep_loop_memory left now db index' mem
           | _ \<Rightarrow> Inr (db, mem)))"

definition db_expire_sweep_memory :: "clock \<Rightarrow> database \<Rightarrow> ledger \<Rightarrow> (database \<times> ledger) res" where
  "db_expire_sweep_memory clk db mem =
     (let (now, db1) = imdb_mstime clk db in
      bindR (int64 (now - last_expire_sweep db1)) (\<lambda>elapsed.
      if elapsed < EXPIRE_SWEEP_INTERVAL then Inr (db1, mem)
      else
        (let db2 = db1\<lparr>last_expire_sweep := now\<rparr> in
         if ht_size (db_ht db2) = 0 then Inr (db2, mem)
         else sweep_loop_memory EXPIRE_SWEEP_SAMPLES now db2 0 mem)))"

end
