(* ===== verification/Database_Memory_Props.thy ===== *)
theory Database_Memory_Props
  imports Database_Memory
begin

text \<open>
  What the database owns. Each operation with its memory has the outcome of the operation of \<open>Database\<close>; it turns
  the blocks of the stored keys and entries into those of the ones stored afterwards, besides what is handed to the
  caller, and never frees a block twice.
\<close>

section \<open>The blocks of entries\<close>

definition cstr_blocks :: "cstr \<Rightarrow> ledger" where
  "cstr_blocks str = (case str of None \<Rightarrow> {#} | Some s \<Rightarrow> {#Chars_Block s#})"

definition nodes_blocks :: "cstr list \<Rightarrow> ledger" where
  "nodes_blocks vs = sum_list (map (\<lambda>v. add_mset Node_Block (cstr_blocks v)) vs)"

fun obj_blocks :: "dbobj \<Rightarrow> ledger" where
  "obj_blocks (OBJ_STRING str) = add_mset Object_Block (cstr_blocks str)"
| "obj_blocks (OBJ_INT num) = {#Object_Block#}"
| "obj_blocks (OBJ_LIST vs) = add_mset Object_Block (add_mset List_Block (nodes_blocks vs))"

definition entry_blocks :: "db_entry \<Rightarrow> ledger" where
  "entry_blocks e = add_mset Entry_Block (obj_blocks (obj e))"

definition db_memory :: "database \<Rightarrow> ledger" where
  "db_memory db = add_mset Database_Block (table_memory entry_blocks (db_ht db))"

lemma cstr_blocks_simps [simp]: "cstr_blocks None = {#}" "cstr_blocks (Some s) = {#Chars_Block s#}"
  by (simp_all add: cstr_blocks_def)

lemma nodes_blocks_simps [simp]:
  "nodes_blocks [] = {#}"
  "nodes_blocks (v # vs) = add_mset Node_Block (cstr_blocks v + nodes_blocks vs)"
  "nodes_blocks (vs @ ws) = nodes_blocks vs + nodes_blocks ws"
  by (simp_all add: nodes_blocks_def)

lemma strdup_memory_eq [simp]: "strdup_memory str mem = cstr_blocks str + mem"
  by (cases str) (simp_all add: strdup_memory_def)

lemma free_cstr_own [simp]: "free_cstr str (cstr_blocks str + mem) = Inr mem"
  by (cases str) (simp_all add: free_cstr_def)

lemma free_nodes_own: "free_nodes vs (nodes_blocks vs + mem) = Inr mem"
proof (induction vs)
  case (Cons v vs)
  then show ?case using free_cstr_own [of v "add_mset Node_Block (nodes_blocks vs + mem)"] by (simp add: add.assoc)
qed simp

lemma obj_free_own: "obj_free (Some x) (obj_blocks x + mem) = Inr mem"
proof (cases x)
  case (OBJ_STRING str)
  then show ?thesis using free_cstr_own [of str "add_mset Object_Block mem"] by (simp add: obj_free_def)
next
  case (OBJ_LIST vs)
  then show ?thesis using free_nodes_own [of vs "add_mset List_Block (add_mset Object_Block mem)"]
    by (simp add: obj_free_def add_mset_commute)
qed (simp add: obj_free_def)

lemma entry_free_own: "entry_free (Some e) (entry_blocks e + mem) = Inr mem"
proof -
  show ?thesis using obj_free_own [of "obj e" "add_mset Entry_Block mem"] by (simp add: entry_free_def entry_blocks_def)
qed

text \<open>The contract of \<open>free_fn\<close>, met by \<open>entry_free\<close>.\<close>

interpretation entries: value_memory "\<lambda>e. entry_free (Some e)" entry_blocks
  by unfold_locales (rule entry_free_own)

section \<open>Operations that agree and keep track\<close>

lemma tracks_unchanged:
  assumes "res_ok UNIV (\<lambda>x. mem = own x + rest) m"
  shows "tracks own rest (unchanged mem m) m"
  using assms by (cases m) (auto simp: tracks_def unchanged_def)

abbreviation kept :: "database \<times> 'a \<Rightarrow> ledger" where
  "kept \<equiv> \<lambda>(db, r). db_memory db"

lemma db_memory_other [simp]:
  "db_memory (db\<lparr>db_ticks := n\<rparr>) = db_memory db" "db_memory (db\<lparr>last_expire_sweep := t\<rparr>) = db_memory db"
  by (simp_all add: db_memory_def)

lemma put_tracks:
  assumes "db_ok db"
  shows "tracks db_memory rest (ht_put_memory db key e (db_memory db + (entry_blocks e + rest))) (ht_put db key e)"
proof -
  note wf = db_ok_wf [OF assms]
  obtain ht r where set: "ht_set (db_ht db) key e = Some (ht, r)" using ht_set_spec [OF wf, of key e] by blast
  have "db_memory db + (entry_blocks e + rest) = table_memory entry_blocks (db_ht db) + (entry_blocks e + add_mset Database_Block rest)"
    by (simp add: db_memory_def)
  then show ?thesis
    using entries.ht_set_memory_eq [OF wf set, of "add_mset Database_Block rest"]
    by (simp add: ht_put_memory_def ht_put_def set db_memory_def)
qed

lemma remove_wf_tracks:
  assumes wf: "wf_ht (db_ht db)"
  shows "tracks kept rest (ht_remove_memory db key (db_memory db + rest)) (ht_remove db key)"
proof -
  obtain ht r where del: "ht_delete (db_ht db) key = Some (ht, r)" using ht_delete_spec [OF wf, of key] by blast
  have "db_memory db + rest = table_memory entry_blocks (db_ht db) + add_mset Database_Block rest"
    by (simp add: db_memory_def)
  then show ?thesis
    using entries.ht_delete_memory_eq [OF wf del, of "add_mset Database_Block rest"]
    by (simp add: ht_remove_memory_def ht_remove_def del db_memory_def)
qed

lemmas remove_tracks = remove_wf_tracks [OF db_ok_wf]

lemma entry_split:
  assumes "wf_ht (db_ht db)" "ptr_ok db key idx e"
  obtains X where "db_memory db = entry_blocks e + X" "\<And>e'. db_memory (write_entry db idx e') = entry_blocks e' + X"
proof -
  have idx: "idx < capacity (db_ht db)" "entries (db_ht db) ! idx = HtOccupied key (ht_hash key) e"
    using assms(2) by (auto simp: ptr_ok_def)
  have "(key, e) \<in># ht_bag (db_ht db)"
    using idx wf_htD(3) [OF assms(1)] by (auto simp: ht_bag_def in_slots_bag)
  then obtain B where B: "ht_bag (db_ht db) = add_mset (key, e) B" by (metis mset_add)
  have B': "ht_bag (set_entry_value (db_ht db) idx e') = add_mset (key, e') B" for e'
    using set_entry_value_wf(2) [OF assms(1) idx, of e'] B by simp
  have cap: "capacity (set_entry_value (db_ht db) idx e') = capacity (db_ht db)" for e'
    by (simp add: set_entry_value_def idx)
  let ?X = "add_mset Database_Block (add_mset (Slots_Block (capacity (db_ht db))) (add_mset Table_Block
      (add_mset (Chars_Block key) (bag_memory entry_blocks B))))"
  show ?thesis
    by (rule that [of ?X]) (simp_all add: db_memory_def table_memory_def write_entry_def B B' cap)
qed

lemma check_expired_tracks:
  assumes "db_ok db"
  shows "tracks kept rest (check_expired_memory clk db key (db_memory db + rest)) (check_expired clk db key)"
proof -
  have ok: "db_ok (db\<lparr>db_ticks := n\<rparr>)" for n using assms by simp
  have rem: "tracks kept rest (bindR (ht_remove_memory (db\<lparr>db_ticks := n\<rparr>) key (db_memory db + rest)) (\<lambda>((db2, r), mem1). Inr ((db2, True), mem1)))
      (bindR (ht_remove (db\<lparr>db_ticks := n\<rparr>) key) (\<lambda>(db2, r). Inr (db2, True)))" for n
    by (rule tracks_bind [OF remove_tracks [OF ok, unfolded db_memory_other] remove_ok [OF ok]]) auto
  have "res_ok UNIV (\<lambda>p. \<forall>idx. p = Some idx \<longrightarrow> (\<exists>e. ptr_ok db key idx e)) (returns (ht_get_entry (db_ht db) key))"
    using entry_ptr_ok [OF assms, of UNIV key] by (simp add: entry_ptr_def ht_get_entry_def)
  then show ?thesis
    unfolding check_expired_memory_def check_expired_def
    by (rule tracks_same) (auto simp: entry_at_ptr imdb_mstime_def rem split: option.split)
qed

text \<open>A step whose result keeps the blocks of the database as they are.\<close>

definition same_memory :: "database \<Rightarrow> (database \<times> 'a) res \<Rightarrow> bool" where
  "same_memory db m \<longleftrightarrow> res_ok UNIV (\<lambda>(db', r). db_memory db' = db_memory db) m"

lemma same_memory_Inr [simp]: "same_memory db (Inr (db', r)) \<longleftrightarrow> db_memory db' = db_memory db"
  by (simp add: same_memory_def)

lemma same_memory_bind:
  "res_ok UNIV Q m \<Longrightarrow> (\<And>x. Q x \<Longrightarrow> same_memory db (f x)) \<Longrightarrow> same_memory db (bindR m f)"
  unfolding same_memory_def by (rule res_ok_bind)

lemma unchanged_tracks: "same_memory db m \<Longrightarrow> tracks kept rest (unchanged (db_memory db + rest) m) m"
  by (rule tracks_unchanged) (auto simp: same_memory_def elim!: res_ok_mono)

lemma db_get_entry_tracks:
  assumes "db_ok db"
  shows "tracks kept rest (db_get_entry_memory clk db key (db_memory db + rest)) (db_get_entry clk db key)"
  unfolding db_get_entry_memory_def db_get_entry_def
  by (rule tracks_bind [OF check_expired_tracks [OF assms] check_expired_ok [OF assms]], simp only: split_paired_all prod.case, rule unchanged_tracks)
     (auto intro!: same_memory_bind [OF res_ok_any])

lemma db_set_tracks:
  assumes "db_ok db"
  shows "tracks kept rest (db_set_memory db (Some key) value (db_memory db + rest)) (db_set db (Some key) value)"
proof -
  let ?e = "\<lparr>obj = obj_of_value value, expire = -1\<rparr>"
  have "tracks kept rest (bindR (ht_put_memory db key ?e (db_memory db + (entry_blocks ?e + rest))) (\<lambda>(db1, mem). Inr ((db1, 1), mem)))
      (bindR (ht_put db key ?e) (\<lambda>db1. Inr (db1, 1)))"
    by (rule tracks_bind [OF put_tracks [OF assms] res_ok_any]) simp
  moreover have "db_set_memory db (Some key) value (db_memory db + rest) =
      bindR (ht_put_memory db key ?e (db_memory db + (entry_blocks ?e + rest))) (\<lambda>(db1, mem). Inr ((db1, 1), mem))"
    by (auto simp: db_set_memory_def obj_of_value_def obj_create_int_memory_def obj_create_string_memory_def obj_create_int_def
        obj_create_string_def imdb_strdup_def entry_blocks_def add.left_commute add_mset_commute split: option.split)
  ultimately show ?thesis by (simp add: db_set_def)
qed

lemma db_get_tracks:
  assumes "db_ok db"
  shows "tracks kept rest (db_get_memory clk db (Some key) (db_memory db + rest)) (db_get clk db (Some key))"
  unfolding db_get_memory_def db_get_def deref_Some_bind
  by (rule tracks_bind [OF db_get_entry_tracks [OF assms] res_ok_any], simp only: split_paired_all prod.case, rule unchanged_tracks)
     (auto intro!: same_memory_bind [OF res_ok_any] split: option.split)

lemma db_del_tracks:
  assumes "db_ok db"
  shows "tracks kept rest (db_del_memory clk db (Some key) (db_memory db + rest)) (db_del clk db (Some key))"
  unfolding db_del_memory_def db_del_def deref_Some_bind
  by (rule tracks_bind [OF check_expired_tracks [OF assms] check_expired_ok [OF assms]]) (auto intro: remove_tracks)

lemma db_exists_tracks:
  assumes "db_ok db"
  shows "tracks kept rest (db_exists_memory clk db (Some key) (db_memory db + rest)) (db_exists clk db (Some key))"
  unfolding db_exists_memory_def db_exists_def deref_Some_bind
  by (rule tracks_bind [OF check_expired_tracks [OF assms] res_ok_any], simp only: split_paired_all prod.case, rule unchanged_tracks)
     (auto intro!: same_memory_bind [OF res_ok_any])

lemma db_llen_tracks:
  assumes "db_ok db"
  shows "tracks kept rest (db_llen_memory clk db (Some key) (db_memory db + rest)) (db_llen clk db (Some key))"
  unfolding db_llen_memory_def db_llen_def deref_Some_bind
  by (rule tracks_bind [OF check_expired_tracks [OF assms] res_ok_any], simp only: split_paired_all prod.case, rule unchanged_tracks)
     (auto intro!: same_memory_bind [OF res_ok_any] split: option.split dbobj.split)

lemma db_ttl_tracks:
  assumes "db_ok db"
  shows "tracks kept rest (db_ttl_memory clk db (Some key) (db_memory db + rest)) (db_ttl clk db (Some key))"
  unfolding db_ttl_memory_def db_ttl_def deref_Some_bind
  by (rule tracks_bind [OF db_get_entry_tracks [OF assms] res_ok_any], simp only: split_paired_all prod.case, rule unchanged_tracks)
     (auto simp: imdb_mstime_def Let_def intro!: same_memory_bind [OF res_ok_any] split: option.split)

lemma write_same_blocks:
  assumes "db_ok db" "ptr_ok db key idx e" "entry_blocks e' = entry_blocks e"
  shows "db_memory (write_entry db idx e') = db_memory db"
  using entry_split [OF db_ok_wf [OF assms(1)] assms(2)] assms(3) by metis

lemma db_expire_tracks:
  assumes "db_ok db"
  shows "tracks kept rest (db_expire_memory clk db (Some key) s (db_memory db + rest)) (db_expire clk db (Some key) s)"
  unfolding db_expire_memory_def db_expire_def deref_Some_bind
proof (rule tracks_bind [OF db_get_entry_tracks [OF assms] get_entry_ok [OF assms]], simp only: split_paired_all prod.case, rule unchanged_tracks)
  fix db1 p assume ok: "db_ok db1 \<and> (\<forall>idx. p = Some idx \<longrightarrow> (\<exists>e. ptr_ok db1 key idx e))"
  have "db_memory (write_entry (db1\<lparr>db_ticks := n\<rparr>) idx (e\<lparr>expire := at\<rparr>)) = db_memory db1" if "ptr_ok db1 key idx e" for n idx e at
    using write_same_blocks [of "db1\<lparr>db_ticks := n\<rparr>" key idx e "e\<lparr>expire := at\<rparr>"] ok that by (simp add: entry_blocks_def)
  with ok show "same_memory db1 (case p of None \<Rightarrow> Inr (db1, 0) | Some idx \<Rightarrow> bindR (entry_at db1 idx) (\<lambda>entry.
      let (now, db2) = imdb_mstime clk db1 in bindR (int64 (s * 1000)) (\<lambda>ms. bindR (int64 (now + ms)) (\<lambda>at.
         Inr (write_entry db2 idx (entry\<lparr>expire := at\<rparr>), 1)))))"
    by (auto simp: imdb_mstime_def entry_at_ptr int64_def same_memory_def split: option.split)
qed

lemma db_persist_tracks:
  assumes "db_ok db"
  shows "tracks kept rest (db_persist_memory clk db (Some key) (db_memory db + rest)) (db_persist clk db (Some key))"
  unfolding db_persist_memory_def db_persist_def deref_Some_bind
proof (rule tracks_bind [OF db_get_entry_tracks [OF assms] get_entry_ok [OF assms]], simp only: split_paired_all prod.case, rule unchanged_tracks)
  fix db1 p assume ok: "db_ok db1 \<and> (\<forall>idx. p = Some idx \<longrightarrow> (\<exists>e. ptr_ok db1 key idx e))"
  have "db_memory (write_entry db1 idx (e\<lparr>expire := -1\<rparr>)) = db_memory db1" if "ptr_ok db1 key idx e" for idx e
    using write_same_blocks [of db1 key idx e "e\<lparr>expire := -1\<rparr>"] ok that by (simp add: entry_blocks_def)
  with ok show "same_memory db1 (case p of None \<Rightarrow> Inr (db1, 0) | Some idx \<Rightarrow> bindR (entry_at db1 idx) (\<lambda>entry.
      if expire entry < 0 then Inr (db1, 0) else Inr (write_entry db1 idx (entry\<lparr>expire := -1\<rparr>), 1)))"
    by (auto simp: entry_at_ptr split: option.split)
qed

lemma put_number_tracks:
  assumes "db_ok db"
  shows "tracks kept rest (put_number_memory db key d (db_memory db + rest))
    (bindR (ht_put db key \<lparr>obj = obj_create_int d, expire = -1\<rparr>) (\<lambda>db1. Inr (db1, d)))"
proof -
  let ?e = "\<lparr>obj = obj_create_int d, expire = -1\<rparr>"
  have mem: "add_mset Object_Block (add_mset Entry_Block (db_memory db + rest)) = db_memory db + (entry_blocks ?e + rest)"
    by (simp add: entry_blocks_def obj_create_int_def)
  show ?thesis
    unfolding put_number_memory_def obj_create_int_memory_def Let_def prod.case mem
    by (rule tracks_bind [OF put_tracks [OF assms] res_ok_any]) simp
qed

lemma incr_string_memory:
  assumes "db_ok db" "ptr_ok db key idx e" "obj e = OBJ_STRING str"
  obtains Y where "obj_free (Some (OBJ_STRING str)) (db_memory db + rest) = Inr Y"
    "\<And>n. db_memory (write_entry db idx (e\<lparr>obj := OBJ_INT n\<rparr>)) + rest = add_mset Object_Block Y"
proof -
  obtain X where X: "db_memory db = entry_blocks e + X" "\<And>e'. db_memory (write_entry db idx e') = entry_blocks e' + X"
    by (rule entry_split [OF db_ok_wf [OF assms(1)] assms(2)]) blast
  show ?thesis
    using that [of "add_mset Entry_Block (X + rest)"] obj_free_own [of "obj e" "add_mset Entry_Block (X + rest)"] X assms(3)
    by (simp add: entry_blocks_def add.assoc add_mset_commute)
qed

lemma db_incr_tracks:
  assumes "db_ok db"
  shows "tracks kept rest (db_incr_memory clk db (Some key) d (db_memory db + rest)) (db_incr clk db (Some key) d)"
  unfolding db_incr_memory_def db_incr_def deref_Some_bind
proof (rule tracks_bind [OF check_expired_tracks [OF assms] check_expired_ok [OF assms]], simp only: split_paired_all prod.case,
    rule tracks_if [OF put_number_tracks tracks_same [OF entry_ptr_ok]])
  show "db_ok db1" if "db_ok db1" for db1 by (rule that)
  show "db_ok db1" if "db_ok db1" for db1 by (rule that)
  fix db1 p gone assume ok: "db_ok db1" and p: "\<forall>idx. p = Some idx \<longrightarrow> (\<exists>e. ptr_ok db1 key idx e)"
  show "tracks kept rest
      (case p of None \<Rightarrow> put_number_memory db1 key d (db_memory db1 + rest)
       | Some idx \<Rightarrow> bindR (entry_at db1 idx) (\<lambda>entry. case obj entry of
             OBJ_STRING str \<Rightarrow> (case obj_try_parse_int str of None \<Rightarrow> Inr ((db1, INT64_MIN), db_memory db1 + rest)
               | Some num \<Rightarrow> bindR (obj_free (Some (obj entry)) (db_memory db1 + rest)) (\<lambda>mem2. bindR (int64 (num + d)) (\<lambda>n.
                    let (ob, mem3) = obj_create_int_memory n mem2 in Inr ((write_entry db1 idx (entry\<lparr>obj := ob\<rparr>), n), mem3))))
           | OBJ_INT num \<Rightarrow> bindR (int64 (num + d)) (\<lambda>n. Inr ((write_entry db1 idx (entry\<lparr>obj := OBJ_INT n\<rparr>), n), db_memory db1 + rest))
           | OBJ_LIST vs \<Rightarrow> Inr ((db1, INT64_MIN), db_memory db1 + rest)))
      (case p of None \<Rightarrow> bindR (ht_put db1 key \<lparr>obj = obj_create_int d, expire = - 1\<rparr>) (\<lambda>db2. Inr (db2, d))
       | Some idx \<Rightarrow> bindR (entry_at db1 idx) (\<lambda>entry. case obj entry of
             OBJ_STRING str \<Rightarrow> (case obj_try_parse_int str of None \<Rightarrow> Inr (db1, INT64_MIN)
               | Some num \<Rightarrow> bindR (int64 (num + d)) (\<lambda>n. Inr (write_entry db1 idx (entry\<lparr>obj := obj_create_int n\<rparr>), n)))
           | OBJ_INT num \<Rightarrow> bindR (int64 (num + d)) (\<lambda>n. Inr (write_entry db1 idx (entry\<lparr>obj := OBJ_INT n\<rparr>), n))
           | OBJ_LIST vs \<Rightarrow> Inr (db1, INT64_MIN)))"
  proof (cases p)
    case (Some idx)
    with p obtain e where e: "ptr_ok db1 key idx e" by blast
    show ?thesis
    proof (cases "obj e")
      case (OBJ_STRING str)
      from incr_string_memory [OF ok e this] obtain Y where "obj_free (Some (OBJ_STRING str)) (db_memory db1 + rest) = Inr Y"
        "\<And>n. db_memory (write_entry db1 idx (e\<lparr>obj := OBJ_INT n\<rparr>)) + rest = add_mset Object_Block Y" by blast
      with Some e OBJ_STRING show ?thesis
        by (auto simp: entry_at_ptr obj_create_int_memory_def obj_create_int_def int64_def split: option.split)
    next
      case (OBJ_INT num)
      have "db_memory (write_entry db1 idx (e\<lparr>obj := OBJ_INT n\<rparr>)) = db_memory db1" for n
        using write_same_blocks [OF ok e, of "e\<lparr>obj := OBJ_INT n\<rparr>"] OBJ_INT by (simp add: entry_blocks_def)
      with Some e OBJ_INT show ?thesis by (auto simp: entry_at_ptr int64_def)
    qed (use Some e in \<open>simp add: entry_at_ptr\<close>)
  qed (simp add: put_number_tracks [OF ok])
qed

section \<open>Lists\<close>

text \<open>The blocks of an entry that is not in the table yet.\<close>

definition slot_memory :: "database \<times> nat option \<times> db_entry \<Rightarrow> ledger" where
  "slot_memory = (\<lambda>(db, slot, e). db_memory db + (case slot of None \<Rightarrow> entry_blocks e | Some idx \<Rightarrow> {#}))"

lemma get_or_create_list_tracks:
  assumes "db_ok db"
  shows "tracks slot_memory rest (get_or_create_list_memory clk db key (db_memory db + rest)) (get_or_create_list clk db key)"
  unfolding get_or_create_list_memory_def get_or_create_list_def
proof (rule tracks_bind [OF check_expired_tracks [OF assms] check_expired_ok [OF assms]], simp only: split_paired_all prod.case,
    rule tracks_same [OF entry_ptr_ok])
  show "db_ok db1" if "db_ok db1" for db1 by (rule that)
  fix db1 p gone assume "db_ok db1" "\<forall>idx. p = Some idx \<longrightarrow> (\<exists>e. ptr_ok db1 key idx e)"
  then show "tracks slot_memory rest
      (case p of None \<Rightarrow> (let (ob, mem2) = obj_create_list_memory (add_mset Entry_Block (db_memory db1 + rest)) in
           Inr ((db1, None, \<lparr>obj = ob, expire = - 1\<rparr>), mem2))
       | Some idx \<Rightarrow> bindR (entry_at db1 idx) (\<lambda>entry. Inr ((db1, Some idx, entry), db_memory db1 + rest)))
      (case p of None \<Rightarrow> Inr (db1, None, \<lparr>obj = obj_create_list, expire = - 1\<rparr>)
       | Some idx \<Rightarrow> bindR (entry_at db1 idx) (\<lambda>entry. Inr (db1, Some idx, entry)))"
    by (auto simp: slot_memory_def entry_at_ptr obj_create_list_memory_def obj_create_list_def entry_blocks_def add_mset_commute
        split: option.split)
qed

lemma save_entry_tracks:
  assumes ok: "db_ok db" and slot: "slot_ok db key slot e" and grows: "entry_blocks e' = entry_blocks e + extra"
  shows "tracks db_memory rest (save_entry_memory db key slot e' (slot_memory (db, slot, e) + (extra + rest))) (save_entry db key slot e')"
proof (cases slot)
  case None
  then show ?thesis using put_tracks [OF ok, of rest key e'] grows
    by (simp add: save_entry_memory_def save_entry_def slot_memory_def add.assoc)
next
  case (Some idx)
  with slot have p: "ptr_ok db key idx e" by (simp add: slot_ok_def)
  obtain X where "db_memory db = entry_blocks e + X" "\<And>e'. db_memory (write_entry db idx e') = entry_blocks e' + X"
    by (rule entry_split [OF db_ok_wf [OF ok] p]) blast
  with Some grows show ?thesis by (simp add: save_entry_memory_def save_entry_def slot_memory_def ac_simps)
qed

lemma db_push_tracks:
  assumes ok: "db_ok db" and push: "\<And>vs. nodes_blocks (push v vs) = nodes_blocks vs + add_mset Node_Block (cstr_blocks v)"
  shows "tracks kept rest (db_push_memory push clk db (Some key) v (db_memory db + rest))
    (bindR (get_or_create_list clk db key) (\<lambda>(db1, slot, entry).
     case obj entry of
       OBJ_LIST vs \<Rightarrow> bindR (save_entry db1 key slot (entry\<lparr>obj := OBJ_LIST (push v vs)\<rparr>)) (\<lambda>db2. Inr (db2, to_int32 (int (length (push v vs)))))
     | _ \<Rightarrow> Inr (db1, -1)))"
  unfolding db_push_memory_def deref_Some_bind
proof (rule tracks_bind [OF get_or_create_list_tracks [OF ok] get_or_create_list_ok [OF ok]], simp only: split_paired_all prod.case)
  fix db1 slot e assume s: "db_ok db1 \<and> slot_ok db1 key slot e"
  let ?new = "add_mset Node_Block (cstr_blocks v)"
  have save: "tracks db_memory rest (save_entry_memory db1 key slot (e\<lparr>obj := OBJ_LIST (push v vs)\<rparr>) (make_node_memory v (slot_memory (db1, slot, e) + rest)))
      (save_entry db1 key slot (e\<lparr>obj := OBJ_LIST (push v vs)\<rparr>))" if "obj e = OBJ_LIST vs" for vs
  proof -
    have "entry_blocks (e\<lparr>obj := OBJ_LIST (push v vs)\<rparr>) = entry_blocks e + ?new"
      using that by (simp add: entry_blocks_def push)
    from save_entry_tracks [OF _ _ this, of db1 key slot rest] s show ?thesis
      by (simp add: make_node_memory_def add.left_commute)
  qed
  have list: "slot = None \<Longrightarrow> obj e = OBJ_LIST []" using s by (simp add: slot_ok_def)
  show "tracks kept rest (case obj e of
        OBJ_LIST vs \<Rightarrow> bindR (save_entry_memory db1 key slot (e\<lparr>obj := OBJ_LIST (push v vs)\<rparr>) (make_node_memory v (slot_memory (db1, slot, e) + rest)))
            (\<lambda>(db2, mem2). Inr ((db2, to_int32 (int (length (push v vs)))), mem2))
      | _ \<Rightarrow> Inr ((db1, - 1), slot_memory (db1, slot, e) + rest))
     (case obj e of OBJ_LIST vs \<Rightarrow> bindR (save_entry db1 key slot (e\<lparr>obj := OBJ_LIST (push v vs)\<rparr>)) (\<lambda>db2. Inr (db2, to_int32 (int (length (push v vs)))))
      | _ \<Rightarrow> Inr (db1, - 1))"
  proof (cases "obj e")
    case (OBJ_LIST vs)
    have "tracks kept rest (bindR (save_entry_memory db1 key slot (e\<lparr>obj := OBJ_LIST (push v vs)\<rparr>) (make_node_memory v (slot_memory (db1, slot, e) + rest)))
          (\<lambda>(db2, mem2). Inr ((db2, to_int32 (int (length (push v vs)))), mem2)))
       (bindR (save_entry db1 key slot (e\<lparr>obj := OBJ_LIST (push v vs)\<rparr>)) (\<lambda>db2. Inr (db2, to_int32 (int (length (push v vs))))))"
      by (rule tracks_bind [OF save [OF OBJ_LIST] res_ok_any]) simp
    with OBJ_LIST show ?thesis by simp
  qed (use list in \<open>cases slot; simp add: slot_memory_def\<close>)+
qed

lemma db_lpush_tracks:
  "db_ok db \<Longrightarrow> tracks kept rest (db_lpush_memory clk db (Some key) v (db_memory db + rest)) (db_lpush clk db (Some key) v)"
  unfolding db_lpush_memory_def db_lpush_def deref_Some_bind by (rule db_push_tracks) simp_all

lemma db_rpush_tracks:
  "db_ok db \<Longrightarrow> tracks kept rest (db_rpush_memory clk db (Some key) v (db_memory db + rest)) (db_rpush clk db (Some key) v)"
  unfolding db_rpush_memory_def db_rpush_def deref_Some_bind by (rule db_push_tracks) simp_all

text \<open>A popped value belongs to the caller, and so does the array of a range.\<close>

abbreviation popped :: "database \<times> cstr \<Rightarrow> ledger" where
  "popped \<equiv> \<lambda>(db, str). db_memory db + cstr_blocks str"

definition array_blocks :: "cstr list option \<Rightarrow> ledger" where
  "array_blocks p = (case p of None \<Rightarrow> {#} | Some xs \<Rightarrow> {#Array_Block (length xs)#})"

lemma array_blocks_simps [simp]: "array_blocks None = {#}" "array_blocks (Some xs) = {#Array_Block (length xs)#}"
  by (simp_all add: array_blocks_def)

lemma nodes_blocks_pop:
  assumes "vlist_step vs which = (vs', r)" "which = LPop \<or> which = RPop"
  shows "nodes_blocks vs = (case r of None \<Rightarrow> nodes_blocks vs' | Some v \<Rightarrow> add_mset Node_Block (cstr_blocks v + nodes_blocks vs'))"
proof (cases vs rule: rev_cases)
  case Nil
  with assms show ?thesis by auto
next
  case (snoc ws w)
  with assms show ?thesis by (cases ws) (auto simp: ac_simps)
qed

lemma write_entry_wf: "db_ok db \<Longrightarrow> ptr_ok db key idx e \<Longrightarrow> wf_ht (db_ht (write_entry db idx e'))"
  by (auto simp: write_entry_def ptr_ok_def dest: set_entry_value_wf [OF db_ok_wf])

lemma pop_entry_tracks:
  assumes ok: "db_ok db" and e: "ptr_ok db key idx e" "obj e = OBJ_LIST vs" and op: "which = LPop \<or> which = RPop"
    and st: "vlist_step vs which = (vs', r)"
  defines "val \<equiv> (case r of None \<Rightarrow> None | Some v \<Rightarrow> v)" and "db2 \<equiv> write_entry db idx (e\<lparr>obj := OBJ_LIST vs'\<rparr>)"
  shows "tracks popped rest
    (bindR (case r of None \<Rightarrow> Inr (db_memory db + rest) | Some v \<Rightarrow> release Node_Block (db_memory db + rest)) (\<lambda>mem2.
       if length vs' = 0 then bindR (ht_remove_memory db2 key mem2) (\<lambda>((db3, d), mem3). Inr ((db3, val), mem3))
       else Inr ((db2, val), mem2)))
    (if length vs' = 0 then bindR (ht_remove db2 key) (\<lambda>(db3, d). Inr (db3, val)) else Inr (db2, val))"
proof -
  obtain X where X: "db_memory db = entry_blocks e + X" "\<And>e'. db_memory (write_entry db idx e') = entry_blocks e' + X"
    by (rule entry_split [OF db_ok_wf [OF ok] e(1)]) blast
  have "(case r of None \<Rightarrow> Inr (db_memory db + rest) | Some v \<Rightarrow> release Node_Block (db_memory db + rest)) =
      Inr (db_memory db2 + (cstr_blocks val + rest))"
  proof (cases r)
    case (Some v)
    have "db_memory db + rest = add_mset Node_Block (db_memory db2 + (cstr_blocks val + rest))"
      using nodes_blocks_pop [OF st op] e(2) Some by (simp add: X entry_blocks_def db2_def val_def ac_simps)
    with Some show ?thesis by simp
  qed (use nodes_blocks_pop [OF st op] e(2) in \<open>simp add: X entry_blocks_def db2_def val_def\<close>)
  moreover have "tracks popped rest
      (bindR (ht_remove_memory db2 key (db_memory db2 + (cstr_blocks val + rest))) (\<lambda>((db3, d), mem3). Inr ((db3, val), mem3)))
      (bindR (ht_remove db2 key) (\<lambda>(db3, d). Inr (db3, val)))"
    unfolding db2_def
    by (rule tracks_bind [OF remove_wf_tracks [OF write_entry_wf [OF ok e(1)]] res_ok_any]) (auto simp: add.assoc)
  ultimately show ?thesis by (simp add: add.assoc)
qed

lemma db_pop_tracks:
  assumes ok: "db_ok db" and op: "which = LPop \<or> which = RPop"
  shows "tracks popped rest (db_pop_memory which clk db (Some key) (db_memory db + rest)) (db_pop which clk db (Some key))"
  unfolding db_pop_memory_def db_pop_def deref_Some_bind
proof (rule tracks_bind [OF check_expired_tracks [OF ok] check_expired_ok [OF ok]], simp only: split_paired_all prod.case,
    rule tracks_if [OF _ tracks_same [OF entry_ptr_ok]])
  show "db_ok db1" if "db_ok db1" for db1 by (rule that)
  show "tracks popped rest (Inr ((db1, None), db_memory db1 + rest)) (Inr (db1, None))" for db1 by simp
  fix db1 p gone assume ok1: "db_ok db1" and p: "\<forall>idx. p = Some idx \<longrightarrow> (\<exists>e. ptr_ok db1 key idx e)"
  show "tracks popped rest
      (case p of None \<Rightarrow> Inr ((db1, None), db_memory db1 + rest)
       | Some idx \<Rightarrow> bindR (entry_at db1 idx) (\<lambda>entry. case obj entry of
             OBJ_LIST vs \<Rightarrow> (let (vs', r) = vlist_step vs which; val = (case r of None \<Rightarrow> None | Some v \<Rightarrow> v);
                    db2 = write_entry db1 idx (entry\<lparr>obj := OBJ_LIST vs'\<rparr>)
                in bindR (case r of None \<Rightarrow> Inr (db_memory db1 + rest) | Some v \<Rightarrow> release Node_Block (db_memory db1 + rest)) (\<lambda>mem2.
                   if length vs' = 0 then bindR (ht_remove_memory db2 key mem2) (\<lambda>((db3, d), mem3). Inr ((db3, val), mem3))
                   else Inr ((db2, val), mem2)))
           | _ \<Rightarrow> Inr ((db1, None), db_memory db1 + rest)))
      (case p of None \<Rightarrow> Inr (db1, None)
       | Some idx \<Rightarrow> bindR (entry_at db1 idx) (\<lambda>entry. case obj entry of
             OBJ_LIST vs \<Rightarrow> (let (vs', r) = vlist_step vs which; val = (case r of None \<Rightarrow> None | Some v \<Rightarrow> v);
                    db2 = write_entry db1 idx (entry\<lparr>obj := OBJ_LIST vs'\<rparr>)
                in if length vs' = 0 then bindR (ht_remove db2 key) (\<lambda>(db3, d). Inr (db3, val)) else Inr (db2, val))
           | _ \<Rightarrow> Inr (db1, None)))"
  proof (cases p)
    case (Some idx)
    with p obtain e where e: "ptr_ok db1 key idx e" by blast
    show ?thesis
    proof (cases "obj e")
      case (OBJ_LIST vs)
      obtain vs' r where st: "vlist_step vs which = (vs', r)" by (cases "vlist_step vs which")
      show ?thesis using pop_entry_tracks [OF ok1 e OBJ_LIST op st, of rest] Some OBJ_LIST st
        by (simp only: option.case entry_at_ptr [OF e] bindR_Inr dbobj.case Let_def prod.case)
    qed (use Some e in \<open>simp_all add: entry_at_ptr\<close>)
  qed simp
qed

lemma db_lrange_tracks:
  assumes ok: "db_ok db"
  shows "tracks (\<lambda>(db, p). db_memory db + array_blocks p) rest
    (db_lrange_memory clk db (Some key) start stop (db_memory db + rest)) (db_lrange clk db (Some key) start stop)"
  unfolding db_lrange_memory_def db_lrange_def deref_Some_bind
  by (rule tracks_bind [OF check_expired_tracks [OF ok] res_ok_any], simp only: split_paired_all prod.case,
      rule tracks_if [OF _ tracks_same [OF res_ok_any]])
     (auto simp: list_range_memory_def intro!: tracks_same [OF res_ok_any] split: option.split dbobj.split)

section \<open>The whole database\<close>

lemma db_create_tracks: "tracks db_memory rest (db_create_memory clk rest) (db_create clk)"
  using ht_create_memory_64 [of "add_mset Database_Block rest" entry_blocks]
  by (simp add: db_create_memory_def db_create_def ht_create_64 db_memory_def)

lemma db_destroy_all: "db_destroy (Some db) (db_memory db + rest) = Inr rest"
  using entries.ht_destroy_all [of "db_ht db" "add_mset Database_Block rest"] by (simp add: db_destroy_def db_memory_def)

lemma db_flush_tracks: "tracks db_memory rest (db_flush_memory db (db_memory db + rest)) (db_flush db)"
  using entries.ht_destroy_all [of "db_ht db" "add_mset Database_Block rest"]
    ht_create_memory_64 [of "add_mset Database_Block rest" entry_blocks]
  by (simp add: db_flush_memory_def db_flush_def db_memory_def ht_create_64)

lemma sweep_loop_tracks:
  "db_ok db \<Longrightarrow> tracks db_memory rest (sweep_loop_memory n now db index (db_memory db + rest)) (sweep_loop n now db index)"
proof (induction n arbitrary: db index)
  case (Suc left)
  obtain i' p where n: "ht_iter_next (db_ht db) index = (i', p)" by (cases "ht_iter_next (db_ht db) index")
  show ?case
  proof (cases p)
    case (Some s)
    with n obtain k h e where e: "entries (db_ht db) ! s = HtOccupied k h e" by (auto elim: ht_iter_next_Some)
    have mem: "strdup_memory (Some k) (db_memory db + rest) = db_memory db + add_mset (Chars_Block k) rest" by simp
    have "tracks db_memory rest
        (bindR (ht_remove_memory db k (strdup_memory (Some k) (db_memory db + rest))) (\<lambda>((db1, r), mem1).
           bindR (free_cstr (Some k) mem1) (\<lambda>mem2. sweep_loop_memory left now db1 0 mem2)))
        (bindR (ht_remove db k) (\<lambda>(db1, r). sweep_loop left now db1 0))"
      unfolding mem
      by (rule tracks_bind [OF remove_tracks [OF Suc.prems] remove_ok [OF Suc.prems]])
         (auto simp: free_cstr_def intro: Suc.IH)
    with n Some e Suc show ?thesis by simp
  qed (use n in simp)
qed simp

lemma db_expire_sweep_tracks:
  assumes "db_ok db"
  shows "tracks db_memory rest (db_expire_sweep_memory clk db (db_memory db + rest)) (db_expire_sweep clk db)"
proof -
  have "tracks db_memory rest (sweep_loop_memory n now (db\<lparr>db_ticks := t, last_expire_sweep := u\<rparr>) i (db_memory db + rest))
      (sweep_loop n now (db\<lparr>db_ticks := t, last_expire_sweep := u\<rparr>) i)" for n now t u i
    using sweep_loop_tracks [of "db\<lparr>db_ticks := t, last_expire_sweep := u\<rparr>" rest n now i] assms by simp
  then show ?thesis by (auto simp: db_expire_sweep_memory_def db_expire_sweep_def imdb_mstime_def Let_def intro!: tracks_same [OF res_ok_any])
qed

end
