(* ===== verification/Memory_History.thy ===== *)
theory Memory_History
  imports Database_Memory_Props
begin

text \<open>
  Histories of database operations with their memory: the operations that the command handlers call, flushes and
  sweeps, and what the handlers free of the answers. From \<open>db_create\<close> to \<open>db_destroy\<close> every block that is allocated
  is freed exactly once.
\<close>

section \<open>Histories\<close>

text \<open>\<open>cmd_lpop\<close> and \<open>cmd_rpop\<close> free the popped value, \<open>cmd_lrange\<close> the array; other answers are not allocated.\<close>

definition free_answer :: "db_reply \<Rightarrow> ledger \<Rightarrow> ledger res" where
  "free_answer r mem =
     (case r of
        RStr str \<Rightarrow> free_cstr str mem
      | RItems (Some xs) \<Rightarrow> release (Array_Block (length xs)) mem
      | _ \<Rightarrow> Inr mem)"

definition answer :: "('a \<Rightarrow> db_reply) \<Rightarrow> ((database \<times> 'a) \<times> ledger) res \<Rightarrow> ((database \<times> db_reply) \<times> ledger) res" where
  "answer f mm = bindR mm (\<lambda>((db, x), mem). bindR (free_answer (f x) mem) (\<lambda>mem1. Inr ((db, f x), mem1)))"

fun run_key_memory :: "int \<Rightarrow> database \<Rightarrow> string \<Rightarrow> key_op \<Rightarrow> ledger \<Rightarrow> ((database \<times> db_reply) \<times> ledger) res" where
  "run_key_memory now db k (KSet v) mem = answer RInt (db_set_memory db (Some k) (Some v) mem)"
| "run_key_memory now db k KGet mem = answer RObj (db_get_memory (\<lambda>_. now) db (Some k) mem)"
| "run_key_memory now db k KDel mem = answer RInt (db_del_memory (\<lambda>_. now) db (Some k) mem)"
| "run_key_memory now db k KExists mem = answer RInt (db_exists_memory (\<lambda>_. now) db (Some k) mem)"
| "run_key_memory now db k (KIncr d) mem = answer RInt (db_incr_memory (\<lambda>_. now) db (Some k) d mem)"
| "run_key_memory now db k (KList (LPush v)) mem = answer RInt (db_lpush_memory (\<lambda>_. now) db (Some k) v mem)"
| "run_key_memory now db k (KList (RPush v)) mem = answer RInt (db_rpush_memory (\<lambda>_. now) db (Some k) v mem)"
| "run_key_memory now db k (KList LPop) mem = answer RStr (db_lpop_memory (\<lambda>_. now) db (Some k) mem)"
| "run_key_memory now db k (KList RPop) mem = answer RStr (db_rpop_memory (\<lambda>_. now) db (Some k) mem)"
| "run_key_memory now db k KLlen mem = answer RInt (db_llen_memory (\<lambda>_. now) db (Some k) mem)"
| "run_key_memory now db k (KLrange a b) mem = answer RItems (db_lrange_memory (\<lambda>_. now) db (Some k) a b mem)"
| "run_key_memory now db k (KExpire s) mem = answer RInt (db_expire_memory (\<lambda>_. now) db (Some k) s mem)"
| "run_key_memory now db k KTtl mem = answer RInt (db_ttl_memory (\<lambda>_. now) db (Some k) mem)"
| "run_key_memory now db k KPersist mem = answer RInt (db_persist_memory (\<lambda>_. now) db (Some k) mem)"

fun run_event_memory :: "int \<Rightarrow> database \<Rightarrow> db_event \<Rightarrow> ledger \<Rightarrow> ((database \<times> db_reply) \<times> ledger) res" where
  "run_event_memory now db (OnKey k x) mem = run_key_memory now db k x mem"
| "run_event_memory now db Flush mem = bindR (db_flush_memory db mem) (\<lambda>(db', mem1). Inr ((db', RDone), mem1))"
| "run_event_memory now db Sweep mem =
     bindR (db_expire_sweep_memory (\<lambda>_. now) db mem) (\<lambda>(db', mem1). Inr ((db', RDone), mem1))"

fun run_events_memory :: "database \<Rightarrow> (int \<times> db_event) list \<Rightarrow> ledger \<Rightarrow> ((database \<times> db_reply list) \<times> ledger) res" where
  "run_events_memory db [] mem = Inr ((db, []), mem)"
| "run_events_memory db ((now, ev) # evs) mem =
     bindR (run_event_memory now db ev mem) (\<lambda>((db1, r), mem1).
     bindR (run_events_memory db1 evs mem1) (\<lambda>((db2, rs), mem2). Inr ((db2, r # rs), mem2)))"

text \<open>Arguments as the handlers pass them: C strings and 64-bit numbers.\<close>

fun op_ok :: "key_op \<Rightarrow> bool" where
  "op_ok (KSet v) \<longleftrightarrow> cstr_ok v"
| "op_ok (KIncr d) \<longleftrightarrow> in_int64 d"
| "op_ok (KList (LPush v)) \<longleftrightarrow> (case v of None \<Rightarrow> False | Some s \<Rightarrow> cstr_ok s)"
| "op_ok (KList (RPush v)) \<longleftrightarrow> (case v of None \<Rightarrow> False | Some s \<Rightarrow> cstr_ok s)"
| "op_ok _ \<longleftrightarrow> True"

fun event_ok :: "db_event \<Rightarrow> bool" where
  "event_ok (OnKey k x) \<longleftrightarrow> cstr_ok k \<and> op_ok x"
| "event_ok _ \<longleftrightarrow> True"

section \<open>Events keep track of the memory\<close>

lemma answer_tracks:
  assumes "tracks own rest mm m" and "\<And>db x. own (db, x) = db_memory db + blocks x"
    and "\<And>x mem. free_answer (f x) (blocks x + mem) = Inr mem"
  shows "tracks kept rest (answer f mm) (bindR m (\<lambda>(db, x). Inr (db, f x)))"
  unfolding answer_def
proof (rule tracks_bind [OF assms(1) res_ok_any], simp only: split_paired_all prod.case)
  fix db x
  have "own (db, x) + rest = blocks x + (db_memory db + rest)" by (simp add: assms(2) ac_simps)
  then show "tracks kept rest (bindR (free_answer (f x) (own (db, x) + rest)) (\<lambda>mem1. Inr ((db, f x), mem1))) (Inr (db, f x))"
    by (simp only: assms(3) bindR_Inr tracks_Inr prod.case simp_thms)
qed

lemmas answer_kept = answer_tracks [where own = kept and blocks = "\<lambda>x. {#}"]

lemma free_answer_nothing [simp]: "free_answer (RInt n) mem = Inr mem" "free_answer (RObj p) mem = Inr mem"
  by (simp_all add: free_answer_def)

lemma free_answer_string: "free_answer (RStr str) (cstr_blocks str + mem) = Inr mem"
  by (simp add: free_answer_def)

lemma free_answer_items: "free_answer (RItems p) (array_blocks p + mem) = Inr mem"
  by (cases p) (simp_all add: free_answer_def)

lemma run_key_tracks:
  assumes "db_ok db"
  shows "tracks kept rest (run_key_memory now db k x (db_memory db + rest)) (run_key now db k x)"
proof (cases x)
  case (KList y)
  then show ?thesis
    using answer_kept [OF db_lpush_tracks [OF assms], of RInt] answer_kept [OF db_rpush_tracks [OF assms], of RInt]
      answer_tracks [OF db_pop_tracks [OF assms, of LPop], of cstr_blocks RStr] answer_tracks [OF db_pop_tracks [OF assms, of RPop], of cstr_blocks RStr]
    by (cases y) (simp_all add: bindR_assoc split_def free_answer_string db_lpop_def db_rpop_def db_lpop_memory_def db_rpop_memory_def)
next
  case (KLrange a b)
  then show ?thesis
    using answer_tracks [OF db_lrange_tracks [OF assms], of array_blocks RItems] by (simp add: free_answer_items)
qed (simp_all add: answer_kept assms db_set_tracks db_get_tracks db_del_tracks db_exists_tracks db_incr_tracks db_llen_tracks
       db_expire_tracks db_ttl_tracks db_persist_tracks)

lemma run_event_tracks:
  assumes "db_ok db"
  shows "tracks kept rest (run_event_memory now db ev (db_memory db + rest)) (run_event now db ev)"
proof (cases ev)
  case Flush
  show ?thesis unfolding Flush run_event.simps run_event_memory.simps
    by (rule tracks_bind [OF db_flush_tracks res_ok_any]) simp
next
  case Sweep
  show ?thesis unfolding Sweep run_event.simps run_event_memory.simps
    by (rule tracks_bind [OF db_expire_sweep_tracks [OF assms] res_ok_any]) simp
qed (simp add: run_key_tracks [OF assms])

lemma run_key_ok:
  assumes ok: "db_ok db" and k: "cstr_ok k" and x: "op_ok x"
  shows "res_ok {SignedOverflow} (\<lambda>(db', r). db_ok db') (run_key now db k x)"
proof -
  have weak: "res_ok {SignedOverflow} (\<lambda>(db', r). db_ok db') (bindR m (\<lambda>(db', y). Inr (db', f y)))"
    if "res_ok {SignedOverflow} Q m" "\<And>db' y. Q (db', y) \<Longrightarrow> db_ok db'" for m Q and f :: "'a \<Rightarrow> 'b"
    by (rule res_ok_bind [OF that(1)]) (use that(2) in auto)
  show ?thesis
  proof (cases x)
    case (KList y)
    with x k ok show ?thesis
      by (cases y) (auto simp: bindR_assoc split_def db_lpop_def db_rpop_def split: option.splits
        intro!: res_ok_bind [OF db_lpush_ok [OF ok k]] res_ok_bind [OF db_rpush_ok [OF ok k]] res_ok_bind [OF db_pop_ok [OF ok]])
  qed (use x in \<open>auto intro!: weak [OF db_set_ok [OF ok k]] weak [OF db_get_ok [OF ok]] weak [OF db_del_ok [OF ok]]
        weak [OF db_exists_ok [OF ok]] weak [OF db_incr_ok [OF ok k]] weak [OF db_llen_ok [OF ok]] weak [OF db_lrange_ok [OF ok]]
        weak [OF db_expire_ok [OF ok]] weak [OF db_ttl_ok [OF ok]] weak [OF db_persist_ok [OF ok]]\<close>)
qed

lemma run_event_ok:
  assumes "db_ok db" "event_ok ev"
  shows "res_ok {SignedOverflow} (\<lambda>(db', r). db_ok db') (run_event now db ev)"
proof (cases ev)
  case Flush
  then show ?thesis using assms by (auto intro!: res_ok_bind [OF db_flush_ok])
next
  case Sweep
  then show ?thesis using assms by (auto intro!: res_ok_bind [OF db_expire_sweep_ok])
qed (use assms run_key_ok in auto)

lemma run_events_tracks:
  assumes "db_ok db" "\<forall>(t, ev) \<in> set evs. event_ok ev"
  shows "tracks kept rest (run_events_memory db evs (db_memory db + rest)) (run_events db evs) \<and>
    res_ok {SignedOverflow} (\<lambda>(db', rs). db_ok db') (run_events db evs)"
  using assms
proof (induction evs arbitrary: db)
  case (Cons tev evs)
  obtain t ev where tev: "tev = (t, ev)" by (cases tev)
  have ev: "event_ok ev" and evs: "\<forall>(t, ev) \<in> set evs. event_ok ev" using Cons.prems(2) tev by auto
  note ok = run_event_ok [OF Cons.prems(1) ev, of t]
  have "res_ok UNIV (\<lambda>(db', r). db_ok db') (run_event t db ev)" using ok by (cases "run_event t db ev") auto
  then have "tracks kept rest (run_events_memory db (tev # evs) (db_memory db + rest)) (run_events db (tev # evs))"
    unfolding tev run_events.simps run_events_memory.simps
    by (rule tracks_bind [OF run_event_tracks [OF Cons.prems(1)]])
       (use Cons.IH evs in \<open>auto intro!: tracks_bind [OF _ res_ok_any]\<close>)
  moreover have "res_ok {SignedOverflow} (\<lambda>(db', rs). db_ok db') (run_events db (tev # evs))"
    unfolding tev run_events.simps
    by (rule res_ok_bind [OF ok]) (use Cons.IH evs in \<open>auto intro!: res_ok_bind [where R = "\<lambda>(db', rs). db_ok db'"]\<close>)
  ultimately show ?case by blast
qed simp

section \<open>Properties\<close>

text \<open>C17: from \<open>db_create\<close> through any history of operations, flushes and sweeps to \<open>db_destroy\<close>, the database frees
  no block twice and leaves none behind; meanwhile it owns exactly the blocks of the keys and entries that it stores.
  The answers are those of the operations without their memory, and the only fault is a signed overflow.\<close>

theorem database_memory_balanced:
  assumes "\<forall>(t, ev) \<in> set evs. event_ok ev"
  shows "case bindR (db_create clk) (\<lambda>db. run_events db evs) of
      Inl e \<Rightarrow> e = SignedOverflow \<and>
        bindR (db_create_memory clk rest) (\<lambda>(db, mem). run_events_memory db evs mem) = Inl e
    | Inr (db, rs) \<Rightarrow>
        bindR (db_create_memory clk rest) (\<lambda>(db, mem). run_events_memory db evs mem) = Inr ((db, rs), db_memory db + rest) \<and>
        db_destroy (Some db) (db_memory db + rest) = Inr rest"
proof -
  let ?db = "\<lparr>db_ht = empty_table 64, last_expire_sweep = clk 0, db_ticks = 1\<rparr>"
  have "db_ok ?db" using db_create_ok [of "{}" clk] by (simp add: db_create_eq)
  note run = run_events_tracks [OF this assms, of rest]
  have create: "db_create_memory clk rest = Inr (?db, db_memory ?db + rest)"
    using db_create_tracks [of rest clk] by (simp add: tracks_def db_create_eq)
  show ?thesis
    using run db_destroy_all by (cases "run_events ?db evs") (auto simp: create db_create_eq tracks_def)
qed

theorem database_memory_balanced_witness:
  "\<exists>db rs. bindR (db_create_memory (\<lambda>n. 0) {#Node_Block#}) (\<lambda>(db, mem). run_events_memory db
        [(1, OnKey ''a'' (KSet ''x'')), (2, OnKey ''b'' (KList (LPush (Some ''y'')))), (3, OnKey ''b'' (KList LPop)), (4, Flush)] mem) =
      Inr ((db, rs), db_memory db + {#Node_Block#}) \<and>
    db_destroy (Some db) (db_memory db + {#Node_Block#}) = Inr {#Node_Block#}"
  (is "\<exists>db rs. bindR _ (\<lambda>(db, mem). run_events_memory db ?evs mem) = _ \<and> _")
proof -
  have chars: "cstr_ok ''a''" "cstr_ok ''b''" "cstr_ok ''x''" "cstr_ok ''y''" by (simp_all add: cstr_ok_def NUL_def)
  have "res_ok {} (\<lambda>_. True) (bindR (db_create (\<lambda>n. 0)) (\<lambda>db. run_events db ?evs))"
    using chars by (auto simp: bindR_assoc split_def db_lpop_def db_flush_eq intro!: res_ok_bind [OF db_create_ok] res_ok_bind [OF db_set_ok]
      res_ok_bind [OF db_lpush_ok] res_ok_bind [OF db_pop_ok])
  then obtain db rs where "bindR (db_create (\<lambda>n. 0)) (\<lambda>db. run_events db ?evs) = Inr (db, rs)"
    by (cases "bindR (db_create (\<lambda>n. 0)) (\<lambda>db. run_events db ?evs)") auto
  with database_memory_balanced [of ?evs "\<lambda>n. 0" "{#Node_Block#}"] chars show ?thesis by (auto simp del: run_events_memory.simps)
qed

end
