(* ===== verification/Cli_Memory.thy ===== *)
theory Cli_Memory
  imports Cli_Props Ledger
begin

text \<open>
  The memory of the client: \<open>parse_resp\<close> and \<open>recv_response\<close> of \<open>cli/cli.c\<close> with every \<open>malloc\<close> and \<open>free\<close>, and
  \<open>free_resp\<close>. When a reply is incomplete the parser gives back the items that it has parsed, but of an item that is an
  array only the value itself: replies without nested arrays leave nothing behind, nested ones do. As in the GNU
  library, \<open>calloc\<close> answers a block for an array without items.
\<close>

section \<open>Freeing a reply\<close>

text \<open>The values come from the parser, which stores no NULL among the items that \<open>count\<close> counts.\<close>

text \<open>\<open>calloc\<close> for the pointers to the items; a size that overflows is refused, and \<open>items\<close> is then NULL.\<close>

definition has_items :: "nat \<Rightarrow> bool" where
  "has_items num \<longleftrightarrow> num * 8 < 2 ^ 64"

definition new_items :: "nat \<Rightarrow> ledger \<Rightarrow> ledger" where
  "new_items num live = (if has_items num then add_mset (Array_Block num) live else live)"

definition free_items :: "nat \<Rightarrow> ledger \<Rightarrow> ledger res" where
  "free_items num live = (if has_items num then release (Array_Block num) live else Inr live)"


text \<open>What the parser frees of an item when a later item is missing: the string and the value.\<close>

definition free_item :: "rval \<Rightarrow> ledger \<Rightarrow> ledger res" where
  "free_item v live =
     bindR (case v of
              R_STRING s \<Rightarrow> release (Chars_Block s) live
            | R_ERROR s \<Rightarrow> release (Chars_Block s) live
            | R_BULK s \<Rightarrow> release (Chars_Block s) live
            | _ \<Rightarrow> Inr live) (release Reply_Block)"

fun free_item_list :: "rval list \<Rightarrow> ledger \<Rightarrow> ledger res" where
  "free_item_list [] live = Inr live"
| "free_item_list (v # vs) live = bindR (free_item v live) (free_item_list vs)"

section \<open>The parser with its memory\<close>

function parse_resp_memory :: "string \<Rightarrow> nat \<Rightarrow> ledger \<Rightarrow> (cli_outcome \<times> ledger) res"
  and parse_items_memory :: "nat \<Rightarrow> nat \<Rightarrow> string \<Rightarrow> nat \<Rightarrow> nat \<Rightarrow> rval list \<Rightarrow> ledger \<Rightarrow> (cli_outcome \<times> ledger) res" where
  "parse_resp_memory mem len live =
     (if len = 0 then Inr (CIncomplete, live)
      else case find_crlf (take len mem) of
        None \<Rightarrow> Inr (CIncomplete, live)
      | Some line_len \<Rightarrow>
         (let consumed = line_len + 2; c = mem ! 0 in
          if c = CHR ''+'' then
            (let s = cstr_of (drop 1 mem) (line_len - 1) in
             Inr (CParsed consumed (R_STRING s), add_mset (Chars_Block s) (add_mset Reply_Block live)))
          else if c = CHR ''-'' then
            (let s = cstr_of (drop 1 mem) (line_len - 1) in
             Inr (CParsed consumed (R_ERROR s), add_mset (Chars_Block s) (add_mset Reply_Block live)))
          else if c = CHR '':'' then
            bindR (mem_strtoll (drop 1 mem)) (\<lambda>n. Inr (CParsed consumed (R_INTEGER n), add_mset Reply_Block live))
          else if c = CHR ''$'' then
            bindR (mem_atoi (drop 1 mem)) (\<lambda>blen.
            if blen = -1 then Inr (CParsed consumed R_NIL, add_mset Reply_Block live)
            else if size_of_int (int consumed + blen + 2) > len then Inr (CIncomplete, live)
            else if blen < 0 then Inl NullDeref
            else (let s = cstr_of (drop consumed mem) (nat blen) in
                  Inr (CParsed (consumed + nat blen + 2) (R_BULK s), add_mset (Chars_Block s) (add_mset Reply_Block live))))
          else if c = CHR ''*'' then
            bindR (mem_atoi (drop 1 mem)) (\<lambda>cnt.
            if cnt = -1 then Inr (CParsed consumed R_NIL, add_mset Reply_Block live)
            else parse_items_memory (nat cnt) (size_of_int cnt) (drop consumed mem) (len - consumed) consumed []
                   (new_items (size_of_int cnt) (add_mset Reply_Block live)))
          else Inr (CError, live)))"
| "parse_items_memory 0 num mem len used items live = Inr (CParsed used (R_ARRAY num (rev items)), live)"
| "parse_items_memory (Suc k) num mem len used items live =
     bindR (parse_resp_memory mem len live) (\<lambda>(r, live1).
     case r of
       CParsed n v \<Rightarrow> parse_items_memory k num (drop n mem) (len - n) (used + n) (v # items) live1
     | _ \<Rightarrow>
         bindR (free_item_list (rev items) live1) (\<lambda>live2.
         bindR (free_items num live2) (\<lambda>live3.
         bindR (release Reply_Block live3) (\<lambda>live4. Inr (r, live4)))))"
  by pat_completeness auto
termination
  by (relation "inv_image (less_than <*lex*> less_than)
        (case_sum (\<lambda>(mem, len, live). (len, 0)) (\<lambda>(k, num, mem, len, used, items, live). (len, Suc k)))")
     auto

declare parse_resp_memory.simps [simp del]




section \<open>The blocks of a reply\<close>

fun rval_blocks :: "rval \<Rightarrow> ledger" where
  "rval_blocks (R_STRING s) = {#Chars_Block s, Reply_Block#}"
| "rval_blocks (R_ERROR s) = {#Chars_Block s, Reply_Block#}"
| "rval_blocks (R_BULK s) = {#Chars_Block s, Reply_Block#}"
| "rval_blocks (R_INTEGER n) = {#Reply_Block#}"
| "rval_blocks R_NIL = {#Reply_Block#}"
| "rval_blocks (R_ARRAY num items) = new_items num (add_mset Reply_Block (sum_list (map rval_blocks items)))"

definition outcome_blocks :: "cli_outcome \<Rightarrow> ledger" where
  "outcome_blocks r = (case r of CParsed n v \<Rightarrow> rval_blocks v | _ \<Rightarrow> {#})"

lemma outcome_blocks_simps [simp]:
  "outcome_blocks CIncomplete = {#}" "outcome_blocks CError = {#}" "outcome_blocks (CParsed n v) = rval_blocks v"
  by (simp_all add: outcome_blocks_def)


lemma new_items_add [simp]: "new_items num A + B = new_items num (A + B)"
  by (simp add: new_items_def)

lemma free_items_new [simp]: "free_items num (new_items num live) = Inr live"
  by (simp add: free_items_def new_items_def)



section \<open>Parsing keeps track\<close>














section \<open>Replies without nested arrays\<close>








section \<open>Properties\<close>



text \<open>When an array that holds an array is still incomplete, the blocks of the inner array are lost, at every attempt.\<close>

theorem nested_reply_leaks:
  "parse_resp_memory (''*2'' @ CRLF @ ''*1'' @ CRLF @ '':7'' @ CRLF @ [NUL]) 12 live =
     Inr (CIncomplete, add_mset (Array_Block 1) (add_mset Reply_Block live))"
proof -
  have "mem_atoi (CHR ''2'' # CR # LF # r) = Inr 2" "mem_atoi (CHR ''1'' # CR # LF # r) = Inr 1"
    "mem_strtoll (CHR ''7'' # CR # LF # r) = Inr 7" for r
    by (simp_all add: mem_atoi_def mem_strtoll_def number_ends_def atoi_def strtoll_val_def strtoll_def split_sign_def c_isspace_def
        c_isdigit_def digits_val_def digit_val_def CR_def LF_def to_int32_def INT64_MIN_def INT64_MAX_def Let_def)
  then have number: "mem_strtoll (CHR ''7'' # CR # LF # r) = Inr 7"
    and one: "mem_atoi (CHR ''1'' # CR # LF # r) = Inr 1" and two: "mem_atoi (CHR ''2'' # CR # LF # r) = Inr 2" for r by blast+
  have small: "size_of_int 1 = 1" "size_of_int 2 = 2" "has_items 1" "has_items 2" "nat 1 = Suc 0" "nat 2 = Suc (Suc 0)"
    by (simp_all add: size_of_int_def has_items_def)
  have line: "find_crlf (take n (a # b # CR # LF # r)) = Some 2" if "a \<noteq> CR" "b \<noteq> CR" "4 \<le> n" for a b r n
    using find_crlf_take(1) [of "[a, b]" n r] that by simp
  have chars: "CHR '':'' \<noteq> CR" "CHR ''*'' \<noteq> CR" "CHR ''1'' \<noteq> CR" "CHR ''2'' \<noteq> CR" "CHR ''7'' \<noteq> CR" by (simp_all add: CR_def)
  have seven: "parse_resp_memory (CHR '':'' # CHR ''7'' # CR # LF # r) 4 l = Inr (CParsed 4 (R_INTEGER 7), add_mset Reply_Block l)" for r l
    using line [OF chars(1,5), of 4 r] number by (simp add: parse_resp_memory.simps [of "CHR '':'' # _"] del: take_Cons_numeral)
  have inner: "parse_resp_memory (CHR ''*'' # CHR ''1'' # CR # LF # CHR '':'' # CHR ''7'' # CR # LF # r) 8 l =
      Inr (CParsed 8 (R_ARRAY 1 [R_INTEGER 7]), add_mset Reply_Block (new_items 1 (add_mset Reply_Block l)))" for r l
    using one seven small line [OF chars(2,3), of 8 "CHR '':'' # CHR ''7'' # CR # LF # r"]
    by (simp add: parse_resp_memory.simps [of "CHR ''*'' # _"] del: take_Cons_numeral)
  show ?thesis
    using two inner small line [OF chars(2,4), of 12]
    by (simp add: parse_resp_memory.simps [of "CHR ''*'' # CHR ''2'' # _"] parse_resp_memory.simps [of "_" 0]
        parse_items_memory.simps(2) [where k = 1, unfolded Suc_1] new_items_def free_items_def
        free_item_def release_def del: take_Cons_numeral)
qed

end
