(* ===== verification/Server_Memory.thy ===== *)
theory Server_Memory
  imports Startup Ledger
begin

text \<open>
  What the server holds: the open sockets and the memory of \<open>src/server.c\<close>. The operations are those of \<open>Server\<close>
  with every \<open>socket\<close>, \<open>accept\<close>, \<open>close\<close>, \<open>malloc\<close>, \<open>realloc\<close> and \<open>free\<close>; to close a descriptor that is not open, or to
  free a block twice, is a fault. The memory of the database and of parsed requests is followed in
  \<open>Database_Memory\<close> and \<open>Resp_Memory\<close>. The \<open>realloc\<close>s of the reply buffer within a handler are taken together.
\<close>

section \<open>Resources\<close>

text \<open>An open descriptor; the two structs; the blocks of a write buffer and of a reply buffer, with their sizes.\<close>

datatype resource = Socket int | Server_Block | Client_Block | Write_Block nat | Buffer_Block nat

type_synonym resources = "resource multiset"

text \<open>The loop of \<open>client_queue_write\<close> with its \<open>realloc\<close>.\<close>

partial_function (option) grow_block :: "(nat \<Rightarrow> 'b) \<Rightarrow> nat \<Rightarrow> nat \<Rightarrow> 'b multiset \<Rightarrow> (nat \<times> 'b multiset) res option" where
  "grow_block block need cap live =
     (if need > cap
      then (case release (block cap) live of
              Inl f \<Rightarrow> Some (Inl f)
            | Inr live1 \<Rightarrow> grow_block block need (cap * 2) (add_mset (block (cap * 2)) live1))
      else Some (Inr (cap, live)))"

section \<open>Clients\<close>

definition client_create_memory :: "int \<Rightarrow> resources \<Rightarrow> client \<times> resources" where
  "client_create_memory fd held =
     (let c = client_create fd in (c, add_mset (Write_Block (c_write_cap c)) (add_mset Client_Block held)))"

definition client_destroy :: "client option \<Rightarrow> resources \<Rightarrow> resources res" where
  "client_destroy p held =
     (case p of
        None \<Rightarrow> Inr held
      | Some c \<Rightarrow>
          bindR (release (Socket (c_fd c)) held) (\<lambda>held1.
          bindR (release (Write_Block (c_write_cap c)) held1) (release Client_Block)))"

definition client_queue_write_memory :: "client \<Rightarrow> string \<Rightarrow> resources \<Rightarrow> (client \<times> resources) res" where
  "client_queue_write_memory c data held =
     bindR (returns (grow_block Write_Block (length (c_write_buf c) + length data) (c_write_cap c) held)) (\<lambda>m.
     bindR m (\<lambda>(cap, held1). Inr (c\<lparr>c_write_cap := cap, c_write_buf := c_write_buf c @ data\<rparr>, held1)))"

definition resp_buf_init_memory :: "resources \<Rightarrow> resp_buf \<times> resources" where
  "resp_buf_init_memory held = (resp_buf_init, add_mset (Buffer_Block (rb_cap resp_buf_init)) held)"

definition resp_buf_free :: "resp_buf \<Rightarrow> resources \<Rightarrow> resources res" where
  "resp_buf_free rb held = release (Buffer_Block (rb_cap rb)) held"

text \<open>A command with its reply buffer: the block is moved when the buffer grows.\<close>

definition command_execute_memory ::
    "clock \<Rightarrow> io \<Rightarrow> world \<Rightarrow> resp_value \<Rightarrow> resp_buf \<Rightarrow> resources \<Rightarrow> ((world \<times> resp_buf) \<times> resources) res" where
  "command_execute_memory clk env w cmd rb held =
     bindR (command_execute clk env w (Some cmd) rb) (\<lambda>(w1, rb1).
     bindR (release (Buffer_Block (rb_cap rb)) held) (\<lambda>held1.
     Inr ((w1, rb1), add_mset (Buffer_Block (rb_cap rb1)) held1)))"

lemma queue_memory_length: "client_queue_write_memory c d held = Inr (c', held') \<Longrightarrow> c_read_len c' = c_read_len c"
  by (auto simp: client_queue_write_memory_def)

function process_client_input_memory ::
    "clock \<Rightarrow> (nat \<Rightarrow> io) \<Rightarrow> nat \<Rightarrow> world \<Rightarrow> client \<Rightarrow> resources \<Rightarrow> ((world \<times> client) \<times> resources) res" where
  "process_client_input_memory clk env n w c held =
     (if c_read_len c > 0
      then bindR (resp_parse (c_read_buf c) (c_read_len c)) (\<lambda>r.
           case r of
             Parsed consumed cmd \<Rightarrow>
               if consumed = 0 then Inr ((w, c), held)
               else
                 (let (rb, held1) = resp_buf_init_memory held in
                  bindR (command_execute_memory clk (env n) w cmd rb held1) (\<lambda>((w1, reply), held2).
                  bindR (client_queue_write_memory c (rb_data reply) held2) (\<lambda>(c1, held3).
                  bindR (resp_buf_free reply held3) (\<lambda>held4.
                  bindR (consume_input c1 consumed) (\<lambda>c2.
                  process_client_input_memory clk env (Suc n) w1 c2 held4)))))
           | _ \<Rightarrow> Inr ((w, c), held))
      else Inr ((w, c), held))"
  by pat_completeness auto
termination
  by (relation "measure (\<lambda>(clk, env, n, w, c, held). c_read_len c)")
     (auto dest!: consume_input_length queue_memory_length)

declare process_client_input_memory.simps [simp del]

section \<open>The table\<close>

definition server_create_memory :: "database \<Rightarrow> disk \<Rightarrow> int \<Rightarrow> resources \<Rightarrow> server \<times> resources" where
  "server_create_memory db d port held = (server_create db d port, add_mset Server_Block held)"

definition server_listen_memory :: "listen_answers \<Rightarrow> server \<Rightarrow> resources \<Rightarrow> ((server \<times> int) \<times> resources) res" where
  "server_listen_memory la srv held =
     (let port = (word_of_int (srv_port srv) :: 16 word);
          srv1 = srv\<lparr>srv_listen_fd := la_socket la\<rparr> in
      if srv_listen_fd srv1 = INVALID_SOCK then Inr ((srv1, -1), held)
      else
        (let held1 = add_mset (Socket (srv_listen_fd srv1)) held in
         if \<not> la_bind la port then bindR (release (Socket (srv_listen_fd srv1)) held1) (\<lambda>held2. Inr ((srv1, -1), held2))
         else if \<not> la_listen la then bindR (release (Socket (srv_listen_fd srv1)) held1) (\<lambda>held2. Inr ((srv1, -1), held2))
         else Inr ((srv1, 0), held1)))"

definition server_accept_memory :: "int option \<Rightarrow> server \<Rightarrow> resources \<Rightarrow> (server \<times> resources) res" where
  "server_accept_memory answer srv held =
     (case answer of
        None \<Rightarrow> Inr (srv, held)
      | Some fd \<Rightarrow>
          (let held1 = add_mset (Socket fd) held in
           if srv_client_count srv \<ge> MAX_CLIENTS
           then bindR (release (Socket fd) held1) (\<lambda>held2. Inr (srv, held2))
           else
             (let (c, held2) = client_create_memory fd held1 in
              case empty_slot (srv_clients srv) of
                Some i \<Rightarrow>
                  Inr (srv\<lparr>srv_clients := (srv_clients srv)[i := Some c], srv_client_count := srv_client_count srv + 1\<rparr>, held2)
              | None \<Rightarrow> bindR (client_destroy (Some c) held2) (\<lambda>held3. Inr (srv, held3)))))"

definition server_remove_client_memory :: "server \<Rightarrow> nat \<Rightarrow> resources \<Rightarrow> (server \<times> resources) res" where
  "server_remove_client_memory srv index held =
     bindR (client_destroy (srv_clients srv ! index) held) (\<lambda>held1. Inr (server_remove_client srv index, held1))"

definition server_destroy :: "server option \<Rightarrow> resources \<Rightarrow> resources res" where
  "server_destroy p held = (case p of None \<Rightarrow> Inr held | Some srv \<Rightarrow> release Server_Block held)"

section \<open>The event loop\<close>

definition serve_write_memory :: "ready \<Rightarrow> int list \<Rightarrow> nat \<Rightarrow> client \<Rightarrow> server \<Rightarrow> resources \<Rightarrow> (server \<times> resources) res" where
  "serve_write_memory rdy writes i c srv held =
     bindR (FD_ISSET (c_fd c) writes) (\<lambda>is_set.
     if is_set
     then (case client_send (rd_send rdy (c_fd c)) c of
             None \<Rightarrow> server_remove_client_memory srv i held
           | Some (c1, sent) \<Rightarrow>
               Inr (srv\<lparr>srv_clients := (srv_clients srv)[i := Some c1], srv_net := srv_net srv @ [(c_fd c, sent)]\<rparr>, held))
     else Inr (srv, held))"

definition serve_client_memory ::
    "clock \<Rightarrow> ready \<Rightarrow> int list \<Rightarrow> int list \<Rightarrow> nat \<Rightarrow> server \<Rightarrow> resources \<Rightarrow> (server \<times> resources) res" where
  "serve_client_memory clk rdy reads writes i srv held =
     (case srv_clients srv ! i of
        None \<Rightarrow> Inr (srv, held)
      | Some c \<Rightarrow>
          bindR (FD_ISSET (c_fd c) reads) (\<lambda>is_set.
          if is_set
          then (case client_recv (rd_recv rdy (c_fd c)) c of
                  None \<Rightarrow> server_remove_client_memory srv i held
                | Some c1 \<Rightarrow>
                    bindR (process_client_input_memory clk (rd_io rdy (c_fd c)) 0 (srv_world srv) c1 held) (\<lambda>((w, c2), held1).
                    serve_write_memory rdy writes i c2
                      (srv\<lparr>srv_world := w, srv_clients := (srv_clients srv)[i := Some c2]\<rparr>) held1))
          else serve_write_memory rdy writes i c srv held))"

fun serve_clients_memory ::
    "clock \<Rightarrow> ready \<Rightarrow> int list \<Rightarrow> int list \<Rightarrow> nat list \<Rightarrow> server \<Rightarrow> resources \<Rightarrow> (server \<times> resources) res" where
  "serve_clients_memory clk rdy reads writes [] srv held = Inr (srv, held)"
| "serve_clients_memory clk rdy reads writes (i # is) srv held =
     bindR (serve_client_memory clk rdy reads writes i srv held) (\<lambda>(srv1, held1).
     serve_clients_memory clk rdy reads writes is srv1 held1)"

definition server_round_memory :: "clock \<Rightarrow> select_result \<Rightarrow> server \<Rightarrow> resources \<Rightarrow> ((server \<times> bool) \<times> resources) res" where
  "server_round_memory clk sel srv held =
     bindR (FD_SET (srv_listen_fd srv) []) (\<lambda>listen.
     bindR (collect_fds (srv_clients srv) (listen, [])) (\<lambda>(read_fds, write_fds).
     case sel of
       SelectError \<Rightarrow> Inr ((srv, False), held)
     | SelectInterrupted handler \<Rightarrow> bindR (handler (srv_world srv)) (\<lambda>w. Inr ((srv\<lparr>srv_world := w\<rparr>, True), held))
     | SelectReady rdy \<Rightarrow>
         (let reads = filter (\<lambda>fd. fd \<in> set (rd_read rdy)) read_fds;
              writes = filter (\<lambda>fd. fd \<in> set (rd_write rdy)) write_fds in
          bindR (if srv_listen_fd srv \<in> set reads then server_accept_memory (rd_accept rdy) srv held else Inr (srv, held)) (\<lambda>(srv1, held1).
          bindR (serve_clients_memory clk rdy reads writes [0..<MAX_CLIENTS] srv1 held1) (\<lambda>(srv2, held2).
          bindR (db_expire_sweep clk (w_db (srv_world srv2))) (\<lambda>db.
          Inr ((srv2\<lparr>srv_world := (srv_world srv2)\<lparr>w_db := db\<rparr>\<rparr>, True), held2)))))))"

fun remove_clients_memory :: "nat list \<Rightarrow> server \<Rightarrow> resources \<Rightarrow> (server \<times> resources) res" where
  "remove_clients_memory [] srv held = Inr (srv, held)"
| "remove_clients_memory (i # is) srv held =
     bindR (if srv_clients srv ! i \<noteq> None then server_remove_client_memory srv i held else Inr (srv, held)) (\<lambda>(srv1, held1).
     remove_clients_memory is srv1 held1)"

definition server_cleanup_memory :: "server \<Rightarrow> resources \<Rightarrow> (server \<times> resources) res" where
  "server_cleanup_memory srv held =
     bindR (release (Socket (srv_listen_fd srv)) held) (remove_clients_memory [0..<MAX_CLIENTS] srv)"

text \<open>The flag says whether \<open>server_run\<close> has returned, or waits in \<open>select\<close>.\<close>

fun server_loop_memory :: "clock \<Rightarrow> select_result list \<Rightarrow> server \<Rightarrow> resources \<Rightarrow> ((server \<times> bool) \<times> resources) res" where
  "server_loop_memory clk [] srv held =
     (if running srv then Inr ((srv, False), held)
      else bindR (server_cleanup_memory srv held) (\<lambda>(srv1, held1). Inr ((srv1, True), held1)))"
| "server_loop_memory clk (sel # sels) srv held =
     (if running srv
      then bindR (server_round_memory clk sel srv held) (\<lambda>((srv1, go), held1).
           if go then server_loop_memory clk sels srv1 held1
           else bindR (server_cleanup_memory srv1 held1) (\<lambda>(srv2, held2). Inr ((srv2, True), held2)))
      else bindR (server_cleanup_memory srv held) (\<lambda>(srv1, held1). Inr ((srv1, True), held1)))"

definition server_run_memory ::
    "clock \<Rightarrow> listen_answers \<Rightarrow> select_result list \<Rightarrow> server \<Rightarrow> resources \<Rightarrow> ((server \<times> bool) \<times> resources) res" where
  "server_run_memory clk la sels srv held =
     bindR (server_listen_memory la srv held) (\<lambda>((srv1, r), held1).
     if r < 0 then Inr ((srv1, True), held1)
     else server_loop_memory clk sels (srv1\<lparr>srv_world := (srv_world srv1)\<lparr>w_running := Some True\<rparr>\<rparr>) held1)"

text \<open>\<open>main\<close> to its end, if \<open>server_run\<close> returns.\<close>

definition main_memory ::
    "clock \<Rightarrow> string list \<Rightarrow> disk \<Rightarrow> listen_answers \<Rightarrow> select_result list \<Rightarrow> resources \<Rightarrow> ((server \<times> bool) \<times> resources) res" where
  "main_memory clk args d la sels held =
     (let port = port_of_args args DEFAULT_PORT in
      bindR (db_create clk) (\<lambda>db.
      bindR (persist_load clk db d dump_name) (\<lambda>(db1, r).
      let (srv, held1) = server_create_memory db1 d port held in
      bindR (server_run_memory clk la sels srv held1) (\<lambda>((srv1, ended), held2).
      if ended then bindR (server_destroy (Some srv1) held2) (\<lambda>held3. Inr ((srv1, True), held3))
      else Inr ((srv1, False), held2)))))"

end
