(* ===== verification/Server_Memory_Props.thy ===== *)
theory Server_Memory_Props
  imports Server_Memory Server_Props
begin

text \<open>
  Whatever arrives from the network: the server holds exactly its own block, the listening socket and what
  belongs to the clients in its table, nothing is closed or freed twice, and when \<open>main\<close> ends nothing is left.
\<close>

section \<open>What is held\<close>

fun slot_held :: "client option \<Rightarrow> resources" where
  "slot_held None = {#}"
| "slot_held (Some c) = {#Socket (c_fd c), Client_Block, Write_Block (c_write_cap c)#}"

fun clients_held :: "client option list \<Rightarrow> resources" where
  "clients_held [] = {#}"
| "clients_held (x # xs) = slot_held x + clients_held xs"

abbreviation table_held :: "server \<Rightarrow> resources" where
  "table_held srv \<equiv> clients_held (srv_clients srv)"

lemma clients_held_split: "i < length cs \<Longrightarrow> clients_held cs = slot_held (cs ! i) + clients_held (cs[i := None])"
proof (induction cs arbitrary: i)
  case (Cons x cs)
  then show ?case by (cases i) (simp_all add: ac_simps)
qed simp

lemma clients_held_update: "i < length cs \<Longrightarrow> clients_held (cs[i := x]) = slot_held x + clients_held (cs[i := None])"
  using clients_held_split [of i "cs[i := x]"] by simp

lemma clients_held_none [simp]: "clients_held (replicate n None) = {#}"
  by (induction n) simp_all

section \<open>Clients\<close>

lemma grow_block_grow:
  assumes "0 < cap"
  shows "grow_block block need cap (add_mset (block cap) rest) =
    map_option (\<lambda>cap'. Inr (cap', add_mset (block cap') rest)) (grow_cap need cap)"
  using assms
proof (induction "need - cap" arbitrary: cap rule: less_induct)
  case less
  show ?case
  proof (cases "need > cap")
    case True
    then have "need - cap * 2 < need - cap" "0 < cap * 2" using less.prems by auto
    from less.hyps [OF this] True show ?thesis
      by (subst grow_block.simps, subst grow_cap.simps) simp
  next
    case False
    then show ?thesis by (subst grow_block.simps, subst grow_cap.simps) simp
  qed
qed

abbreviation client_held :: "client \<Rightarrow> resources" where
  "client_held c \<equiv> slot_held (Some c)"

lemma queue_tracks:
  assumes "conn_ok c"
  shows "tracks client_held rest (client_queue_write_memory c d (client_held c + rest)) (client_queue_write c d)"
proof -
  have "client_held c + rest = add_mset (Write_Block (c_write_cap c)) ({#Socket (c_fd c), Client_Block#} + rest)" by simp
  then show ?thesis using assms
    unfolding client_queue_write_memory_def client_queue_write_def
    by (simp only: grow_block_grow conn_ok_def)
       (cases "grow_cap (length (c_write_buf c) + length d) (c_write_cap c)"; simp add: ac_simps)
qed

lemma destroy_held [simp]: "client_destroy p (slot_held p + rest) = Inr rest"
  by (cases p) (simp_all add: client_destroy_def release_def)

lemma execute_tracks:
  "tracks (\<lambda>(w1, rb1). {#Buffer_Block (rb_cap rb1)#}) rest
     (command_execute_memory clk env w cmd rb (add_mset (Buffer_Block (rb_cap rb)) rest)) (command_execute clk env w (Some cmd) rb)"
  by (cases "command_execute clk env w (Some cmd) rb") (auto simp: command_execute_memory_def)

lemma consume_held: "consume_input c n = Inr c' \<Longrightarrow> slot_held (Some c') = slot_held (Some c)"
  by (auto simp: consume_input_def Let_def split: if_splits)

text \<open>One command: the reply buffer comes and goes.\<close>

lemma command_tracks:
  assumes "conn_ok c"
    and go_on: "\<And>w1 reply c1 c2. command_execute clk env w (Some cmd) resp_buf_init = Inr (w1, reply) \<Longrightarrow>
      client_queue_write c (rb_data reply) = Inr c1 \<Longrightarrow> consume_input c1 consumed = Inr c2 \<Longrightarrow> conn_ok c2 \<Longrightarrow>
      tracks own rest (gg w1 c2 (client_held c2 + rest)) (g w1 c2)"
  shows "tracks own rest
      (let (rb, held1) = resp_buf_init_memory (client_held c + rest) in
       bindR (command_execute_memory clk env w cmd rb held1) (\<lambda>((w1, reply), held2).
       bindR (client_queue_write_memory c (rb_data reply) held2) (\<lambda>(c1, held3).
       bindR (resp_buf_free reply held3) (\<lambda>held4.
       bindR (consume_input c1 consumed) (\<lambda>c2. gg w1 c2 held4)))))
      (bindR (command_execute clk env w (Some cmd) resp_buf_init) (\<lambda>(w1, reply).
       bindR (client_queue_write c (rb_data reply)) (\<lambda>c1.
       bindR (consume_input c1 consumed) (\<lambda>c2. g w1 c2))))"
  unfolding resp_buf_init_memory_def Let_def prod.case
proof (rule tracks_seq [OF execute_tracks], clarify)
  fix w1 reply assume x: "command_execute clk env w (Some cmd) resp_buf_init = Inr (w1, reply)"
  have mem: "{#Buffer_Block (rb_cap reply)#} + (client_held c + rest) = client_held c + add_mset (Buffer_Block (rb_cap reply)) rest" by simp
  show "tracks own rest
      (bindR (client_queue_write_memory c (rb_data reply) ({#Buffer_Block (rb_cap reply)#} + (client_held c + rest))) (\<lambda>(c1, held3).
       bindR (resp_buf_free reply held3) (\<lambda>held4. bindR (consume_input c1 consumed) (\<lambda>c2. gg w1 c2 held4))))
      (bindR (client_queue_write c (rb_data reply)) (\<lambda>c1. bindR (consume_input c1 consumed) (\<lambda>c2. g w1 c2)))"
    unfolding mem
  proof (rule tracks_seq [OF queue_tracks [OF assms(1)]], clarify)
    fix c1 assume c1: "client_queue_write c (rb_data reply) = Inr c1"
    have ok1: "conn_ok c1" by (rule queue_ok [OF assms(1), of "rb_data reply"]) (use c1 in simp)
    have free: "resp_buf_free reply (client_held c1 + add_mset (Buffer_Block (rb_cap reply)) rest) = Inr (client_held c1 + rest)"
      by (simp add: resp_buf_free_def release_def)
    show "tracks own rest
        (bindR (resp_buf_free reply (client_held c1 + add_mset (Buffer_Block (rb_cap reply)) rest))
          (\<lambda>held4. bindR (consume_input c1 consumed) (\<lambda>c2. gg w1 c2 held4)))
        (bindR (consume_input c1 consumed) (\<lambda>c2. g w1 c2))"
      unfolding free bindR_Inr
    proof (rule tracks_step)
      fix c2 assume c2: "consume_input c1 consumed = Inr c2"
      have "conn_ok c2" by (rule consume_ok [OF ok1, of consumed]) (use c2 consume_input_length [OF c2] in auto)
      from go_on [OF x c1 c2 this] show "tracks own rest (gg w1 c2 (client_held c1 + rest)) (g w1 c2)"
        by (simp only: consume_held [OF c2])
    qed
  qed
qed

lemma process_tracks:
  "conn_ok c \<Longrightarrow> tracks (\<lambda>(w', c'). client_held c') rest
    (process_client_input_memory clk env n w c (client_held c + rest)) (process_client_input clk env n w c)"
proof (induction clk env n w c rule: process_client_input.induct)
  case (1 clk env n w c)
  show ?case
  proof (cases "c_read_len c > 0")
    case False
    then show ?thesis by (subst process_client_input.simps, subst process_client_input_memory.simps) simp
  next
    case True
    show ?thesis
    proof (cases "\<exists>consumed cmd. resp_parse (c_read_buf c) (c_read_len c) = Inr (Parsed consumed cmd) \<and> consumed \<noteq> 0")
      case False
      with True show ?thesis
        by (subst process_client_input.simps, subst process_client_input_memory.simps)
           (cases "resp_parse (c_read_buf c) (c_read_len c)"; auto split: resp_outcome.split)
    next
      case parsed: True
      then obtain consumed cmd where r: "resp_parse (c_read_buf c) (c_read_len c) = Inr (Parsed consumed cmd)" "consumed \<noteq> 0" by blast
      show ?thesis
        by (subst process_client_input.simps, subst process_client_input_memory.simps)
           (simp only: True r if_True if_False bindR_Inr resp_outcome.case,
            rule command_tracks [OF 1(2)], rule 1(1) [OF True r(1) refl r(2)], (assumption | rule refl)+)
    qed
  qed
qed

section \<open>The table\<close>

abbreviation table_tracks :: "resources \<Rightarrow> (server \<times> resources) res \<Rightarrow> server res \<Rightarrow> bool" where
  "table_tracks \<equiv> tracks table_held"

lemma remove_tracks:
  assumes "i < length (srv_clients srv)"
  shows "table_tracks rest (server_remove_client_memory srv i (table_held srv + rest)) (Inr (server_remove_client srv i))"
proof -
  have held: "table_held srv + rest = slot_held (srv_clients srv ! i) + (clients_held ((srv_clients srv)[i := None]) + rest)"
    by (subst clients_held_split [OF assms]) (rule add.assoc)
  show ?thesis unfolding server_remove_client_memory_def held destroy_held by (simp add: server_remove_client_def)
qed

lemma table_update:
  assumes "i < length cs" "slot_held x = slot_held (cs ! i)"
  shows "clients_held (cs[i := x]) = clients_held cs"
  using clients_held_update [OF assms(1), of x] clients_held_split [OF assms(1)] assms(2) by metis

lemma send_held: "client_send a c = Some (c', sent) \<Longrightarrow> slot_held (Some c') = slot_held (Some c)"
  by (auto simp: client_send_def Let_def split: option.splits if_splits)

lemma recv_held: "client_recv a c = Some c' \<Longrightarrow> slot_held (Some c') = slot_held (Some c)"
  by (auto simp: client_recv_def Let_def split: option.splits if_splits)

lemma serve_write_tracks:
  assumes "i < length (srv_clients srv)" "srv_clients srv ! i = Some c"
  shows "table_tracks rest (serve_write_memory rdy writes i c srv (table_held srv + rest)) (serve_write rdy writes i c srv)"
  unfolding serve_write_memory_def serve_write_def
proof (rule tracks_step, rule tracks_if)
  show "table_tracks rest
      (case client_send (rd_send rdy (c_fd c)) c of None \<Rightarrow> server_remove_client_memory srv i (table_held srv + rest)
       | Some (c1, sent) \<Rightarrow>
           Inr (srv\<lparr>srv_clients := (srv_clients srv)[i := Some c1], srv_net := srv_net srv @ [(c_fd c, sent)]\<rparr>, table_held srv + rest))
      (case client_send (rd_send rdy (c_fd c)) c of None \<Rightarrow> Inr (server_remove_client srv i)
       | Some (c1, sent) \<Rightarrow> Inr (srv\<lparr>srv_clients := (srv_clients srv)[i := Some c1], srv_net := srv_net srv @ [(c_fd c, sent)]\<rparr>))"
  proof (cases "client_send (rd_send rdy (c_fd c)) c")
    case None
    then show ?thesis using remove_tracks [OF assms(1)] by simp
  next
    case (Some r)
    obtain c1 sent where r: "r = (c1, sent)" by (cases r)
    have "clients_held ((srv_clients srv)[i := Some c1]) = table_held srv"
      by (rule table_update [OF assms(1)]) (simp only: assms(2) send_held [OF Some [unfolded r]])
    then show ?thesis by (simp add: Some r)
  qed
qed simp

lemma serve_client_tracks:
  assumes "table_ok srv" "i < MAX_CLIENTS"
  shows "table_tracks rest (serve_client_memory clk rdy reads writes i srv (table_held srv + rest)) (serve_client clk rdy reads writes i srv)"
proof (cases "srv_clients srv ! i")
  case None
  then show ?thesis by (simp add: serve_client_memory_def serve_client_def)
next
  case (Some c)
  have len: "i < length (srv_clients srv)" using assms by (simp add: table_ok_def)
  note conn = table_conn [OF assms Some]
  show ?thesis
    unfolding serve_client_memory_def serve_client_def Some option.case
  proof (rule tracks_step, rule tracks_if)
    show "table_tracks rest
        (case client_recv (rd_recv rdy (c_fd c)) c of None \<Rightarrow> server_remove_client_memory srv i (table_held srv + rest)
         | Some c1 \<Rightarrow>
             bindR (process_client_input_memory clk (rd_io rdy (c_fd c)) 0 (srv_world srv) c1 (table_held srv + rest)) (\<lambda>((w, c2), held1).
             serve_write_memory rdy writes i c2 (srv\<lparr>srv_world := w, srv_clients := (srv_clients srv)[i := Some c2]\<rparr>) held1))
        (case client_recv (rd_recv rdy (c_fd c)) c of None \<Rightarrow> Inr (server_remove_client srv i)
         | Some c1 \<Rightarrow>
             bindR (process_client_input clk (rd_io rdy (c_fd c)) 0 (srv_world srv) c1) (\<lambda>(w, c2).
             serve_write rdy writes i c2 (srv\<lparr>srv_world := w, srv_clients := (srv_clients srv)[i := Some c2]\<rparr>)))"
    proof (cases "client_recv (rd_recv rdy (c_fd c)) c")
      case None
      then show ?thesis using remove_tracks [OF len] by simp
    next
      case c1: (Some c1)
      then obtain bytes where "rd_recv rdy (c_fd c) = Some bytes" by (cases "rd_recv rdy (c_fd c)") (auto simp: client_recv_def)
      with c1 have conn1: "conn_ok c1" using recv_ok(1) [OF conn] by simp
      let ?others = "clients_held ((srv_clients srv)[i := None])"
      have held: "table_held srv + rest = client_held c1 + (?others + rest)"
        by (subst clients_held_split [OF len]) (simp only: Some recv_held [OF c1] add.assoc)
      show ?thesis unfolding c1 option.case held
      proof (rule tracks_seq [OF process_tracks [OF conn1]], clarify)
        fix w c2
        have table: "client_held c2 + (?others + rest) =
            table_held (srv\<lparr>srv_world := w, srv_clients := (srv_clients srv)[i := Some c2]\<rparr>) + rest"
          using clients_held_update [OF len, of "Some c2"] by (simp add: add.assoc)
        show "table_tracks rest
            (serve_write_memory rdy writes i c2 (srv\<lparr>srv_world := w, srv_clients := (srv_clients srv)[i := Some c2]\<rparr>) (client_held c2 + (?others + rest)))
            (serve_write rdy writes i c2 (srv\<lparr>srv_world := w, srv_clients := (srv_clients srv)[i := Some c2]\<rparr>))"
          unfolding table by (rule serve_write_tracks) (use len in simp_all)
      qed
    qed
  qed (rule serve_write_tracks [OF len Some])
qed

lemma serve_clients_tracks:
  "table_ok srv \<Longrightarrow> \<forall>i \<in> set is. i < MAX_CLIENTS \<Longrightarrow>
   table_tracks rest (serve_clients_memory clk rdy reads writes is srv (table_held srv + rest)) (serve_clients clk rdy reads writes is srv)"
proof (induction "is" arbitrary: srv)
  case (Cons i "is")
  have i: "i < MAX_CLIENTS" using Cons.prems(2) by simp
  show ?case unfolding serve_clients_memory.simps serve_clients.simps
    by (rule tracks_seq [OF serve_client_tracks [OF Cons.prems(1) i]])
       (use Cons.IH Cons.prems(2) serve_client_table [OF _ Cons.prems(1) i] in auto)
qed simp

lemma accept_tracks:
  assumes "length (srv_clients srv) = MAX_CLIENTS"
  shows "table_tracks rest (server_accept_memory answer srv (table_held srv + rest)) (Inr (server_accept answer srv))"
proof (cases answer)
  case (Some fd)
  let ?held = "add_mset (Socket fd) (table_held srv + rest)"
  have new: "client_create_memory fd ?held = (client_create fd, client_held (client_create fd) + (table_held srv + rest))"
    by (simp add: client_create_memory_def Let_def client_create_def)
  show ?thesis
  proof (cases "srv_client_count srv \<ge> MAX_CLIENTS")
    case True
    with Some show ?thesis by (simp add: server_accept_memory_def server_accept_def)
  next
    case False
    show ?thesis
    proof (cases "empty_slot (srv_clients srv)")
      case None
      with Some False show ?thesis
        by (simp add: server_accept_memory_def server_accept_def new del: slot_held.simps)
    next
      case slot: (Some i)
      note i = empty_slot_Some [OF slot]
      have "clients_held ((srv_clients srv)[i := None]) = table_held srv" by (rule table_update) (use i in simp_all)
      then have "clients_held ((srv_clients srv)[i := Some (client_create fd)]) = client_held (client_create fd) + table_held srv"
        using clients_held_update [of i "srv_clients srv" "Some (client_create fd)"] i by simp
      with Some False slot show ?thesis
        by (simp add: server_accept_memory_def server_accept_def new del: slot_held.simps add: add.assoc)
    qed
  qed
qed (simp add: server_accept_memory_def server_accept_def)

section \<open>Rounds\<close>

lemma serve_clients_listen: "serve_clients clk rdy reads writes is srv = Inr srv' \<Longrightarrow> srv_listen_fd srv' = srv_listen_fd srv"
  by (induction "is" arbitrary: srv) (auto dest!: serve_client_frame simp: only_slot_def)

lemma accept_listen [simp]: "srv_listen_fd (server_accept answer srv) = srv_listen_fd srv"
  by (simp add: server_accept_def split: option.split)

lemma round_listen:
  assumes "server_round clk sel srv = Inr (srv1, go)"
  shows "srv_listen_fd srv1 = srv_listen_fd srv"
  using assms by (cases sel) (auto simp: server_round_def Let_def split: prod.splits dest!: serve_clients_listen)

lemma round_tracks:
  assumes "table_ok srv"
  shows "tracks (\<lambda>(srv1, go). table_held srv1) rest (server_round_memory clk sel srv (table_held srv + rest)) (server_round clk sel srv)"
  unfolding server_round_memory_def server_round_def
proof (rule tracks_step, rule tracks_step, clarify)
  fix rs ws
  show "tracks (\<lambda>(srv1, go). table_held srv1) rest
      (case sel of
         SelectError \<Rightarrow> Inr ((srv, False), table_held srv + rest)
       | SelectInterrupted handler \<Rightarrow> bindR (handler (srv_world srv)) (\<lambda>w. Inr ((srv\<lparr>srv_world := w\<rparr>, True), table_held srv + rest))
       | SelectReady rdy \<Rightarrow>
           (let reads = filter (\<lambda>fd. fd \<in> set (rd_read rdy)) rs; writes = filter (\<lambda>fd. fd \<in> set (rd_write rdy)) ws in
            bindR (if srv_listen_fd srv \<in> set reads then server_accept_memory (rd_accept rdy) srv (table_held srv + rest)
                   else Inr (srv, table_held srv + rest)) (\<lambda>(srv1, held1).
            bindR (serve_clients_memory clk rdy reads writes [0..<MAX_CLIENTS] srv1 held1) (\<lambda>(srv2, held2).
            bindR (db_expire_sweep clk (w_db (srv_world srv2))) (\<lambda>db.
            Inr ((srv2\<lparr>srv_world := (srv_world srv2)\<lparr>w_db := db\<rparr>\<rparr>, True), held2))))))
      (case sel of
         SelectError \<Rightarrow> Inr (srv, False)
       | SelectInterrupted handler \<Rightarrow> bindR (handler (srv_world srv)) (\<lambda>w. Inr (srv\<lparr>srv_world := w\<rparr>, True))
       | SelectReady rdy \<Rightarrow>
           (let reads = filter (\<lambda>fd. fd \<in> set (rd_read rdy)) rs; writes = filter (\<lambda>fd. fd \<in> set (rd_write rdy)) ws;
                srv1 = (if srv_listen_fd srv \<in> set reads then server_accept (rd_accept rdy) srv else srv)
            in bindR (serve_clients clk rdy reads writes [0..<MAX_CLIENTS] srv1) (\<lambda>srv2.
               bindR (db_expire_sweep clk (w_db (srv_world srv2))) (\<lambda>db.
               Inr (srv2\<lparr>srv_world := (srv_world srv2)\<lparr>w_db := db\<rparr>\<rparr>, True)))))"
  proof (cases sel)
    case (SelectReady rdy)
    define reads where "reads = filter (\<lambda>fd. fd \<in> set (rd_read rdy)) rs"
    define srv1 where "srv1 = (if srv_listen_fd srv \<in> set reads then server_accept (rd_accept rdy) srv else srv)"
    have "length (srv_clients srv) = MAX_CLIENTS" using assms by (simp add: table_ok_def)
    from accept_tracks [OF this, of rest "rd_accept rdy"]
    have acc: "(if srv_listen_fd srv \<in> set reads then server_accept_memory (rd_accept rdy) srv (table_held srv + rest)
         else Inr (srv, table_held srv + rest)) = Inr (srv1, table_held srv1 + rest)"
      by (simp add: srv1_def tracks_def)
    have ok1: "table_ok srv1" using assms table_accept [OF assms] by (simp add: srv1_def)
    show ?thesis
      unfolding SelectReady select_result.case Let_def reads_def [symmetric] acc bindR_Inr prod.case srv1_def [symmetric]
    proof (rule tracks_seq [OF serve_clients_tracks [OF ok1]])
      show "\<forall>i \<in> set [0..<MAX_CLIENTS]. i < MAX_CLIENTS" by simp
    qed (auto intro!: tracks_step)
  qed (auto intro: tracks_step)
qed

section \<open>The end\<close>

abbreviation remove_step :: "server \<Rightarrow> nat \<Rightarrow> server" where
  "remove_step \<equiv> \<lambda>s i. if srv_clients s ! i \<noteq> None then server_remove_client s i else s"

lemma remove_clients_tracks:
  "\<forall>i \<in> set is. i < length (srv_clients srv) \<Longrightarrow>
   remove_clients_memory is srv (table_held srv + rest) = Inr (foldl remove_step srv is, table_held (foldl remove_step srv is) + rest)"
proof (induction "is" arbitrary: srv)
  case (Cons i "is")
  have "server_remove_client_memory srv i (table_held srv + rest) =
      Inr (server_remove_client srv i, table_held (server_remove_client srv i) + rest)"
    using remove_tracks [of i srv rest] Cons.prems by (simp add: tracks_def)
  moreover have "length (srv_clients (server_remove_client srv i)) = length (srv_clients srv)" by (simp add: server_remove_client_def)
  ultimately show ?case using Cons.IH Cons.prems by simp
qed simp

lemma cleanup_tracks:
  assumes "table_ok srv"
  shows "server_cleanup_memory srv (add_mset (Socket (srv_listen_fd srv)) (table_held srv + rest)) = Inr (server_cleanup srv, rest)"
proof -
  have len: "length (srv_clients srv) = MAX_CLIENTS" using assms by (simp add: table_ok_def)
  have "table_held (server_cleanup srv) = {#}" unfolding server_cleanup_clears(3) [OF len] by (rule clients_held_none)
  with remove_clients_tracks [of "[0..<MAX_CLIENTS]" srv rest] len show ?thesis
    by (simp add: server_cleanup_memory_def server_cleanup_def)
qed

text \<open>The loop, up to its end or to the next wait in \<open>select\<close>.\<close>

definition settles :: "resources \<Rightarrow> ((server \<times> bool) \<times> resources) res \<Rightarrow> server res \<Rightarrow> bool" where
  "settles rest mm m \<longleftrightarrow> (case m of
     Inl f \<Rightarrow> mm = Inl f
   | Inr srv \<Rightarrow> mm = Inr ((srv, True), rest) \<or> mm = Inr ((srv, False), add_mset (Socket (srv_listen_fd srv)) (table_held srv + rest)))"

lemma loop_settles:
  "table_ok srv \<Longrightarrow> settles rest (server_loop_memory clk sels srv (add_mset (Socket (srv_listen_fd srv)) (table_held srv + rest)))
     (server_loop clk sels srv)"
proof (induction sels arbitrary: srv)
  case Nil
  then show ?case using cleanup_tracks [OF Nil] by (simp add: settles_def)
next
  case (Cons sel sels)
  let ?held = "add_mset (Socket (srv_listen_fd srv)) (table_held srv + rest)"
  show ?case
  proof (cases "running srv")
    case False
    then show ?thesis using cleanup_tracks [OF Cons.prems] by (simp add: settles_def)
  next
    case True
    have round: "server_round_memory clk sel srv ?held =
        bindR (server_round clk sel srv) (\<lambda>(srv1, go). Inr ((srv1, go), table_held srv1 + add_mset (Socket (srv_listen_fd srv)) rest))"
      using round_tracks [OF Cons.prems, of "add_mset (Socket (srv_listen_fd srv)) rest" clk sel] by (simp add: tracks_def split_def)
    show ?thesis
    proof (cases "server_round clk sel srv")
      case (Inl f)
      with True show ?thesis unfolding server_loop_memory.simps round by (simp add: settles_def)
    next
      case (Inr r)
      obtain srv1 go where r: "r = (srv1, go)" by (cases r)
      have ok1: "table_ok srv1" and fd: "srv_listen_fd srv1 = srv_listen_fd srv"
        using round_table [OF Inr [unfolded r] Cons.prems] round_listen [OF Inr [unfolded r]] by auto
      show ?thesis unfolding server_loop_memory.simps round
        using True Inr r Cons.IH [OF ok1] cleanup_tracks [OF ok1, of rest] fd by (cases go) (simp_all add: settles_def)
    qed
  qed
qed

lemma listen_held:
  "server_listen_memory la srv held = Inr (server_listen la srv,
     if snd (server_listen la srv) < 0 then held else add_mset (Socket (srv_listen_fd (fst (server_listen la srv)))) held)"
  by (simp add: server_listen_memory_def server_listen_def Let_def)

lemma run_settles:
  assumes "table_ok srv" "table_held srv = {#}"
  shows "settles rest (server_run_memory clk la sels srv rest) (server_run clk la sels srv)"
proof -
  obtain srv1 r where listen: "server_listen la srv = (srv1, r)" by (cases "server_listen la srv")
  let ?on = "srv1\<lparr>srv_world := (srv_world srv1)\<lparr>w_running := Some True\<rparr>\<rparr>"
  have clients: "srv_clients srv1 = srv_clients srv" "srv_client_count srv1 = srv_client_count srv"
    using listen by (auto simp: server_listen_def Let_def split: if_splits)
  have "table_ok ?on" using assms(1) clients by (simp add: table_ok_def)
  from loop_settles [OF this, of rest clk sels] assms(2) clients listen show ?thesis
    by (simp add: server_run_memory_def server_run_def listen_held) (simp add: settles_def)
qed

text \<open>What \<open>main\<close> does after \<open>server_run\<close>.\<close>

lemma settles_main:
  assumes "settles {#Server_Block#} mm m"
  defines "finish \<equiv> \<lambda>((srv1, ended), held2).
    if ended then bindR (server_destroy (Some srv1) held2) (\<lambda>held3. Inr ((srv1, True), held3)) else Inr ((srv1, False), held2)"
  shows "case m of Inl f \<Rightarrow> bindR mm finish = Inl f
    | Inr srv \<Rightarrow> \<exists>ended. bindR mm finish =
        Inr ((srv, ended), if ended then {#} else {#Server_Block, Socket (srv_listen_fd srv)#} + table_held srv)"
proof (cases m)
  case (Inl f)
  with assms(1) show ?thesis by (simp add: settles_def)
next
  case (Inr srv)
  with assms(1) consider "mm = Inr ((srv, True), {#Server_Block#})"
    | "mm = Inr ((srv, False), add_mset (Socket (srv_listen_fd srv)) (table_held srv + {#Server_Block#}))"
    by (auto simp: settles_def)
  then show ?thesis
  proof cases
    case 1
    then show ?thesis by (simp add: Inr finish_def server_destroy_def release_def exI [of _ True])
  next
    case 2
    then show ?thesis by (simp add: Inr finish_def ac_simps exI [of _ False])
  qed
qed

text \<open>C8: from the start of \<open>main\<close> to its end, for every input from the network and from the operating system, malformed
  requests included: no descriptor is closed and no block freed twice; while the server waits for input it holds
  its own block, the listening socket and, for every client in the table, a socket and two blocks; and when
  \<open>main\<close> ends - also when \<open>bind\<close> or \<open>listen\<close> failed - every socket is closed and every block freed.\<close>

theorem server_resources_balanced:
  "case server_main clk args d la sels of
     Inl f \<Rightarrow> main_memory clk args d la sels {#} = Inl f
   | Inr srv \<Rightarrow> \<exists>ended. main_memory clk args d la sels {#} =
       Inr ((srv, ended), if ended then {#} else {#Server_Block, Socket (srv_listen_fd srv)#} + table_held srv)"
proof (cases "bindR (db_create clk) (\<lambda>db. persist_load clk db d dump_name)")
  case (Inl f)
  then show ?thesis by (cases "db_create clk") (auto simp: server_main_def main_memory_def Let_def)
next
  case (Inr loaded)
  then obtain db0 db r where loaded: "db_create clk = Inr db0" "persist_load clk db0 d dump_name = Inr (db, r)" by (cases loaded) auto
  define srv0 where "srv0 = server_create db d (port_of_args args DEFAULT_PORT)"
  have "settles {#Server_Block#} (server_run_memory clk la sels srv0 {#Server_Block#}) (server_run clk la sels srv0)"
    by (rule run_settles) (simp_all add: srv0_def server_create_def table_ok_def)
  from settles_main [OF this] loaded show ?thesis
    by (simp only: main_memory_def server_main_def server_create_memory_def srv0_def Let_def prod.case bindR_Inr)
qed

end
