(* ===== verification/Process.thy ===== *)
theory Process
  imports Startup
begin

text \<open>
  The life of the server process as \<open>main\<close> and \<open>server_run\<close> lead it, in small steps: the place in the code
  where it is, with the variables that are live there, and one step for every statement or call on the way,
  so that a signal can arrive between any two of them. \<open>Server\<close> and \<open>Startup\<close> take a round of the loop and the
  run of the program at once. A signal within one of the calls (in the middle of the work for one client, of the
  sweep, of the load or the save) is not modelled.
\<close>

section \<open>Places\<close>

text \<open>
  Before \<open>db_create\<close> and before \<open>server_create\<close>; before \<open>server_listen\<close> and before \<open>srv->running = 1\<close>; at the head of
  the loop; in \<open>select\<close>; before the look at the listening socket; in the loop over the clients, with the
  slots that are left; before the sweep; in the loop that removes the clients; behind the return of \<open>server_run\<close>;
  behind \<open>server_destroy\<close>, when \<open>g_server\<close> still points to the freed server (a signal between \<open>db_destroy\<close> and the
  return of \<open>main\<close> does the same and counts as one that arrives here); behind \<open>main\<close>.
\<close>

datatype process =
    Begun disk
  | Loaded database disk
  | Created server
  | Listening server
  | AtLoop server
  | Waiting "int list" "int list" server
  | Accepting ready "int list" "int list" server
  | Serving ready "int list" "int list" "nat list" server
  | Sweeping server
  | Leaving "nat list" server
  | Returned server
  | Destroyed database disk
  | Exited disk

text \<open>What \<open>g_server\<close> points to, where it points to a server.\<close>

fun server_of :: "process \<Rightarrow> server option" where
  "server_of (Created srv) = Some srv"
| "server_of (Listening srv) = Some srv"
| "server_of (AtLoop srv) = Some srv"
| "server_of (Waiting rs ws srv) = Some srv"
| "server_of (Accepting rdy rs ws srv) = Some srv"
| "server_of (Serving rdy rs ws is srv) = Some srv"
| "server_of (Sweeping srv) = Some srv"
| "server_of (Leaving is srv) = Some srv"
| "server_of (Returned srv) = Some srv"
| "server_of _ = None"

fun put_server :: "server \<Rightarrow> process \<Rightarrow> process" where
  "put_server s (Created srv) = Created s"
| "put_server s (Listening srv) = Listening s"
| "put_server s (AtLoop srv) = AtLoop s"
| "put_server s (Waiting rs ws srv) = Waiting rs ws s"
| "put_server s (Accepting rdy rs ws srv) = Accepting rdy rs ws s"
| "put_server s (Serving rdy rs ws is srv) = Serving rdy rs ws is s"
| "put_server s (Sweeping srv) = Sweeping s"
| "put_server s (Leaving is srv) = Leaving is s"
| "put_server s (Returned srv) = Returned s"
| "put_server s p = p"

section \<open>Steps\<close>

text \<open>
  What happens next: the process goes on by itself; the operating system answers \<open>server_listen\<close> or \<open>select\<close>;
  a signal is delivered.
\<close>

datatype select_answer = SelectFails | SelectEINTR | SelectReturns ready

datatype event = Tick | Listen listen_answers | Select select_answer | Signal io

text \<open>The next statement, where it needs no answer; \<open>None\<close> where it does, and at the end.\<close>

fun proc_tick :: "clock \<Rightarrow> int \<Rightarrow> process \<Rightarrow> process res option" where
  "proc_tick clk port (Begun d) =
     Some (bindR (db_create clk) (\<lambda>db. bindR (persist_load clk db d dump_name) (\<lambda>(db1, r). Inr (Loaded db1 d))))"
| "proc_tick clk port (Loaded db d) = Some (Inr (Created (server_create db d port)))"
| "proc_tick clk port (Listening srv) =
     Some (Inr (AtLoop (srv\<lparr>srv_world := (srv_world srv)\<lparr>w_running := Some True\<rparr>\<rparr>)))"
| "proc_tick clk port (AtLoop srv) =
     Some (if running srv
           then bindR (FD_SET (srv_listen_fd srv) []) (\<lambda>listen.
                bindR (collect_fds (srv_clients srv) (listen, [])) (\<lambda>(read_fds, write_fds).
                Inr (Waiting read_fds write_fds srv)))
           else Inr (Leaving [0..<MAX_CLIENTS] srv))"
| "proc_tick clk port (Accepting rdy reads writes srv) =
     Some (Inr (Serving rdy reads writes [0..<MAX_CLIENTS]
       (if srv_listen_fd srv \<in> set reads then server_accept (rd_accept rdy) srv else srv)))"
| "proc_tick clk port (Serving rdy reads writes [] srv) = Some (Inr (Sweeping srv))"
| "proc_tick clk port (Serving rdy reads writes (i # is) srv) =
     Some (bindR (serve_client clk rdy reads writes i srv) (\<lambda>srv1. Inr (Serving rdy reads writes is srv1)))"
| "proc_tick clk port (Sweeping srv) =
     Some (bindR (db_expire_sweep clk (w_db (srv_world srv))) (\<lambda>db.
       Inr (AtLoop (srv\<lparr>srv_world := (srv_world srv)\<lparr>w_db := db\<rparr>\<rparr>))))"
| "proc_tick clk port (Leaving [] srv) = Some (Inr (Returned srv))"
| "proc_tick clk port (Leaving (i # is) srv) =
     Some (Inr (Leaving is (if srv_clients srv ! i \<noteq> None then server_remove_client srv i else srv)))"
| "proc_tick clk port (Returned srv) = Some (Inr (Destroyed (w_db (srv_world srv)) (w_disk (srv_world srv))))"
| "proc_tick clk port (Destroyed db d) = Some (Inr (Exited d))"
| "proc_tick clk port _ = None"

fun proc_listen :: "listen_answers \<Rightarrow> process \<Rightarrow> process option" where
  "proc_listen la (Created srv) = Some (let (srv1, r) = server_listen la srv in if r < 0 then Returned srv1 else Listening srv1)"
| "proc_listen la _ = None"

text \<open>\<open>select\<close> leaves in the sets the descriptors that are ready; it fails, is interrupted, or returns.\<close>

fun proc_select :: "select_answer \<Rightarrow> process \<Rightarrow> process option" where
  "proc_select SelectFails (Waiting read_fds write_fds srv) = Some (Leaving [0..<MAX_CLIENTS] srv)"
| "proc_select SelectEINTR (Waiting read_fds write_fds srv) = Some (AtLoop srv)"
| "proc_select (SelectReturns rdy) (Waiting read_fds write_fds srv) =
     Some (Accepting rdy (filter (\<lambda>fd. fd \<in> set (rd_read rdy)) read_fds) (filter (\<lambda>fd. fd \<in> set (rd_write rdy)) write_fds) srv)"
| "proc_select _ _ = None"

text \<open>The handler looks at \<open>g_server\<close>; when the process has ended there is nobody to signal.\<close>

definition proc_signal :: "io \<Rightarrow> process \<Rightarrow> process res option" where
  "proc_signal env p =
     (case p of
        Exited d \<Rightarrow> None
      | Destroyed db d \<Rightarrow> Some (Inl DanglingDeref)
      | _ \<Rightarrow>
          (case server_of p of
             None \<Rightarrow> Some (Inr p)
           | Some srv \<Rightarrow> Some (bindR (signal_handler env (srv_world srv)) (\<lambda>w. Inr (put_server (srv\<lparr>srv_world := w\<rparr>) p)))))"

definition proc_step :: "clock \<Rightarrow> int \<Rightarrow> event \<Rightarrow> process \<Rightarrow> process res option" where
  "proc_step clk port ev p =
     (case ev of
        Tick \<Rightarrow> proc_tick clk port p
      | Listen la \<Rightarrow> map_option Inr (proc_listen la p)
      | Select a \<Rightarrow> map_option Inr (proc_select a p)
      | Signal env \<Rightarrow> proc_signal env p)"

text \<open>A sequence of events; it ends early with a fault, and is \<open>None\<close> if one of them cannot happen.\<close>

fun proc_run :: "clock \<Rightarrow> int \<Rightarrow> event list \<Rightarrow> process \<Rightarrow> process res option" where
  "proc_run clk port [] p = Some (Inr p)"
| "proc_run clk port (ev # evs) p =
     (case proc_step clk port ev p of
        None \<Rightarrow> None
      | Some (Inl fault) \<Rightarrow> Some (Inl fault)
      | Some (Inr q) \<Rightarrow> proc_run clk port evs q)"

lemmas proc_step_simps [simp] = proc_step_def [of clk port Tick for clk port, simplified]
  proc_step_def [of clk port "Listen la" for clk port la, simplified]
  proc_step_def [of clk port "Select a" for clk port a, simplified]
  proc_step_def [of clk port "Signal env" for clk port env, simplified]

lemma proc_signal_simps [simp]:
  "proc_signal env (Exited d) = None"
  "proc_signal env (Destroyed db d) = Some (Inl DanglingDeref)"
  "server_of p = Some srv \<Longrightarrow>
     proc_signal env p = Some (bindR (signal_handler env (srv_world srv)) (\<lambda>w. Inr (put_server (srv\<lparr>srv_world := w\<rparr>) p)))"
  "proc_signal env (Begun d) = Some (Inr (Begun d))"
  "proc_signal env (Loaded db d) = Some (Inr (Loaded db d))"
  by (auto simp: proc_signal_def split: process.split)

lemma server_of_cases: "server_of p \<noteq> None \<or> (\<exists>d. p = Begun d \<or> p = Exited d) \<or> (\<exists>db d. p = Loaded db d \<or> p = Destroyed db d)"
  by (cases p) auto

lemma proc_run_append:
  "proc_run clk port (evs @ evs') p =
     (case proc_run clk port evs p of
        None \<Rightarrow> None
      | Some (Inl fault) \<Rightarrow> Some (Inl fault)
      | Some (Inr q) \<Rightarrow> proc_run clk port evs' q)"
  by (induction evs arbitrary: p) (auto split: option.split sum.split)

text \<open>The states of the process on a disk, whatever happens and however the clock goes between the steps.\<close>

inductive proc_reaches :: "(event \<Rightarrow> process \<Rightarrow> bool) \<Rightarrow> int \<Rightarrow> disk \<Rightarrow> process \<Rightarrow> bool" for allowed port d where
  begun: "proc_reaches allowed port d (Begun d)"
| step: "proc_reaches allowed port d p \<Longrightarrow> allowed ev p \<Longrightarrow> proc_step clk port ev p = Some (Inr q) \<Longrightarrow> proc_reaches allowed port d q"

end
