(* ===== verification/Process_Safe.thy ===== *)
theory Process_Safe
  imports Process_Props
begin

text \<open>
  The process under well-formed input and signals at any moment before \<open>server_destroy\<close>: an invariant for every
  place, kept by every step.
\<close>

section \<open>The invariant\<close>

text \<open>What holds at each place; \<open>good_server\<close> is the invariant of the server between two rounds.\<close>

fun sound :: "process \<Rightarrow> bool" where
  "sound (Begun d) = True"
| "sound (Loaded db d) = db_ok db"
| "sound (Created srv) = (table_ok srv \<and> world_ok (srv_world srv) \<and> client_fds srv = {})"
| "sound (Listening srv) = good_server srv"
| "sound (AtLoop srv) = good_server srv"
| "sound (Waiting rs ws srv) = (good_server srv \<and> set rs = insert (srv_listen_fd srv) (client_fds srv))"
| "sound (Accepting rdy reads ws srv) =
     (good_server srv \<and> round_input_ok srv rdy \<and>
      (\<exists>rs. set rs = insert (srv_listen_fd srv) (client_fds srv) \<and> reads = filter (\<lambda>fd. fd \<in> set (rd_read rdy)) rs))"
| "sound (Serving rdy reads ws is srv) =
     (good_server srv \<and> arrivals_ok rdy reads is srv \<and> distinct is \<and> (\<forall>i \<in> set is. i < MAX_CLIENTS))"
| "sound (Sweeping srv) = good_server srv"
| "sound (Leaving is srv) = (table_ok srv \<and> world_ok (srv_world srv) \<and> (\<forall>i \<in> set is. i < MAX_CLIENTS))"
| "sound (Returned srv) = (table_ok srv \<and> world_ok (srv_world srv))"
| "sound (Destroyed db d) = db_ok db"
| "sound (Exited d) = True"

text \<open>
  What is expected of the outside: descriptors are small enough for an \<open>fd_set\<close>, clients send well-formed requests,
  and no signal arrives between \<open>server_destroy\<close> and the end of \<open>main\<close>.
\<close>

fun expected :: "event \<Rightarrow> process \<Rightarrow> bool" where
  "expected (Listen la) p = (la_socket la = INVALID_SOCK \<or> fd_ok (la_socket la))"
| "expected (Select (SelectReturns rdy)) (Waiting rs ws srv) = round_input_ok srv rdy"
| "expected (Signal env) (Destroyed db d) = False"
| "expected _ _ = True"

section \<open>Every step keeps it\<close>

lemma world_change [simp]:
  "client_fds (srv\<lparr>srv_world := w\<rparr>) = client_fds srv" "round_input_ok (srv\<lparr>srv_world := w\<rparr>) rdy = round_input_ok srv rdy"
  "arrivals_ok rdy reads is (srv\<lparr>srv_world := w\<rparr>) = arrivals_ok rdy reads is srv"
  by (simp_all add: client_fds_def round_input_ok_def arrivals_ok_def)

lemma good_world: "good_server srv \<Longrightarrow> world_ok w \<Longrightarrow> good_server (srv\<lparr>srv_world := w\<rparr>)"
  by (simp add: good_server_def)

lemma good_table: "good_server srv \<Longrightarrow> table_ok srv \<and> world_ok (srv_world srv)"
  by (simp add: good_server_def)

lemma sound_world: "sound p \<Longrightarrow> server_of p = Some srv \<Longrightarrow> world_ok (srv_world srv)"
  by (cases p) (auto dest: good_table)

lemma signal_ok: "world_ok w \<Longrightarrow> res_ok E world_ok (signal_handler env w)"
  using save_total [of w env] by (auto simp: signal_handler_def)

lemma sound_signal:
  assumes "sound p" "proc_signal env p = Some r" "expected (Signal env) p"
  shows "res_ok E sound r"
proof (cases "server_of p")
  case (Some srv)
  have put: "sound (put_server (srv\<lparr>srv_world := w\<rparr>) p)" if "world_ok w" for w
    using assms(1) Some that by (cases p) (auto intro: good_world)
  show ?thesis using assms(2) Some signal_ok [OF sound_world [OF assms(1) Some], of E env] by (auto elim!: res_ok_bind intro: put)
next
  case None
  with assms show ?thesis using server_of_cases [of p] by auto
qed

lemma arrivals_step:
  assumes "arrivals_ok rdy reads (i # is) srv" "only_slot i srv srv1" "distinct (i # is)"
  shows "arrivals_ok rdy reads is srv1"
  using assms by (auto simp: arrivals_ok_def only_slot_def)

lemma sound_tick:
  assumes "sound p" "proc_tick clk port p = Some r" "\<nexists>d. p = Begun d"
  shows "res_ok {SignedOverflow} sound r"
proof (cases p)
  case (Loaded db d)
  with assms show ?thesis by (auto simp: server_create_def table_ok_def client_fds_def world_ok_def)
next
  case (AtLoop srv)
  obtain rs ws where "FD_SET (srv_listen_fd srv) [] = Inr [srv_listen_fd srv]"
      "collect_fds (srv_clients srv) ([srv_listen_fd srv], []) = Inr (rs, ws)" "set rs = insert (srv_listen_fd srv) (client_fds srv)"
    by (rule good_fds [of srv]) (use assms(1) AtLoop in auto)
  with assms AtLoop show ?thesis by (auto dest: good_table)
next
  case (Accepting rdy reads ws srv)
  with assms obtain rs where rs: "good_server srv" "round_input_ok srv rdy" "set rs = insert (srv_listen_fd srv) (client_fds srv)"
      "reads = filter (\<lambda>fd. fd \<in> set (rd_read rdy)) rs" by auto
  from accepted_ok [OF rs] assms(2) Accepting show ?thesis by auto
next
  case (Serving rdy reads ws "is" srv)
  show ?thesis
  proof (cases "is")
    case (Cons i js)
    with assms(1) Serving have h: "good_server srv" "arrivals_ok rdy reads (i # js) srv" "distinct (i # js)" "i < MAX_CLIENTS" "\<forall>i \<in> set js. i < MAX_CLIENTS"
      by auto
    have "res_ok {SignedOverflow} (\<lambda>srv1. good_server srv1 \<and> only_slot i srv srv1) (serve_client clk rdy reads ws i srv)"
      by (rule good_client [OF h(1,4)]) (use h(2) in \<open>auto simp: arrivals_ok_def\<close>)
    then have "res_ok {SignedOverflow} sound (bindR (serve_client clk rdy reads ws i srv) (\<lambda>srv1. Inr (Serving rdy reads ws js srv1)))"
      by (rule res_ok_bind) (use h arrivals_step [OF h(2)] in auto)
    with assms(2) Serving Cons show ?thesis by auto
  qed (use assms Serving in auto)
next
  case (Sweeping srv)
  with assms have "good_server srv" by simp
  from good_sweep [OF this, of clk] have "res_ok {SignedOverflow} sound
      (bindR (db_expire_sweep clk (w_db (srv_world srv))) (\<lambda>db. Inr (AtLoop (srv\<lparr>srv_world := (srv_world srv)\<lparr>w_db := db\<rparr>\<rparr>))))"
    by (rule res_ok_bind) simp
  with assms(2) Sweeping show ?thesis by auto
next
  case (Leaving "is" srv)
  show ?thesis
  proof (cases "is")
    case (Cons i js)
    have "srv_world (server_remove_client srv i) = srv_world srv" by (simp add: server_remove_client_def)
    with assms Leaving Cons table_remove [of srv i] show ?thesis by auto
  qed (use assms Leaving in auto)
next
  case (Listening srv)
  with assms show ?thesis by (auto simp: good_server_def)
qed (use assms in \<open>auto dest: good_table\<close>)

lemma sound_listen:
  assumes "sound p" "proc_listen la p = Some q" "expected (Listen la) p"
  shows "sound q"
proof (cases p)
  case (Created srv)
  with assms show ?thesis
    by (auto simp: server_listen_def good_server_def table_ok_def client_fds_def Let_def INVALID_SOCK_def split: if_splits)
qed (use assms in auto)

lemma sound_select:
  assumes "sound p" "proc_select a p = Some q" "expected (Select a) p"
  shows "sound q"
  using assms by (cases "(a, p)" rule: proc_select.cases) (auto dest: good_table intro!: exI [of _ "_ :: int list"])

lemma sound_step:
  assumes "sound p" "expected ev p" "proc_step clk port ev p = Some r" "\<nexists>d. p = Begun d"
  shows "res_ok {SignedOverflow} sound r"
  using assms sound_tick [OF assms(1), of clk port r] sound_listen [OF assms(1)] sound_select [OF assms(1)]
    sound_signal [OF assms(1), of _ r "{SignedOverflow}"]
  by (cases ev) auto

lemma begun_step:
  assumes "proc_step clk port ev (Begun d) = Some r"
  shows "res_ok {OutOfBounds} sound r"
proof (cases ev)
  case Tick
  have "res_ok {OutOfBounds} sound (bindR (db_create clk) (\<lambda>db. bindR (persist_load clk db d dump_name) (\<lambda>(db1, r). Inr (Loaded db1 d))))"
    by (rule res_ok_bind [OF db_create_ok], rule res_ok_bind [OF load_ok]) auto
  with assms Tick show ?thesis by auto
qed (use assms in auto)

text \<open>C7: from the start of \<open>main\<close> on, whatever file is on the disk, with well-formed requests in pieces of any size and with
  SIGINT and SIGTERM between any two steps up to \<open>server_destroy\<close>, the invariant of every place holds and no step
  faults, but for a string length of 2^32-1 in the dump and the signed overflow of an integer command. A
  signal between \<open>server_destroy\<close> and the end uses the freed server.\<close>

theorem process_safe_under_signals:
  assumes "proc_reaches expected port d p"
  shows "sound p \<and>
    (\<forall>clk ev r. expected ev p \<and> proc_step clk port ev p = Some r \<longrightarrow>
       res_ok (if \<exists>d'. p = Begun d' then {OutOfBounds} else {SignedOverflow}) sound r) \<and>
    (\<forall>clk db d' env. p = Destroyed db d' \<longrightarrow> proc_step clk port (Signal env) p = Some (Inl DanglingDeref))"
proof -
  have "sound p" using assms
  proof (induction rule: proc_reaches.induct)
    case (step p ev clk q)
    then show ?case using sound_step [OF step.IH step.hyps(2,3)] begun_step [of clk port ev _ "Inr q"] by (cases "\<exists>d. p = Begun d") auto
  qed simp
  with sound_step [of p] begun_step show ?thesis by auto
qed

theorem process_safe_under_signals_witness:
  "proc_reaches expected 6399 Map.empty (AtLoop started) \<and> sound (AtLoop started)"
proof -
  have "proc_reaches expected 6399 Map.empty (AtLoop started)"
    by (rule run_reaches [OF run_start proc_reaches.begun])
       (auto simp: sample_listen_def fd_ok_def FD_SETSIZE_def)
  with process_safe_under_signals [OF this] show ?thesis by blast
qed

end
