(* ===== verification/Command_Frame.thy ===== *)
theory Command_Frame
  imports Command
begin

text \<open>
  What commands leave alone: only SAVE and SHUTDOWN touch the disk, only SHUTDOWN the running flag, and it only
  clears it.
\<close>

named_theorems frame_intros \<open>operations that leave the disk and the running flag alone\<close>

definition same_rest :: "world \<Rightarrow> world \<Rightarrow> bool" where
  "same_rest w w' \<longleftrightarrow> w_disk w' = w_disk w \<and> w_running w' = w_running w"

lemma same_rest_simps [simp]: "same_rest w w" "same_rest w (w1\<lparr>w_db := db\<rparr>) = same_rest w w1"
  by (simp_all add: same_rest_def)

text \<open>An operation on the world \<open>w\<close> that returns a world, or a world and something else.\<close>

abbreviation keeps :: "world \<Rightarrow> world res \<Rightarrow> bool" where
  "keeps w \<equiv> res_ok UNIV (same_rest w)"

abbreviation frames :: "world \<Rightarrow> (world \<times> 'a) res \<Rightarrow> bool" where
  "frames w \<equiv> res_ok UNIV (\<lambda>r. same_rest w (fst r))"

lemma res_ok_on_db [frame_intros]:
  "same_rest w w1 \<Longrightarrow> (\<And>w2 x. same_rest w w2 \<Longrightarrow> res_ok UNIV Q (k w2 x)) \<Longrightarrow> res_ok UNIV Q (on_db w1 f k)"
  by (cases "f (w_db w1)") (auto simp: on_db_def)

lemma res_ok_any_bind: "(\<And>x. m = Inr x \<Longrightarrow> res_ok UNIV Q (f x)) \<Longrightarrow> res_ok UNIV Q (bindR m f)"
  by (cases m) auto

lemma frames_reply [frame_intros]: "same_rest w w1 \<Longrightarrow> frames w (reply_with w1 m)"
  by (cases m) (auto simp: reply_with_def)

section \<open>Loops\<close>

lemma set_options_frame: "same_rest w0 w \<Longrightarrow> keeps w0 (set_options clk w cmd i)"
proof (induction clk w cmd i rule: set_options.induct)
  case (1 clk w cmd i)
  let ?m = "case get_arg cmd i of None \<Rightarrow> Inr w | Some opt \<Rightarrow>
      (case get_arg cmd (i + 1) of None \<Rightarrow> Inr w | Some optval \<Rightarrow>
        if imdb_strcasecmp opt ''EX'' = 0
        then let secs = strtoll_val optval in
             if secs > 0 then on_db w (\<lambda>db. db_expire clk db (get_arg cmd 1) secs) (\<lambda>w1 r. Inr w1) else Inr w
        else Inr w)"
  have m: "keeps w0 ?m"
    using 1(2) by (auto simp: Let_def split: option.split intro!: frame_intros)
  have "keeps w0 (bindR ?m (\<lambda>w1. set_options clk w1 cmd (i + 2)))" if "i + 1 < arg_count cmd"
  proof (rule res_ok_any_bind)
    fix w1 assume w1: "?m = Inr w1"
    with m have "same_rest w0 w1" by simp
    then show "keeps w0 (set_options clk w1 cmd (i + 2))" by (rule 1(1) [OF that w1])
  qed
  with 1(2) show ?case
    by (subst set_options.simps) (simp only: prod.case res_ok_simps split: if_split, blast)
qed

lemma del_loop_frame: "same_rest w0 w \<Longrightarrow> frames w0 (del_loop clk w cmd i n)"
proof (induction clk w cmd i n rule: del_loop.induct)
  case (1 clk w cmd i n)
  show ?case by (subst del_loop.simps) (auto simp del: One_nat_def add_2_eq_Suc' intro!: frame_intros 1)
qed

lemma mset_loop_frame: "same_rest w0 w \<Longrightarrow> keeps w0 (mset_loop w cmd i)"
proof (induction w cmd i rule: mset_loop.induct)
  case (1 w cmd i)
  show ?case by (subst mset_loop.simps) (auto simp del: One_nat_def add_2_eq_Suc' intro!: frame_intros 1)
qed

lemma mget_loop_frame: "same_rest w0 w \<Longrightarrow> frames w0 (mget_loop clk w cmd i rb)"
proof (induction clk w cmd i rb rule: mget_loop.induct)
  case (1 clk w cmd i rb)
  show ?case by (subst mget_loop.simps) (auto simp del: One_nat_def intro!: frame_intros res_ok_any_bind 1)
qed

lemma push_loop_frame: "same_rest w0 w \<Longrightarrow> frames w0 (push_loop push w cmd i r)"
proof (induction push w cmd i r rule: push_loop.induct)
  case (1 push w cmd i r)
  show ?case by (subst push_loop.simps) (auto simp del: One_nat_def add_2_eq_Suc' intro!: frame_intros 1)
qed

section \<open>Handlers\<close>

lemma frame_loops:
  "same_rest w0 w \<Longrightarrow> set_options clk w cmd i = Inr w1 \<Longrightarrow> same_rest w0 w1"
  "del_loop clk w cmd i n = Inr (w1, x) \<Longrightarrow> same_rest w w1"
  "mset_loop w cmd i = Inr w1 \<Longrightarrow> same_rest w w1"
  "push_loop push w cmd i r = Inr (w1, y) \<Longrightarrow> same_rest w w1"
  using set_options_frame [of w0 w clk cmd i] del_loop_frame [of w w clk cmd i n] mset_loop_frame [of w w cmd i]
    push_loop_frame [of w w push cmd i r] by auto

lemma handlers_frame:
  "frames w (cmd_ping clk env w cmd rb)" "frames w (cmd_set clk env w cmd rb)" "frames w (cmd_get clk env w cmd rb)"
  "frames w (cmd_del clk env w cmd rb)" "frames w (cmd_exists clk env w cmd rb)" "frames w (cmd_incr clk env w cmd rb)"
  "frames w (cmd_decr clk env w cmd rb)" "frames w (cmd_mset clk env w cmd rb)" "frames w (cmd_mget clk env w cmd rb)"
  "frames w (cmd_lpush clk env w cmd rb)" "frames w (cmd_rpush clk env w cmd rb)" "frames w (cmd_lpop clk env w cmd rb)"
  "frames w (cmd_rpop clk env w cmd rb)" "frames w (cmd_llen clk env w cmd rb)" "frames w (cmd_lrange clk env w cmd rb)"
  "frames w (cmd_expire clk env w cmd rb)" "frames w (cmd_ttl clk env w cmd rb)" "frames w (cmd_persist clk env w cmd rb)"
  "frames w (cmd_dbsize clk env w cmd rb)" "frames w (cmd_flushdb clk env w cmd rb)" "frames w (cmd_info clk env w cmd rb)"
  by (auto simp: cmd_ping_def cmd_set_def cmd_get_def cmd_del_def cmd_exists_def cmd_incr_def cmd_decr_def incr_by_def
      cmd_mset_def cmd_mget_def cmd_lpush_def cmd_rpush_def push_with_def cmd_lpop_def cmd_rpop_def pop_with_def cmd_llen_def
      cmd_lrange_def cmd_expire_def cmd_ttl_def cmd_persist_def cmd_dbsize_def cmd_flushdb_def cmd_info_def Let_def
      intro!: res_ok_on_db [of w] frames_reply mget_loop_frame res_ok_any_bind elim: frame_loops)

text \<open>What a command can do to the flag: it only clears it.\<close>

definition only_stops :: "world \<Rightarrow> world \<Rightarrow> bool" where
  "only_stops w w' \<longleftrightarrow> w_running w' = w_running w \<or> w_running w' = Some False"

lemma only_stops_refl [simp]: "only_stops w w" "same_rest w w' \<Longrightarrow> only_stops w w'"
  by (simp_all add: only_stops_def same_rest_def)

lemma only_stops_trans: "only_stops w w1 \<Longrightarrow> only_stops w1 w2 \<Longrightarrow> only_stops w w2"
  by (auto simp: only_stops_def)

lemma find_command_Some: "find_command name tab = Some h \<Longrightarrow> \<exists>n. (n, h) \<in> set tab \<and> imdb_strcasecmp name n = 0"
  by (induction name tab rule: find_command.induct) (auto split: if_splits)

lemma saving_handlers:
  "res_ok UNIV (\<lambda>r. only_stops w (fst r)) (cmd_save clk env w cmd rb)"
  "res_ok UNIV (\<lambda>r. only_stops w (fst r)) (cmd_shutdown clk env w cmd rb)"
  by (auto simp: cmd_save_def cmd_shutdown_def only_stops_def reply_with_def intro!: res_ok_any_bind)

lemma command_table_frame:
  assumes "(n, h) \<in> set command_table"
  shows "res_ok UNIV (\<lambda>r. only_stops w (fst r)) (h clk env w cmd rb)"
    and "n \<notin> {''SAVE'', ''SHUTDOWN''} \<Longrightarrow> frames w (h clk env w cmd rb)"
proof -
  have "list_all (\<lambda>(n, h). n \<in> {''SAVE'', ''SHUTDOWN''} \<or> frames w (h clk env w cmd rb)) command_table"
    by (simp only: command_table_def list.pred_inject prod.case handlers_frame insert_iff simp_thms)
  with assms have frame: "n \<in> {''SAVE'', ''SHUTDOWN''} \<or> frames w (h clk env w cmd rb)"
    by (auto simp only: list_all_iff split: prod.splits)
  then show "n \<notin> {''SAVE'', ''SHUTDOWN''} \<Longrightarrow> frames w (h clk env w cmd rb)" by blast
  have "list_all (\<lambda>(n, h). n \<in> {''SAVE'', ''SHUTDOWN''} \<longrightarrow> h = cmd_save \<or> h = cmd_shutdown) command_table"
    by (simp add: command_table_def)
  with assms have "n \<in> {''SAVE'', ''SHUTDOWN''} \<Longrightarrow> h = cmd_save \<or> h = cmd_shutdown"
    by (auto simp only: list_all_iff split: prod.splits)
  with frame saving_handlers show "res_ok UNIV (\<lambda>r. only_stops w (fst r)) (h clk env w cmd rb)"
    by (blast intro: res_ok_mono only_stops_refl(2))
qed

text \<open>The name of a request.\<close>

definition saving_name :: "resp_value \<Rightarrow> bool" where
  "saving_name cmd \<longleftrightarrow>
     (case get_arg cmd 0 of None \<Rightarrow> False | Some name \<Rightarrow> imdb_strcasecmp name ''SAVE'' = 0 \<or> imdb_strcasecmp name ''SHUTDOWN'' = 0)"

lemma command_execute_stops:
  "res_ok UNIV (\<lambda>r. only_stops w (fst r)) (command_execute clk env w p rb)"
  by (auto simp: command_execute_def reply_with_def split: option.split resp_value.split
      intro!: res_ok_any_bind dest!: find_command_Some intro: command_table_frame(1))

lemma command_execute_frame:
  assumes "\<not> saving_name cmd"
  shows "frames w (command_execute clk env w (Some cmd) rb)"
proof -
  have "frames w (h clk env w cmd rb)" if "get_arg cmd 0 = Some name" "find_command name command_table = Some h" for name h
    using find_command_Some [OF that(2)] that(1) assms command_table_frame(2) by (fastforce simp: saving_name_def)
  then show ?thesis
    by (auto simp: command_execute_def split: option.split resp_value.split intro!: frames_reply)
qed

end
