(* ===== verification/Process_Stop.thy ===== *)
theory Process_Stop
  imports Process_Props Command_Frame
begin

text \<open>
  The end of the process. A request to stop that reaches the loop - by a signal or by SHUTDOWN - ends the program after
  a bounded number of steps with at most one more answer of \<open>select\<close>; one that arrives before the loop is forgotten; and
  what clients write after the last save is acknowledged and lost.
\<close>

section \<open>The running flag\<close>

lemma process_input_stops:
  "res_ok UNIV (\<lambda>r. only_stops w (fst r)) (process_client_input clk env n w c)"
proof (induction clk env n w c rule: process_client_input.induct)
  case (1 clk env n w c)
  have "res_ok UNIV (\<lambda>r. only_stops w (fst r))
      (bindR (command_execute clk (env n) w (Some cmd) resp_buf_init) (\<lambda>(w1, reply).
       bindR (client_queue_write c (rb_data reply)) (\<lambda>c1.
       bindR (consume_input c1 consumed) (\<lambda>c2.
       process_client_input clk env (Suc n) w1 c2))))"
    if r: "c_read_len c > 0" "resp_parse (c_read_buf c) (c_read_len c) = Inr (Parsed consumed cmd)" "consumed \<noteq> 0" for consumed cmd
  proof (rule res_ok_any_bind, clarify intro!: res_ok_any_bind)
    fix w1 reply c1 c2
    assume s: "command_execute clk (env n) w (Some cmd) resp_buf_init = Inr (w1, reply)"
      "client_queue_write c (rb_data reply) = Inr c1" "consume_input c1 consumed = Inr c2"
    have "res_ok UNIV (\<lambda>r. only_stops w1 (fst r)) (process_client_input clk env (Suc n) w1 c2)"
      by (rule 1 [OF r(1,2) refl r(3) s(1) refl s(2,3)])
    moreover have "only_stops w w1" using command_execute_stops [of w clk "env n" "Some cmd" resp_buf_init] s(1) by simp
    ultimately show "res_ok UNIV (\<lambda>r. only_stops w (fst r)) (process_client_input clk env (Suc n) w1 c2)"
      by (auto elim!: res_ok_mono intro: only_stops_trans)
  qed
  then show ?case
    by (subst process_client_input.simps) (auto intro!: res_ok_any_bind split: resp_outcome.split)
qed

lemma serve_client_stops:
  assumes "serve_client clk rdy reads writes i srv = Inr srv'"
  shows "only_stops (srv_world srv) (srv_world srv')"
proof (cases "srv_clients srv ! i")
  case None
  with assms show ?thesis by (simp add: serve_client_def)
next
  case (Some c)
  have wr: "only_stops (srv_world srv) (srv_world srv2)"
    if "serve_write rdy writes i c1 srv1 = Inr srv2" "only_stops (srv_world srv) (srv_world srv1)" for c1 srv1 srv2
    using serve_write_frame [OF that(1)] that(2) by simp
  have inp: "only_stops (srv_world srv) w" if "process_client_input clk env 0 (srv_world srv) c1 = Inr (w, c2)" for env c1 w c2
    using process_input_stops [of "srv_world srv" clk env 0 c1] that by simp
  show ?thesis using assms Some
    by (auto simp: serve_client_def server_remove_client_def split: if_splits option.splits elim!: wr dest!: inp)
qed

section \<open>The bound\<close>

text \<open>The process is in the loop, or behind it; it has been asked to stop.\<close>

fun in_loop :: "process \<Rightarrow> bool" where
  "in_loop (AtLoop srv) = True"
| "in_loop (Waiting rs ws srv) = True"
| "in_loop (Accepting rdy rs ws srv) = True"
| "in_loop (Serving rdy rs ws is srv) = True"
| "in_loop (Sweeping srv) = True"
| "in_loop _ = False"

fun past_loop :: "process \<Rightarrow> bool" where
  "past_loop (Leaving is srv) = True"
| "past_loop (Returned srv) = True"
| "past_loop (Destroyed db d) = True"
| "past_loop (Exited d) = True"
| "past_loop _ = False"

definition stopping :: "process \<Rightarrow> bool" where
  "stopping p \<longleftrightarrow> past_loop p \<or> in_loop p \<and> (\<forall>srv. server_of p = Some srv \<longrightarrow> \<not> running srv)"

text \<open>How many steps, and how many answers of \<open>select\<close>, such a process can still take.\<close>

fun steps_left :: "process \<Rightarrow> nat" where
  "steps_left (Waiting rs ws srv) = 2 * MAX_CLIENTS + 8"
| "steps_left (Accepting rdy rs ws srv) = 2 * MAX_CLIENTS + 7"
| "steps_left (Serving rdy rs ws is srv) = length is + MAX_CLIENTS + 6"
| "steps_left (Sweeping srv) = MAX_CLIENTS + 5"
| "steps_left (AtLoop srv) = MAX_CLIENTS + 4"
| "steps_left (Leaving is srv) = length is + 3"
| "steps_left (Returned srv) = 2"
| "steps_left (Destroyed db d) = 1"
| "steps_left _ = 0"

fun selects_left :: "process \<Rightarrow> nat" where
  "selects_left (Waiting rs ws srv) = 1"
| "selects_left _ = 0"

fun is_signal :: "event \<Rightarrow> bool" where
  "is_signal (Signal env) = True"
| "is_signal _ = False"

fun is_select :: "event \<Rightarrow> bool" where
  "is_select (Select a) = True"
| "is_select _ = False"

abbreviation count :: "('a \<Rightarrow> bool) \<Rightarrow> 'a list \<Rightarrow> nat" where
  "count P xs \<equiv> length (filter P xs)"

lemma signal_clears: "signal_handler env w = Inr w' \<Longrightarrow> w_running w' \<noteq> Some True"
  by (auto simp: signal_handler_def split: if_splits)

lemma put_server_simps [simp]:
  "server_of p = Some srv \<Longrightarrow> server_of (put_server s p) = Some s"
  "in_loop (put_server s p) = in_loop p" "past_loop (put_server s p) = past_loop p"
  "steps_left (put_server s p) = steps_left p" "selects_left (put_server s p) = selects_left p"
  by (cases p; simp)+

lemma signal_step:
  assumes "proc_step clk port (Signal env) p = Some (Inr q)"
  shows "steps_left q = steps_left p" "selects_left q = selects_left p" "in_loop p \<or> stopping p \<Longrightarrow> stopping q"
proof -
  have "steps_left q = steps_left p \<and> selects_left q = selects_left p \<and> (in_loop p \<or> stopping p \<longrightarrow> stopping q)"
  proof (cases "server_of p")
    case (Some srv)
    with assms obtain w where w: "signal_handler env (srv_world srv) = Inr w" "q = put_server (srv\<lparr>srv_world := w\<rparr>) p" by auto
    with Some signal_clears [OF w(1)] show ?thesis by (auto simp: stopping_def running_def)
  next
    case None
    with assms show ?thesis using server_of_cases [of p] by (auto simp: stopping_def)
  qed
  then show "steps_left q = steps_left p" "selects_left q = selects_left p" "in_loop p \<or> stopping p \<Longrightarrow> stopping q" by blast+
qed

lemma not_running_kept:
  "\<not> running srv \<Longrightarrow> only_stops (srv_world srv) (srv_world srv') \<Longrightarrow> \<not> running srv'"
  by (auto simp: running_def only_stops_def)

lemma accept_world [simp]: "srv_world (server_accept a srv) = srv_world srv"
  by (simp add: server_accept_def split: option.split)

lemma stopping_tick:
  assumes "stopping p" "proc_tick clk port p = Some (Inr q)"
  shows "stopping q \<and> steps_left q < steps_left p \<and> selects_left q = 0 \<and> selects_left p = 0"
proof (cases p)
  case (Serving rdy rs ws "is" srv)
  show ?thesis
  proof (cases "is")
    case (Cons i js)
    with assms(2) Serving obtain srv1 where s: "serve_client clk rdy rs ws i srv = Inr srv1" "q = Serving rdy rs ws js srv1" by auto
    with assms(1) Serving Cons not_running_kept [OF _ serve_client_stops [OF s(1)]] show ?thesis by (auto simp: stopping_def)
  qed (use assms Serving in \<open>auto simp: stopping_def\<close>)
next
  case (Leaving "is" srv)
  with assms show ?thesis by (cases "is") (auto simp: stopping_def)
qed (use assms in \<open>auto simp: stopping_def running_def split: if_splits\<close>)

lemma stopping_select:
  assumes "stopping p" "proc_select a p = Some q"
  shows "stopping q \<and> steps_left q < steps_left p \<and> selects_left q = 0 \<and> selects_left p = 1"
  using assms by (cases "(a, p)" rule: proc_select.cases) (auto simp: stopping_def)

lemma stopping_step:
  assumes "stopping p" "proc_step clk port ev p = Some (Inr q)" "\<not> is_signal ev"
  shows "stopping q \<and> steps_left q < steps_left p \<and> selects_left q + count is_select [ev] \<le> selects_left p"
proof (cases ev)
  case Tick
  with assms stopping_tick [OF assms(1)] show ?thesis by simp
next
  case (Select a)
  with assms stopping_select [OF assms(1)] show ?thesis by auto
next
  case (Listen la)
  with assms show ?thesis by (cases p) (auto simp: stopping_def)
qed (use assms in simp)

lemma stopping_run:
  "stopping p \<Longrightarrow> proc_run clk port evs p = Some (Inr r) \<Longrightarrow>
   stopping r \<and> count (\<lambda>ev. \<not> is_signal ev) evs + steps_left r \<le> steps_left p \<and> count is_select evs + selects_left r \<le> selects_left p"
proof (induction evs arbitrary: p)
  case (Cons ev evs)
  from Cons.prems(2) obtain q where q: "proc_step clk port ev p = Some (Inr q)" "proc_run clk port evs q = Some (Inr r)"
    by (auto split: option.splits sum.splits)
  show ?case
  proof (cases "is_signal ev")
    case True
    then obtain env where "ev = Signal env" by (cases ev) auto
    with signal_step [of clk port env p q] q Cons.prems(1) Cons.IH [of q] show ?thesis by simp
  next
    case False
    with stopping_step [OF Cons.prems(1) q(1) False] Cons.IH [OF _ q(2)] show ?thesis by (auto split: if_splits)
  qed
qed simp

text \<open>A process that has been asked to stop goes on by itself, except in \<open>select\<close>.\<close>

lemma stopping_goes_on: "stopping p \<Longrightarrow> (\<exists>d. p = Exited d) \<or> (\<exists>rs ws srv. p = Waiting rs ws srv) \<or> proc_tick clk port p \<noteq> None"
  by (cases "(clk, port, p)" rule: proc_tick.cases) (auto simp: stopping_def)

fun slots_left :: "process \<Rightarrow> nat list" where
  "slots_left (Serving rdy rs ws is srv) = is"
| "slots_left (Leaving is srv) = is"
| "slots_left _ = []"

lemma slots_put [simp]: "slots_left (put_server s p) = slots_left p"
  by (cases p) simp_all

lemma step_slots:
  assumes "proc_step clk port ev p = Some (Inr q)"
  shows "length (slots_left q) \<le> max MAX_CLIENTS (length (slots_left p))"
proof (cases ev)
  case Tick
  with assms show ?thesis by (cases "(clk, port, p)" rule: proc_tick.cases) (auto split: if_splits)
next
  case (Listen la)
  with assms show ?thesis by (cases p) (auto simp: Let_def split: prod.splits if_splits)
next
  case (Select a)
  with assms show ?thesis by (cases "(a, p)" rule: proc_select.cases) auto
next
  case (Signal env)
  with assms show ?thesis by (cases "server_of p") (use server_of_cases [of p] in auto)
qed

lemma reaches_slots: "proc_reaches allowed port d p \<Longrightarrow> length (slots_left p) \<le> MAX_CLIENTS"
proof (induction rule: proc_reaches.induct)
  case (step p ev clk q)
  then show ?case using step_slots [OF step.hyps(3)] by simp
qed simp

lemma steps_left_bound: "length (slots_left p) \<le> MAX_CLIENTS \<Longrightarrow> steps_left p \<le> 2 * MAX_CLIENTS + 8"
  by (cases p) auto

section \<open>Requests to stop\<close>

text \<open>C9: a SIGINT or SIGTERM that arrives anywhere in the event loop ends the program: from then on, whatever else
  happens - further signals included -, there are at most 2 * 1024 + 8 steps and, if the process was waiting in
  \<open>select\<close>, one answer of \<open>select\<close>; and the process never gets stuck before it has left \<open>main\<close>.\<close>

theorem stop_request_ends_program:
  assumes "proc_reaches allowed port d p" "in_loop p" "proc_step clk port (Signal env) p = Some (Inr q)"
    and "proc_run clk port evs q = Some (Inr r)"
  shows "count (\<lambda>ev. \<not> is_signal ev) evs \<le> 2 * MAX_CLIENTS + 8 \<and>
    count is_select evs \<le> (if \<exists>rs ws srv. p = Waiting rs ws srv then 1 else 0) \<and>
    ((\<exists>d'. r = Exited d') \<or> (\<exists>ev. \<not> is_signal ev \<and> proc_step clk port ev r \<noteq> None))"
proof -
  note q = signal_step [OF assms(3)]
  have stop: "stopping q" using q(3) assms(2) by blast
  note run = stopping_run [OF stop assms(4)]
  have "steps_left p \<le> 2 * MAX_CLIENTS + 8" by (rule steps_left_bound [OF reaches_slots [OF assms(1)]])
  moreover have "selects_left p = (if \<exists>rs ws srv. p = Waiting rs ws srv then 1 else 0)" by (cases p) auto
  moreover have "(\<exists>d'. r = Exited d') \<or> (\<exists>ev. \<not> is_signal ev \<and> proc_step clk port ev r \<noteq> None)"
  proof -
    have "proc_step clk port (Select SelectEINTR) r \<noteq> None" if "r = Waiting rs ws srv" for rs ws srv
      using that by simp
    moreover have "proc_step clk port Tick r \<noteq> None" if "proc_tick clk port r \<noteq> None" using that by simp
    ultimately show ?thesis using stopping_goes_on [of r clk port] run by (metis is_signal.simps(2,4))
  qed
  ultimately show ?thesis using run q(1,2) by auto
qed

text \<open>It gets a signal, cannot save, and ends.\<close>

lemma run_stopped:
  obtains s where "proc_step (\<lambda>n. 0) 6399 (Signal fail_io) (AtLoop started) = Some (Inr (AtLoop s))"
    "proc_run (\<lambda>n. 0) 6399 (Tick # cleanup_events @ [Tick, Tick]) (AtLoop s) = Some (Inr (Exited Map.empty))"
proof
  let ?s = "started\<lparr>srv_world := (srv_world started)\<lparr>w_running := Some False\<rparr>\<rparr>"
  show "proc_step (\<lambda>n. 0) 6399 (Signal fail_io) (AtLoop started) = Some (Inr (AtLoop ?s))"
    by (simp add: signal_handler_def started_def persist_save_def fail_io_def Let_def)
  have "srv_world (server_cleanup ?s) = srv_world ?s"
    by (rule server_cleanup_clears) (simp add: started_def server_create_def)
  then show "proc_run (\<lambda>n. 0) 6399 (Tick # cleanup_events @ [Tick, Tick]) (AtLoop ?s) = Some (Inr (Exited Map.empty))"
    by (simp add: proc_run_append running_def) (simp add: started_def)
qed

theorem stop_request_ends_program_witness:
  "\<exists>q evs. proc_step (\<lambda>n. 0) 6399 (Signal fail_io) (AtLoop started) = Some (Inr q) \<and>
     proc_run (\<lambda>n. 0) 6399 evs q = Some (Inr (Exited Map.empty)) \<and> count (\<lambda>ev. \<not> is_signal ev) evs \<le> 2 * MAX_CLIENTS + 8"
proof -
  have r: "proc_reaches (\<lambda>_ _. True) 6399 Map.empty (AtLoop started)"
    by (rule run_reaches [OF run_start proc_reaches.begun]) simp
  obtain s where s: "proc_step (\<lambda>n. 0) 6399 (Signal fail_io) (AtLoop started) = Some (Inr (AtLoop s))"
      "proc_run (\<lambda>n. 0) 6399 (Tick # cleanup_events @ [Tick, Tick]) (AtLoop s) = Some (Inr (Exited Map.empty))"
    by (rule run_stopped)
  have "in_loop (AtLoop started)" by simp
  from conjunct1 [OF stop_request_ends_program [OF r this s]] s show ?thesis by (intro exI conjI)
qed

text \<open>A request to stop that arrives before the loop: the data is saved, and \<open>running = 1\<close> forgets the request.\<close>

lemma signal_saves:
  assumes "world_ok w" "w_running w \<noteq> None"
  obtains d' where "signal_handler env w = Inr (w\<lparr>w_disk := d', w_running := Some False\<rparr>)"
proof -
  obtain d' r where "persist_save env (w_db w) (w_disk w) dump_name = Inr (d', r)" using save_total [OF assms(1)] by blast
  then show thesis using that assms(2) by (auto simp: signal_handler_def)
qed

text \<open>The disk behind a save, and the world behind some signals.\<close>

definition disk_saved :: "io \<Rightarrow> database \<Rightarrow> disk \<Rightarrow> disk" where
  "disk_saved env db d =
     (if \<not> io_open env then d
      else if length (dump_of (db_ht db)) \<le> io_room env
      then (if io_rename env then d(tmp_name dump_name := None, dump_name \<mapsto> dump_of (db_ht db))
            else d(tmp_name dump_name := None, dump_name := None))
      else d(tmp_name dump_name := None))"

definition signalled :: "io list \<Rightarrow> world \<Rightarrow> world" where
  "signalled es w = foldl (\<lambda>w env. w\<lparr>w_disk := disk_saved env (w_db w) (w_disk w), w_running := Some False\<rparr>) w es"

lemma signalled_simps [simp]:
  "signalled [] w = w"
  "signalled (env # es) w = signalled es (w\<lparr>w_disk := disk_saved env (w_db w) (w_disk w), w_running := Some False\<rparr>)"
  "signalled es (signalled es' w) = signalled (es' @ es) w"
  by (simp_all add: signalled_def)

lemma signalled_frame [simp]:
  "w_db (signalled es w) = w_db w"
  "w_running (signalled es w) = (if es = [] then w_running w else Some False)"
  "(signalled es w)\<lparr>w_running := b\<rparr> = w\<lparr>w_disk := w_disk (signalled es w), w_running := b\<rparr>"
proof -
  show "w_db (signalled es w) = w_db w" by (induction es arbitrary: w) auto
  show "w_running (signalled es w) = (if es = [] then w_running w else Some False)" by (induction es arbitrary: w) auto
  show "(signalled es w)\<lparr>w_running := b\<rparr> = w\<lparr>w_disk := w_disk (signalled es w), w_running := b\<rparr>"
    by (induction es arbitrary: w) auto
qed

lemma signalled_last:
  assumes "es \<noteq> []"
  shows "w_disk (signalled es w) = disk_saved (last es) (w_db w) (w_disk (signalled (butlast es) w))"
proof -
  from assms obtain es' e where es: "es = es' @ [e]" by (cases es rule: rev_cases) auto
  have "w_db (signalled es' w) = w_db w" by simp
  with es show ?thesis by (simp add: signalled_def)
qed

lemma handler_saves:
  assumes "db_ok (w_db w)" "w_running w \<noteq> None"
  shows "signal_handler env w = Inr (w\<lparr>w_disk := disk_saved env (w_db w) (w_disk w), w_running := Some False\<rparr>)"
proof -
  have "tmp_name dump_name \<noteq> dump_name" by (simp add: tmp_name_def dump_name_def)
  from persist_save_bytes [OF assms(1) this, of env "w_disk w"] assms(2) show ?thesis
    by (auto simp: signal_handler_def disk_saved_def)
qed

lemma run_signals:
  shows "db_ok (w_db w) \<Longrightarrow> w_running w \<noteq> None \<Longrightarrow> proc_run clk port (map Signal es @ evs) (Created (srv\<lparr>srv_world := w\<rparr>)) =
      proc_run clk port evs (Created (srv\<lparr>srv_world := signalled es w\<rparr>))"
    and "db_ok (w_db w) \<Longrightarrow> w_running w \<noteq> None \<Longrightarrow> proc_run clk port (map Signal es @ evs) (Listening (srv\<lparr>srv_world := w\<rparr>)) =
      proc_run clk port evs (Listening (srv\<lparr>srv_world := signalled es w\<rparr>))"
    and "proc_run clk port (map Signal es @ evs) (Begun d) = proc_run clk port evs (Begun d)"
    and "proc_run clk port (map Signal es @ evs) (Loaded db d) = proc_run clk port evs (Loaded db d)"
proof -
  show "db_ok (w_db w) \<Longrightarrow> w_running w \<noteq> None \<Longrightarrow> proc_run clk port (map Signal es @ evs) (Created (srv\<lparr>srv_world := w\<rparr>)) =
      proc_run clk port evs (Created (srv\<lparr>srv_world := signalled es w\<rparr>))"
  proof (induction es arbitrary: w)
    case (Cons env es)
    have "db_ok (w_db (w\<lparr>w_disk := disk_saved env (w_db w) (w_disk w), w_running := Some False\<rparr>))"
      "w_running (w\<lparr>w_disk := disk_saved env (w_db w) (w_disk w), w_running := Some False\<rparr>) \<noteq> None" using Cons.prems by simp_all
    from Cons.IH [OF this] show ?case using handler_saves [OF Cons.prems, of env] by simp
  qed simp
  show "db_ok (w_db w) \<Longrightarrow> w_running w \<noteq> None \<Longrightarrow> proc_run clk port (map Signal es @ evs) (Listening (srv\<lparr>srv_world := w\<rparr>)) =
      proc_run clk port evs (Listening (srv\<lparr>srv_world := signalled es w\<rparr>))"
  proof (induction es arbitrary: w)
    case (Cons env es)
    have "db_ok (w_db (w\<lparr>w_disk := disk_saved env (w_db w) (w_disk w), w_running := Some False\<rparr>))"
      "w_running (w\<lparr>w_disk := disk_saved env (w_db w) (w_disk w), w_running := Some False\<rparr>) \<noteq> None" using Cons.prems by simp_all
    from Cons.IH [OF this] show ?case using handler_saves [OF Cons.prems, of env] by simp
  qed simp
  show "proc_run clk port (map Signal es @ evs) (Begun d) = proc_run clk port evs (Begun d)"
    by (induction es) simp_all
  show "proc_run clk port (map Signal es @ evs) (Loaded db d) = proc_run clk port evs (Loaded db d)"
    by (induction es) simp_all
qed

text \<open>C32: any number of signals that arrive before the event loop - before and after the load of the dump (\<open>es1\<close>, \<open>es2\<close>), between
  \<open>server_create\<close> and \<open>server_listen\<close> (\<open>es3\<close>), between that and \<open>running = 1\<close> (\<open>es4\<close>) - do not stop the program: it reaches the loop
  as without them, and goes on there. Those before \<open>server_create\<close> do nothing at all. Those behind it save the loaded data, and if the
  last of these saves finds the file system in order (the temporary file opens, the dump fits, the rename succeeds), the
  dump holds the database as it was loaded. The load does not fault and gives a well-formed database (\<open>db_ok\<close>), and
  the socket calls of \<open>server_listen\<close> succeed.\<close>

theorem early_signals_are_forgotten:
  assumes "db_create clk = Inr db0" "persist_load clk db0 d dump_name = Inr (db, r)" "db_ok db"
    and "server_listen la (server_create db d port) = (srv, 0)"
  shows "\<exists>srv1 d'. running srv1 \<and> w_db (srv_world srv1) = db \<and> w_disk (srv_world srv1) = d \<and>
    proc_run clk port [Tick, Tick, Listen la, Tick] (Begun d) = Some (Inr (AtLoop srv1)) \<and>
    proc_run clk port (map Signal es1 @ [Tick] @ map Signal es2 @ [Tick] @ map Signal es3 @ [Listen la] @ map Signal es4 @ [Tick]) (Begun d) =
      Some (Inr (AtLoop (srv1\<lparr>srv_world := (srv_world srv1)\<lparr>w_disk := d'\<rparr>\<rparr>))) \<and>
    (es3 @ es4 = [] \<longrightarrow> d' = d) \<and>
    (es3 @ es4 \<noteq> [] \<and> io_open (last (es3 @ es4)) \<and> io_rename (last (es3 @ es4)) \<and>
       length (dump_of (db_ht db)) \<le> io_room (last (es3 @ es4)) \<longrightarrow> d' dump_name = Some (dump_of (db_ht db)))"
proof -
  let ?new = "server_create db d port"
  let ?w = "srv_world ?new"
  have w: "db_ok (w_db ?w)" "w_running ?w \<noteq> None" "w_db ?w = db" "w_disk ?w = d" using assms(3) by (simp_all add: server_create_def)
  have srv: "srv = ?new\<lparr>srv_listen_fd := la_socket la\<rparr>"
    and listen: "server_listen la (?new\<lparr>srv_world := v\<rparr>) = (srv\<lparr>srv_world := v\<rparr>, 0)" for v
    using assms(4) by (auto simp: server_listen_def Let_def split: if_splits)
  let ?on = "srv\<lparr>srv_world := (srv_world srv)\<lparr>w_running := Some True\<rparr>\<rparr>"
  let ?d' = "w_disk (signalled (es3 @ es4) ?w)"
  have self: "?new\<lparr>srv_world := ?w\<rparr> = ?new" by simp
  have created: "proc_run clk port (map Signal es3 @ evs) (Created ?new) = proc_run clk port evs (Created (?new\<lparr>srv_world := signalled es3 ?w\<rparr>))" for evs
    using run_signals(1) [OF w(1,2), of clk port es3 evs ?new] unfolding self .
  have w3: "db_ok (w_db (signalled es3 ?w))" "w_running (signalled es3 ?w) \<noteq> None" using w by (simp, cases "es3 = []") simp_all
  have run: "proc_run clk port (map Signal es1 @ [Tick] @ map Signal es2 @ [Tick] @ map Signal es3 @ [Listen la] @ map Signal es4 @ [Tick]) (Begun d) =
      Some (Inr (AtLoop (?on\<lparr>srv_world := (srv_world ?on)\<lparr>w_disk := ?d'\<rparr>\<rparr>)))"
    unfolding run_signals(3)
    using assms(1,2) run_signals(4) created listen run_signals(2) [OF w3] by (simp add: srv)
  have "running ?on" "w_db (srv_world ?on) = db" "w_disk (srv_world ?on) = d" using w by (simp_all add: running_def srv)
  moreover have "proc_run clk port [Tick, Tick, Listen la, Tick] (Begun d) = Some (Inr (AtLoop ?on))"
    using assms(1,2,4) by simp
  moreover have "es3 @ es4 = [] \<longrightarrow> ?d' = d" using w by simp
  moreover have "es3 @ es4 \<noteq> [] \<and> io_open (last (es3 @ es4)) \<and> io_rename (last (es3 @ es4)) \<and>
       length (dump_of (db_ht db)) \<le> io_room (last (es3 @ es4)) \<longrightarrow> ?d' dump_name = Some (dump_of (db_ht db))"
    using signalled_last [of "es3 @ es4" ?w] w(3) by (auto simp: disk_saved_def)
  ultimately show ?thesis using run by blast
qed

theorem early_signals_are_forgotten_witness:
  "\<exists>srv1 d'. running srv1 \<and>
    proc_run (\<lambda>n. 0) 6399 [Signal fail_io, Tick, Tick, Signal fail_io, Listen sample_listen,
        Signal \<lparr>io_open = True, io_room = length (dump_of (db_ht fresh_db)), io_rename = True\<rparr>, Tick] (Begun Map.empty) =
      Some (Inr (AtLoop (srv1\<lparr>srv_world := (srv_world srv1)\<lparr>w_disk := d'\<rparr>\<rparr>))) \<and>
    d' dump_name = Some (dump_of (db_ht fresh_db))"
proof -
  let ?good = "\<lparr>io_open = True, io_room = length (dump_of (db_ht fresh_db)), io_rename = True\<rparr>"
  from early_signals_are_forgotten [OF fresh_db_facts, of "[fail_io]" "[]" "[fail_io]" "[?good]"]
  show ?thesis by simp blast
qed

section \<open>Writes behind the last save\<close>

lemma exec_all_frame:
  "exec_all clk env n w vs = Inr (w', out) \<Longrightarrow> \<forall>v \<in> set vs. \<not> saving_name v \<Longrightarrow> same_rest w w'"
proof (induction vs arbitrary: n w out)
  case (Cons v vs)
  then obtain w1 rb out2 where s: "command_execute clk (env n) w (Some v) resp_buf_init = Inr (w1, rb)"
      "exec_all clk env (Suc n) w1 vs = Inr (w', out2)" by auto
  have "same_rest w w1" using command_execute_frame [of v w clk "env n" resp_buf_init] s(1) Cons.prems(2) by simp
  moreover have "same_rest w1 w'" using Cons.IH [OF s(2)] Cons.prems(2) by simp
  ultimately show ?case by (simp add: same_rest_def)
qed simp

lemma send_whole: "length (pending c) \<le> m \<Longrightarrow> pending c \<noteq> [] \<Longrightarrow> \<exists>c'. client_send (Some m) c = Some (c', pending c)"
  by (simp add: client_send_def pending_def [symmetric] Let_def)

lemma serve_requests:
  assumes c: "srv_clients srv ! i = Some c" "fd_ok (c_fd c)" "fresh_tail c" "c_fd c \<in> set reads" "c_fd c \<in> set writes"
    and s: "rd_recv rdy (c_fd c) = Some s" "s \<noteq> []" "c_read_len c + length s < CLIENT_BUF_SIZE"
      "received c @ s = concat (map encode vs)" "list_all value_ok vs"
    and e: "exec_all clk (rd_io rdy (c_fd c)) 0 (srv_world srv) vs = Inr (w', out)"
    and m: "rd_send rdy (c_fd c) = Some m" "length (pending c @ out) \<le> m" "pending c @ out \<noteq> []"
  shows "\<exists>c'. serve_client clk rdy reads writes i srv =
    Inr (srv\<lparr>srv_world := w', srv_clients := (srv_clients srv)[i := Some c'], srv_net := srv_net srv @ [(c_fd c, pending c @ out)]\<rparr>)"
proof -
  obtain c1 c2 where c2: "client_recv (Some s) c = Some c1"
      "process_client_input clk (rd_io rdy (c_fd c)) 0 (srv_world srv) c1 = Inr (w', c2)" "pending c2 = pending c @ out" "c_fd c2 = c_fd c"
    by (rule input_served [OF c(3) s(2-5) e])
  then obtain c3 where "client_send (Some m) c2 = Some (c3, pending c @ out)"
    using send_whole [of c2 m] m by auto
  with c s(1) c2 m(1) show ?thesis
    by (intro exI [of _ c3]) (simp add: serve_client_def serve_write_def FD_ISSET_def)
qed

text \<open>C33: a signal in the middle of a round saves, but the requests of the clients that come later in the round are still
  executed, and a client that had replies pending is sent the replies to them: a write is acknowledged with OK,
  the program ends as it should, and the dump does not have the write.\<close>

theorem acknowledged_write_not_saved:
  assumes srv: "length (srv_clients srv) = MAX_CLIENTS" "world_ok (srv_world srv)" "w_running (srv_world srv) \<noteq> None"
    and c: "srv_clients srv ! i = Some c" "fd_ok (c_fd c)" "fresh_tail c" "c_fd c \<in> set reads" "c_fd c \<in> set writes"
    and s: "rd_recv rdy (c_fd c) = Some s" "s \<noteq> []" "c_read_len c + length s < CLIENT_BUF_SIZE"
      "received c @ s = concat (map encode vs)" "list_all value_ok vs" "\<forall>v \<in> set vs. \<not> saving_name v"
    and save: "signal_handler env (srv_world srv) = Inr w" "io_open env" "io_rename env" "length (dump_of (db_ht (w_db w))) \<le> io_room env"
    and e: "exec_all clk (rd_io rdy (c_fd c)) 0 w vs = Inr (w', out)" "db_expire_sweep clk (w_db w') = Inr db"
    and m: "rd_send rdy (c_fd c) = Some m" "length (pending c @ out) \<le> m" "pending c @ out \<noteq> []"
    and others: "i \<notin> set is" "\<forall>j \<in> set is. srv_clients srv ! j = None"
  shows "\<exists>evs srv2. answers evs = [] \<and> proc_run clk port (Signal env # evs) (Serving rdy reads writes (i # is) srv) = Some (Inr (Returned srv2)) \<and>
    srv_net srv2 = srv_net srv @ [(c_fd c, pending c @ out)] \<and>
    proc_run clk port (Signal env # evs @ [Tick, Tick]) (Serving rdy reads writes (i # is) srv) = Some (Inr (Exited (w_disk (srv_world srv2)))) \<and>
    w_disk (srv_world srv2) dump_name = Some (dump_of (db_ht (w_db (srv_world srv)))) \<and> w_db (srv_world srv2) = db"
proof -
  have disk: "w_db w = w_db (srv_world srv)" "w_disk w dump_name = Some (dump_of (db_ht (w_db (srv_world srv))))" "w_running w = Some False"
    using save srv(2,3) persist_save_bytes [of "w_db (srv_world srv)" dump_name env "w_disk (srv_world srv)"]
    by (auto simp: signal_handler_def dump_name_def tmp_name_def)
  note rest = exec_all_frame [OF e(1) s(6)]
  obtain c' where c': "serve_client clk rdy reads writes i (srv\<lparr>srv_world := w\<rparr>) =
      Inr (srv\<lparr>srv_world := w', srv_clients := (srv_clients srv)[i := Some c'], srv_net := srv_net srv @ [(c_fd c, pending c @ out)]\<rparr>)"
    using serve_requests [of "srv\<lparr>srv_world := w\<rparr>" i c reads writes rdy s vs clk w' out m] c s e(1) m by auto
  let ?srv1 = "srv\<lparr>srv_world := w', srv_clients := (srv_clients srv)[i := Some c'], srv_net := srv_net srv @ [(c_fd c, pending c @ out)]\<rparr>"
  have "serve_clients clk rdy reads writes is ?srv1 = Inr ?srv1"
    using others by (intro serve_empty_slots) (simp, metis nth_list_update_neq)
  with c' have slots: "proc_run clk port (replicate (Suc (length (i # is))) Tick) (Serving rdy reads writes (i # is) (srv\<lparr>srv_world := w\<rparr>)) =
      Some (Inr (Sweeping ?srv1))"
    unfolding run_slots by simp
  let ?srv2 = "?srv1\<lparr>srv_world := w'\<lparr>w_db := db\<rparr>\<rparr>"
  have sweep: "proc_run clk port [Tick, Tick] (Sweeping ?srv1) = Some (Inr (Leaving [0..<MAX_CLIENTS] ?srv2))"
    using e(2) rest disk(3) by (simp add: running_def same_rest_def)
  define evs where "evs = replicate (Suc (length (i # is))) Tick @ [Tick, Tick] @ cleanup_events"
  have evs: "proc_run clk port evs (Serving rdy reads writes (i # is) (srv\<lparr>srv_world := w\<rparr>)) = Some (Inr (Returned (server_cleanup ?srv2)))"
    unfolding evs_def proc_run_append slots sweep option.case sum.case by simp
  have clean: "srv_net (server_cleanup ?srv2) = srv_net ?srv2" "srv_world (server_cleanup ?srv2) = srv_world ?srv2"
    by (rule server_cleanup_clears, use srv(1) in simp)+
  have signal: "proc_step clk port (Signal env) (Serving rdy reads writes (i # is) srv) = Some (Inr (Serving rdy reads writes (i # is) (srv\<lparr>srv_world := w\<rparr>)))"
    using save(1) by simp
  have "answers evs = []" by (simp add: evs_def)
  moreover have "proc_run clk port (Signal env # evs) (Serving rdy reads writes (i # is) srv) = Some (Inr (Returned (server_cleanup ?srv2)))"
    using evs signal by simp
  moreover have "proc_run clk port (Signal env # evs @ [Tick, Tick]) (Serving rdy reads writes (i # is) srv) =
      Some (Inr (Exited (w_disk (srv_world (server_cleanup ?srv2)))))"
    using evs signal by (simp add: proc_run_append)
  ultimately show ?thesis using clean rest disk(2)
    by (intro exI [of _ evs] exI [of _ "server_cleanup ?srv2"]) (simp add: same_rest_def)
qed

text \<open>A client with a reply pending sends SET a 5.\<close>

definition busy_client :: client where
  "busy_client = (client_create 4)\<lparr>c_write_buf := ''x''\<rparr>"

definition busy_server :: server where
  "busy_server = sample_server\<lparr>srv_clients := Some busy_client # replicate 1023 None\<rparr>"

abbreviation set_a_5 :: resp_value where
  "set_a_5 \<equiv> request [''SET'', ''a'', ''5'']"

definition set_round :: ready where
  "set_round = \<lparr>rd_read = [4], rd_write = [4], rd_accept = None, rd_recv = (\<lambda>fd. Some (encode set_a_5)),
     rd_send = (\<lambda>fd. Some 100), rd_io = (\<lambda>fd n. fail_io)\<rparr>"

definition db_a :: database where
  "db_a = empty_db\<lparr>db_ht := fill_slot (empty_table 64) 44 ''a'' \<lparr>obj = obj_of_value (Some ''5''), expire = -1\<rparr>\<rparr>"

lemma exec_set_a:
  assumes "w_db w = empty_db"
  shows "exec_all clk (\<lambda>n. e) 0 w [set_a_5] = Inr (w\<lparr>w_db := db_a\<rparr>, ''+OK'' @ CRLF)"
proof -
  have known: "(''SET'', cmd_set) \<in> set command_table" "cstr_ok ''SET''" by (simp_all add: command_table_def cstr_ok_def NUL_def)
  obtain rb where rb: "resp_write_simple_string resp_buf_init ''OK'' = Inr rb" "rb_data rb = ''+OK'' @ CRLF"
    using writer_replies(1) [OF rb_ok_init(1), of "''OK''"] by (auto simp: appends_def)
  have "db_set empty_db (Some ''a'') (Some ''5'') = Inr (db_a, 1)"
    by (simp add: db_set_def ht_put_def empty_db_def set_a db_a_def)
  with rb show ?thesis using assms
    by (simp add: request_def execute_known [OF known refl] cmd_set_def arg_count_def get_arg_def on_db_def set_options.simps reply_with_def)
qed

lemma sweep_a:
  obtains db where "db_expire_sweep (\<lambda>n. 0) db_a = Inr db" "db_ht db = db_ht db_a"
proof -
  have "last_expire_sweep db_a = 0" by (simp add: db_a_def empty_db_def)
  then have "\<exists>db. db_expire_sweep (\<lambda>n. 0) db_a = Inr db \<and> db_ht db = db_ht db_a"
    by (simp add: db_expire_sweep_def imdb_mstime_def int64_def in_int64_def INT64_MIN_def INT64_MAX_def EXPIRE_SWEEP_INTERVAL_def)
  with that show thesis by blast
qed

lemma busy_client_facts:
  "fresh_tail busy_client" "pending busy_client = ''x''" "received busy_client = []" "c_fd busy_client = 4" "c_read_len busy_client = 0"
  using fresh_create [of 4]
  by (simp_all add: busy_client_def client_create_def fresh_tail_def conn_ok_def pending_def received_def)

lemma busy_server_facts:
  "length (srv_clients busy_server) = MAX_CLIENTS" "srv_world busy_server = sample_world" "srv_clients busy_server ! 0 = Some busy_client"
  "srv_net busy_server = []" "\<forall>j \<in> set [1..<MAX_CLIENTS]. srv_clients busy_server ! j = None"
  by (auto simp: busy_server_def sample_server_def MAX_CLIENTS_def nth_Cons split: nat.split)

lemma set_request:
  "encode set_a_5 \<noteq> []" "length (encode set_a_5) < CLIENT_BUF_SIZE" "\<not> saving_name set_a_5"
proof -
  show "encode set_a_5 \<noteq> []" by (rule encode_nonempty)
  show "length (encode set_a_5) < CLIENT_BUF_SIZE" unfolding sample_wire by (simp add: CLIENT_BUF_SIZE_def)
  show "\<not> saving_name set_a_5" by (simp add: saving_name_def request_def get_arg_def) code_simp
qed

theorem acknowledged_write_not_saved_witness:
  "\<exists>evs srv2 env. answers evs = [] \<and>
    proc_run (\<lambda>n. 0) 6399 (Signal env # evs) (Serving set_round [4] [4] (0 # [1..<MAX_CLIENTS]) busy_server) = Some (Inr (Returned srv2)) \<and>
    srv_net srv2 = [(4, ''x'' @ ''+OK'' @ CRLF)] \<and> w_disk (srv_world srv2) dump_name = Some (dump_of (empty_table 64)) \<and>
    db_ht (w_db (srv_world srv2)) = db_ht db_a"
proof -
  define env where "env = \<lparr>io_open = True, io_room = length (dump_of (empty_table 64)), io_rename = True\<rparr>"
  have env: "io_open env" "io_rename env" "length (dump_of (empty_table 64)) \<le> io_room env" by (simp_all add: env_def)
  have w: "world_ok sample_world" "w_running sample_world \<noteq> None" "db_ht (w_db sample_world) = empty_table 64" "w_db sample_world = empty_db"
    using sample_world_ok by (simp_all add: sample_world_def empty_db_def)
  obtain d' where d': "signal_handler env sample_world = Inr (sample_world\<lparr>w_disk := d', w_running := Some False\<rparr>)"
    by (rule signal_saves [OF w(1,2)])
  let ?w = "sample_world\<lparr>w_disk := d', w_running := Some False\<rparr>"
  have e: "exec_all (\<lambda>n. 0) (\<lambda>n. fail_io) 0 ?w [set_a_5] = Inr (?w\<lparr>w_db := db_a\<rparr>, ''+OK'' @ CRLF)"
    by (rule exec_set_a) (simp add: w)
  obtain db where db: "db_expire_sweep (\<lambda>n. 0) db_a = Inr db" "db_ht db = db_ht db_a" by (rule sweep_a)
  have rdy: "rd_recv set_round 4 = Some (encode set_a_5)" "rd_send set_round 4 = Some 100" "rd_io set_round 4 = (\<lambda>n. fail_io)"
    by (simp_all add: set_round_def)
  have wire: "received busy_client @ encode set_a_5 = concat (map encode [set_a_5])"
    unfolding busy_client_facts list.map concat.simps by (simp only: append_Nil append_Nil2)
  have "fd_ok 4" by (simp add: fd_ok_def FD_SETSIZE_def)
  from acknowledged_write_not_saved [of busy_server 0 busy_client "[4]" "[4]" set_round "encode set_a_5" "[set_a_5]" env ?w "\<lambda>n. 0"
        "?w\<lparr>w_db := db_a\<rparr>" "''+OK'' @ CRLF" db 100 "[1..<MAX_CLIENTS]" 6399] this
  show ?thesis
    unfolding busy_server_facts busy_client_facts rdy
    using w env d' e db set_request wire busy_server_facts(5) sample_wire(1)
    by (simp add: busy_client_facts del: encode.simps value_ok.simps proc_run.simps) blast
qed

end
