(* ===== verification/Duplicate_Keys.thy ===== *)
theory Duplicate_Keys
  imports Persist_Props Command
begin

text \<open>
  A key stored twice. \<open>ht_set\<close> fills the first tombstone it meets without looking whether the key is stored
  further on (\<open>hashtable.c\<close>, line 72), so a SET of a key behind a deleted neighbour leaves its old entry in the
  table. This theory follows five commands to what the dump file and the sweep make of that.
\<close>

section \<open>Tables with two slots in use\<close>

text \<open>The keys "!" and "a" both have home slot 44 of 64.\<close>

definition two_slots :: "'v ht_entry \<Rightarrow> 'v ht_entry \<Rightarrow> nat \<Rightarrow> nat \<Rightarrow> 'v hashtable" where
  "two_slots x y n t = \<lparr>entries = replicate 44 HtEmpty @ x # y # replicate 18 HtEmpty, capacity = 64, size_of = n, tombstones = t\<rparr>"

abbreviation slot :: "string \<Rightarrow> 'v \<Rightarrow> 'v ht_entry" where
  "slot k e \<equiv> HtOccupied k (ht_hash k) e"

lemma two_slots_empty: "empty_table 64 = two_slots HtEmpty HtEmpty 0 0"
  unfolding empty_table_def two_slots_def
  by (simp only: hashtable.simps replicate_Suc [symmetric] replicate_add [symmetric]) simp

lemmas two_eval = ht_eval two_slots_def nth_append list_update_append set_entry_value_def

lemma two_set:
  "ht_set (two_slots HtEmpty HtEmpty 0 0) ''!'' e = Some (two_slots (slot ''!'' e) HtEmpty 1 0, 1)"
  "ht_set (two_slots HtEmpty HtEmpty 0 0) ''a'' e = Some (two_slots (slot ''a'' e) HtEmpty 1 0, 1)"
  "ht_set (two_slots (slot ''!'' e) HtEmpty 1 0) ''a'' f = Some (two_slots (slot ''!'' e) (slot ''a'' f) 2 0, 1)"
  "ht_set (two_slots (slot ''a'' e) HtEmpty 1 0) ''a'' f = Some (two_slots (slot ''a'' f) HtEmpty 1 0, 0)"
  "ht_set (two_slots HtTombstone (slot ''a'' e) 1 1) ''a'' f = Some (two_slots (slot ''a'' f) (slot ''a'' e) 2 0, 1)"
  by (simp_all add: two_eval)

lemma two_find:
  "ht_find (two_slots (slot ''!'' e) (slot ''a'' f) n t) ''a'' = Some (Some 45)"
  "ht_find (two_slots (slot ''!'' e) y n t) ''!'' = Some (Some 44)"
  "ht_find (two_slots (slot ''a'' e) y n t) ''a'' = Some (Some 44)"
  "ht_find (two_slots HtTombstone (slot ''a'' e) n t) ''a'' = Some (Some 45)"
  "ht_find (two_slots HtTombstone HtTombstone n t) ''a'' = Some None"
  by (simp_all add: two_eval)

lemma two_delete:
  "ht_delete (two_slots (slot ''!'' e) y 2 0) ''!'' = Some (two_slots HtTombstone y 1 1, 1)"
  "ht_delete (two_slots (slot ''a'' e) y 2 0) ''a'' = Some (two_slots HtTombstone y 1 1, 1)"
  "ht_delete (two_slots HtTombstone (slot ''a'' e) 1 1) ''a'' = Some (two_slots HtTombstone HtTombstone 0 2, 1)"
  by (simp_all add: two_eval)

lemma two_values:
  "entry_value (two_slots (slot k e) y n t) 44 = Some e"
  "entry_value (two_slots x (slot k e) n t) 45 = Some e"
  "set_entry_value (two_slots x (slot k e) n t) 45 f = two_slots x (slot k f) n t"
  by (simp_all add: entry_value_def set_entry_value_def two_slots_def nth_append list_update_append)

lemma two_iter:
  "ht_iter_next (two_slots (slot k e) y n t) 0 = (45, Some 44)"
  "ht_iter_next (two_slots HtTombstone (slot k e) n t) 0 = (46, Some 45)"
  "ht_iter_next (two_slots x (slot k e) n t) 45 = (46, Some 45)"
  "ht_iter_next (two_slots x y n t) 46 = (64, None)"
  "ht_iter_next (two_slots HtTombstone HtTombstone n t) 0 = (64, None)"
  by (simp_all add: ht_iter_next.simps two_slots_def nth_append)

lemma two_entries:
  "entries (two_slots x y n t) ! 44 = x" "entries (two_slots x y n t) ! 45 = y"
  by (simp_all add: two_slots_def nth_append)

lemma two_pairs: "pairs_from (two_slots (slot k e) (slot l f) n t) 0 = [(k, e), (l, f)]"
proof -
  let ?t = "two_slots (slot k e) (slot l f) n t"
  have "pairs_from ?t 46 = []" using pairs_from_next [of ?t 46] by (simp add: two_iter)
  then have "pairs_from ?t 45 = [(l, f)]" using pairs_from_next [of ?t 45] by (simp add: two_iter two_entries)
  then show ?thesis using pairs_from_next [of ?t 0] by (simp add: two_iter two_entries)
qed

section \<open>Five commands\<close>

definition two_db :: "db_entry ht_entry \<Rightarrow> db_entry ht_entry \<Rightarrow> nat \<Rightarrow> nat \<Rightarrow> nat \<Rightarrow> database" where
  "two_db x y n t ticks = \<lparr>db_ht = two_slots x y n t, last_expire_sweep = 0, db_ticks = ticks\<rparr>"

definition str_entry :: "string \<Rightarrow> int \<Rightarrow> db_entry" where
  "str_entry s at = \<lparr>obj = OBJ_STRING (Some s), expire = at\<rparr>"

lemma two_db_simps [simp]:
  "db_ht (two_db x y n t ticks) = two_slots x y n t" "last_expire_sweep (two_db x y n t ticks) = 0"
  "db_ticks (two_db x y n t ticks) = ticks" "(two_db x y n t ticks)\<lparr>db_ht := two_slots x' y' n' t'\<rparr> = two_db x' y' n' t' ticks"
  "(two_db x y n t ticks)\<lparr>db_ticks := ticks'\<rparr> = two_db x y n t ticks'"
  "obj (str_entry s at) = OBJ_STRING (Some s)" "expire (str_entry s at) = at" "(str_entry s at)\<lparr>expire := at'\<rparr> = str_entry s at'"
  "empty_db = two_db HtEmpty HtEmpty 0 0 0"
  by (simp_all add: two_db_def str_entry_def empty_db_def two_slots_empty)

lemma word_values:
  "obj_of_value (Some ''x'') = OBJ_STRING (Some ''x'')" "obj_of_value (Some ''old'') = OBJ_STRING (Some ''old'')"
  "obj_of_value (Some ''new'') = OBJ_STRING (Some ''new'')"
  by (simp_all add: obj_of_value_def obj_create_string_def imdb_strdup_def obj_try_parse_int_def strtoll_def split_sign_def
      c_isspace_def c_isdigit_def digits_val_def)

lemma five_commands:
  defines "old \<equiv> str_entry ''old'' 100000" and "new \<equiv> str_entry ''new'' (-1)"
  shows "db_set empty_db (Some ''!'') (Some ''x'') = Inr (two_db (slot ''!'' (str_entry ''x'' (-1))) HtEmpty 1 0 0, 1)"
    and "db_set (two_db (slot ''!'' (str_entry ''x'' (-1))) HtEmpty 1 0 0) (Some ''a'') (Some ''old'') =
      Inr (two_db (slot ''!'' (str_entry ''x'' (-1))) (slot ''a'' (str_entry ''old'' (-1))) 2 0 0, 1)"
    and "db_expire (\<lambda>n. 0) (two_db (slot ''!'' (str_entry ''x'' (-1))) (slot ''a'' (str_entry ''old'' (-1))) 2 0 0) (Some ''a'') 100 =
      Inr (two_db (slot ''!'' (str_entry ''x'' (-1))) (slot ''a'' old) 2 0 1, 1)"
    and "db_del (\<lambda>n. 0) (two_db (slot ''!'' (str_entry ''x'' (-1))) (slot ''a'' old) 2 0 1) (Some ''!'') =
      Inr (two_db HtTombstone (slot ''a'' old) 1 1 1, 1)"
    and "db_set (two_db HtTombstone (slot ''a'' old) 1 1 1) (Some ''a'') (Some ''new'') = Inr (two_db (slot ''a'' new) (slot ''a'' old) 2 0 1, 1)"
    and "db_get (\<lambda>n. 0) (two_db (slot ''a'' new) (slot ''a'' old) 2 0 1) (Some ''a'') =
      Inr (two_db (slot ''a'' new) (slot ''a'' old) 2 0 1, Some (OBJ_STRING (Some ''new'')))"
proof -
  note db_ops = db_set_def db_del_def db_get_def db_get_entry_def check_expired_def ht_get_entry_def entry_ptr_def entry_at_def
    ht_put_def ht_remove_def Let_def word_values str_entry_def [symmetric] two_find two_values two_set two_delete
  show "db_set empty_db (Some ''!'') (Some ''x'') = Inr (two_db (slot ''!'' (str_entry ''x'' (-1))) HtEmpty 1 0 0, 1)"
    "db_set (two_db (slot ''!'' (str_entry ''x'' (-1))) HtEmpty 1 0 0) (Some ''a'') (Some ''old'') =
      Inr (two_db (slot ''!'' (str_entry ''x'' (-1))) (slot ''a'' (str_entry ''old'' (-1))) 2 0 0, 1)"
    "db_set (two_db HtTombstone (slot ''a'' old) 1 1 1) (Some ''a'') (Some ''new'') = Inr (two_db (slot ''a'' new) (slot ''a'' old) 2 0 1, 1)"
    "db_del (\<lambda>n. 0) (two_db (slot ''!'' (str_entry ''x'' (-1))) (slot ''a'' old) 2 0 1) (Some ''!'') =
      Inr (two_db HtTombstone (slot ''a'' old) 1 1 1, 1)"
    "db_get (\<lambda>n. 0) (two_db (slot ''a'' new) (slot ''a'' old) 2 0 1) (Some ''a'') =
      Inr (two_db (slot ''a'' new) (slot ''a'' old) 2 0 1, Some (OBJ_STRING (Some ''new'')))"
    by (simp_all add: db_ops old_def new_def del: One_nat_def)
  show "db_expire (\<lambda>n. 0) (two_db (slot ''!'' (str_entry ''x'' (-1))) (slot ''a'' (str_entry ''old'' (-1))) 2 0 0) (Some ''a'') 100 =
      Inr (two_db (slot ''!'' (str_entry ''x'' (-1))) (slot ''a'' old) 2 0 1, 1)"
    by (simp add: db_expire_def db_ops old_def write_entry_def imdb_mstime_def int64_def in_int64_def INT64_MIN_def
        INT64_MAX_def One_nat_def [symmetric] del: One_nat_def)
qed

section \<open>What becomes of them\<close>

lemma two_db_ok: "db_ok (two_db (slot ''a'' (str_entry ''new'' (-1))) (slot ''a'' (str_entry ''old'' 100000)) 2 0 1)"
proof -
  note five = five_commands
  have c: "cstr_ok ''!''" "cstr_ok ''a''" "cstr_ok ''x''" "cstr_ok ''old''" "cstr_ok ''new''" by (simp_all add: cstr_ok_def NUL_def)
  have "db_ok empty_db" using wf_empty_table [OF table_cap_64] by (simp add: db_ok_def ht_all_def two_slots_empty [symmetric])
  with db_set_ok [of empty_db "''!''" "''x''"] five(1) c have "db_ok (two_db (slot ''!'' (str_entry ''x'' (-1))) HtEmpty 1 0 0)" by simp
  from db_set_ok [OF this c(2,4)] five(2)
  have "db_ok (two_db (slot ''!'' (str_entry ''x'' (-1))) (slot ''a'' (str_entry ''old'' (-1))) 2 0 0)" by simp
  from db_expire_ok [OF this, of "\<lambda>n. 0" "''a''" 100] five(3)
  have "db_ok (two_db (slot ''!'' (str_entry ''x'' (-1))) (slot ''a'' (str_entry ''old'' 100000)) 2 0 1)" by simp
  from db_del_ok [OF this, of "{}" "\<lambda>n. 0" "''!''"] five(4) have "db_ok (two_db HtTombstone (slot ''a'' (str_entry ''old'' 100000)) 1 1 1)" by simp
  from db_set_ok [OF this c(2,5)] five(5) show ?thesis by simp
qed

lemma load_duplicates:
  "load_entries (\<lambda>n. 0) empty_db (concat (map enc_entry [(''a'', str_entry ''new'' (-1)), (''a'', str_entry ''old'' 100000)]) @ [char_of RDB_EOF]) 0 =
    Inr (two_db (slot ''a'' (str_entry ''old'' 100000)) HtEmpty 1 0 1, 2)"
proof -
  have fits: "entry_fits (''a'', str_entry ''new'' (-1))" "entry_fits (''a'', str_entry ''old'' 100000)"
    by (simp_all add: entry_fits_def str_fits_def cstr_ok_def NUL_def in_int64_def INT64_MIN_def INT64_MAX_def)
  show ?thesis
    by (simp add: load_entries_step [OF fits(1)] load_entries_step [OF fits(2)] live_def db_now_def ht_put_def two_set load_entries.simps
        RDB_EOF_def del: One_nat_def)
qed

lemma sweep_duplicates:
  "db_expire_sweep (\<lambda>n. 200000) (two_db (slot ''a'' (str_entry ''new'' (-1))) (slot ''a'' (str_entry ''old'' 100000)) 2 0 1) =
    Inr ((two_db HtTombstone HtTombstone 0 2 2)\<lparr>last_expire_sweep := 200000\<rparr>)"
proof -
  define swept where "swept x y n t = (two_db x y n t 2)\<lparr>last_expire_sweep := 200000\<rparr>" for x y n t
  have swept: "db_ht (swept x y n t) = two_slots x y n t" "(swept x y n t)\<lparr>db_ht := two_slots x' y' n' t'\<rparr> = swept x' y' n' t'" for x y n t x' y' n' t'
    by (simp_all add: swept_def two_db_def)
  have rm: "ht_remove (swept (slot ''a'' e) y 2 0) ''a'' = Inr (swept HtTombstone y 1 1, 1)"
    "ht_remove (swept HtTombstone (slot ''a'' e) 1 1) ''a'' = Inr (swept HtTombstone HtTombstone 0 2, 1)" for e y
    by (simp_all add: ht_remove_def swept two_delete del: One_nat_def)
  have loop: "sweep_loop (Suc (Suc (Suc (Suc n)))) 200000 (swept (slot ''a'' (str_entry ''new'' (-1))) (slot ''a'' (str_entry ''old'' 100000)) 2 0) 0 =
      Inr (swept HtTombstone HtTombstone 0 2)" for n
    by (simp add: swept two_iter two_entries rm del: One_nat_def)
  have size: "ht_size (two_slots x y n t) = n" for x y :: "db_entry ht_entry" and n t by (simp add: ht_size_def two_slots_def)
  show ?thesis
    using loop [of 16] by (simp add: db_expire_sweep_def imdb_mstime_def int64_def in_int64_def INT64_MIN_def INT64_MAX_def
        EXPIRE_SWEEP_INTERVAL_def EXPIRE_SWEEP_SAMPLES_def Let_def swept_def two_db_def size numeral_2_eq_2)
qed

text \<open>C36: a SET of a key behind a deleted neighbour leaves the old entry of the key in the table, and it comes
  back. After SET ! x, SET a old, EXPIRE a 100, DEL !, SET a new, the key "a" answers "new" and has no expiry time. But
  the dump file that a save writes then, loaded into an empty database, makes "a" answer "old"; and the sweep that
  runs when the 100 seconds are over finds the old entry expired and deletes by key, which hits the new
  entry first: "a" is gone.\<close>

theorem duplicate_key_failures:
  "\<exists>db1 db2 db3 db4 db5.
     db_set empty_db (Some ''!'') (Some ''x'') = Inr (db1, 1) \<and> db_set db1 (Some ''a'') (Some ''old'') = Inr (db2, 1) \<and>
     db_expire (\<lambda>n. 0) db2 (Some ''a'') 100 = Inr (db3, 1) \<and> db_del (\<lambda>n. 0) db3 (Some ''!'') = Inr (db4, 1) \<and>
     db_set db4 (Some ''a'') (Some ''new'') = Inr (db5, 1) \<and>
     db_get (\<lambda>n. 0) db5 (Some ''a'') = Inr (db5, Some (OBJ_STRING (Some ''new''))) \<and> db_ttl (\<lambda>n. 0) db5 (Some ''a'') = Inr (db5, -1) \<and>
     (\<exists>d db6 db7. persist_save \<lparr>io_open = True, io_room = 1000, io_rename = True\<rparr> db5 Map.empty dump_name = Inr (d, 0) \<and>
        persist_load (\<lambda>n. 0) empty_db d dump_name = Inr (db6, 0) \<and>
        db_get (\<lambda>n. 0) db6 (Some ''a'') = Inr (db7, Some (OBJ_STRING (Some ''old'')))) \<and>
     (\<exists>db8. db_expire_sweep (\<lambda>n. 200000) db5 = Inr db8 \<and> db_get (\<lambda>n. 200000) db8 (Some ''a'') = Inr (db8, None))"
proof -
  let ?db5 = "two_db (slot ''a'' (str_entry ''new'' (-1))) (slot ''a'' (str_entry ''old'' 100000)) 2 0 1"
  note get = db_get_def db_ttl_def db_get_entry_def check_expired_def ht_get_entry_def entry_ptr_def entry_at_def two_find two_values
  let ?d = "[dump_name \<mapsto> dump_of (db_ht ?db5)]"
  have tmp: "tmp_name dump_name \<noteq> dump_name" by (simp add: tmp_name_def dump_name_def)
  have dump: "dump_of (db_ht ?db5) = RDB_MAGIC @ concat (map enc_entry [(''a'', str_entry ''new'' (-1)), (''a'', str_entry ''old'' 100000)]) @ [char_of RDB_EOF]"
    by (simp add: dump_of_def two_pairs)
  have "length (dump_of (db_ht ?db5)) \<le> 1000"
    unfolding dump by (simp add: enc_entry_def enc_str_def enc_obj_def text_of_def RDB_MAGIC_def)
  then have save: "persist_save \<lparr>io_open = True, io_room = 1000, io_rename = True\<rparr> ?db5 Map.empty dump_name = Inr (?d, 0)"
    using persist_save_bytes [OF two_db_ok tmp, of "\<lparr>io_open = True, io_room = 1000, io_rename = True\<rparr>" Map.empty] tmp by (simp add: fun_upd_idem)
  have load: "persist_load (\<lambda>n. 0) empty_db ?d dump_name = Inr (two_db (slot ''a'' (str_entry ''old'' 100000)) HtEmpty 1 0 1, 0)"
    unfolding dump persist_load_dump load_duplicates by simp
  have get6: "db_get (\<lambda>n. 0) (two_db (slot ''a'' (str_entry ''old'' 100000)) HtEmpty 1 0 1) (Some ''a'') =
      Inr (two_db (slot ''a'' (str_entry ''old'' 100000)) HtEmpty 1 0 2, Some (OBJ_STRING (Some ''old'')))"
    by (simp add: get imdb_mstime_def)
  have get8: "db_get (\<lambda>n. 200000) ((two_db HtTombstone HtTombstone 0 2 2)\<lparr>last_expire_sweep := 200000\<rparr>) (Some ''a'') =
      Inr ((two_db HtTombstone HtTombstone 0 2 2)\<lparr>last_expire_sweep := 200000\<rparr>, None)"
    by (simp add: get)
  have ttl: "db_ttl (\<lambda>n. 0) ?db5 (Some ''a'') = Inr (?db5, -1)" by (simp add: get)
  show ?thesis
    using five_commands ttl save load get6 sweep_duplicates get8 by blast
qed

end
