(* ===== verification/Spec2Isabelle.thy ===== *)
theory Spec2Isabelle
  imports Server_Spec Startup Cli_Props HashTable_Props DList Resp_Memory Memory_History Cli_Memory Platform
    Server_Memory_Props Process_Safe Process_Stop Duplicate_Keys
begin

text \<open>
  A verification library for CackDB, an in-memory key-value server in C that speaks the Redis protocol
  (\<open>src/\<close>), and its command-line client (\<open>cli/cli.c\<close>).

  The program. \<open>main.c\<close> loads the dump file and runs the event loop of \<open>server.c\<close>: a \<open>select\<close> over the
  connections, each with a read buffer of 64 KB and a growing write buffer. Received bytes go through the
  parser of \<open>resp.c\<close>; complete requests are executed by \<open>command.c\<close>, which looks the name up in a table of
  23 handlers; a handler checks its arguments, calls the operations of \<open>db.c\<close> and appends a reply. \<open>db.c\<close>
  keeps values (\<open>object.c\<close>: strings, 64-bit integers, lists of \<open>list.c\<close>) with expiry times in the hash table
  of \<open>hashtable.c\<close> (open addressing, Robin Hood probing, tombstones). Keys expire when they are touched
  and in a periodic sweep. \<open>persist.c\<close> writes the database to the dump file and reads it back.

  The theories, from the bottom up, with the source they model:

  \<^item> \<open>CackPrelude\<close>: the faults of C (\<open>fault\<close>, \<open>res\<close>, \<open>bindR\<close>), its integers, NUL-terminated strings, the growth
    of buffers, general list lemmas. \<open>Util\<close>: \<open>util.c\<close> and the C library functions on strings and numbers. \<open>Platform\<close>: the
    wrappers of the allocator and the clock on both platforms.
  \<^item> \<open>HashTable\<close> (\<open>hashtable.c\<close>): \<open>ht_set\<close>, \<open>ht_find\<close>, \<open>ht_delete\<close>, \<open>ht_resize\<close>, the iterator. \<open>HashTable_Wf\<close> has the
    invariant \<open>wf_ht\<close> and what every operation does to the bag of entries, \<open>HashTable_Map\<close> the map view and
    the locale of a key-value table with its interpretation, \<open>HashTable_Homes\<close> a second interpretation for keys that
    do not collide, \<open>HashTable_Props\<close> the properties.
  \<^item> \<open>DList\<close> (\<open>list.c\<close>): the linked list on an explicit heap, with the locale of a double-ended queue that
    it refines. \<open>Objects\<close> (\<open>object.c\<close>): values; a list value is the sequence that \<open>DList\<close> shows it to be.
  \<^item> \<open>Database\<close> (\<open>db.c\<close>), its invariant \<open>db_ok\<close> (\<open>Database_Inv\<close>), its view as a map from keys to entries
    (\<open>Database_Map\<close>, over any key-value table) and the properties (\<open>Database_Props\<close>). \<open>Database_Spec\<close>: the
    operations as an abstract store, and the proof that \<open>db.c\<close> implements it.
  \<^item> \<open>Ledger\<close>, \<open>HashTable_Memory\<close>, \<open>Database_Memory\<close>, \<open>Database_Memory_Props\<close>, \<open>Memory_History\<close>: \<open>hashtable.c\<close>, \<open>object.c\<close> and
    \<open>db.c\<close> once more, with every allocation and every \<open>free\<close>, and \<open>ht_destroy\<close>, \<open>obj_free\<close>, \<open>db_destroy\<close>. The heap
    is the collection of live blocks; \<open>free_fn\<close> is the locale \<open>value_memory\<close>, interpreted on \<open>entry_free\<close>.
  \<^item> \<open>Resp\<close> (\<open>resp.c\<close>): reply buffer, writers, parser. \<open>Resp_Wire\<close>: the wire format \<open>encode\<close> and the locale
    \<open>resp_parser\<close>, in which the round trip and the treatment of incomplete input are proved once; it is
    interpreted on the parser of the server (\<open>Resp_Props\<close>) and on that of the client (\<open>Cli_Props\<close>).
    \<open>Resp_Memory\<close>: the parser with its allocations and \<open>resp_free\<close>, and that they lose and free nothing twice.
  \<^item> \<open>Persist\<close>, \<open>Persist_Props\<close> (\<open>persist.c\<close>): save and load on files as byte lists.
  \<^item> \<open>Command\<close>, \<open>Command_Props\<close> (\<open>command.c\<close>): the handlers, the table and the dispatch.
  \<^item> \<open>Duplicate_Keys\<close>: a key that \<open>ht_set\<close> stores twice, through \<open>db.c\<close>, \<open>persist.c\<close> and the sweep.
  \<^item> \<open>Server\<close> (\<open>server.c\<close>): clients, \<open>process_client_input\<close>, accept and removal, one round of the loop
    (\<open>server_round\<close>), the loop and its end. \<open>Server_Conn\<close>: one connection; \<open>Server_Table\<close>: the table of
    clients and whole rounds; \<open>Server_Props\<close>: the properties.
  \<^item> \<open>Command_Spec\<close>: 19 commands as operations on the abstract store, each with its reply, and the proof that
    \<open>command_execute\<close> implements them. \<open>Server_Spec\<close>: rounds of the event loop with many clients answer as the
    store does that executes all requests one after the other.
  \<^item> \<open>Startup\<close> (\<open>main.c\<close>): options, start, signal handler. \<open>Cli\<close>, \<open>Cli_Props\<close> (\<open>cli/cli.c\<close>): the client,
    from its options to the end of its session. \<open>Cli_Memory\<close>: its parser with every \<open>malloc\<close> and \<open>free\<close>, and \<open>free_resp\<close>.
  \<^item> \<open>Server_Memory\<close>, \<open>Server_Memory_Props\<close>: \<open>server.c\<close> and \<open>main.c\<close> once more with every descriptor and block that they hold,
    among them \<open>client_destroy\<close>, \<open>resp_buf_free\<close>, \<open>server_destroy\<close> and the closing of sockets.
  \<^item> \<open>Process\<close>: \<open>main\<close> and \<open>server_run\<close> in small steps - a state for every place in the code, a step for every call, and
    signals between any two steps. \<open>Process_Props\<close>: the small steps do what \<open>server_main\<close> does; \<open>Process_Safe\<close>: an invariant
    for every place; \<open>Process_Stop\<close>: how the program ends, with \<open>Command_Frame\<close> on what commands leave alone.
  \<^item> This theory: the properties of the whole, from the typed line to the display and across a restart.

  How state corresponds. A struct is a record with the same fields, a tagged union a datatype. A pointer
  that may be null is an option, a C string the list of its bytes, \<open>int64_t\<close> an \<open>int\<close> whose operations
  check the range, hashes are \<open>32 word\<close>. Every operation returns a \<open>fault\<close> or a result: null and dangling
  pointers, accesses outside an array, signed overflow and loops that do not end are values, and the
  theorems say which of them can occur. The clock is a function of the number of its readings; the
  answers of \<open>socket\<close>, \<open>bind\<close>, \<open>listen\<close>, \<open>connect\<close>, \<open>select\<close>, \<open>accept\<close>, \<open>recv\<close>, \<open>send\<close> and of the file
  operations are inputs, quantified in the theorems.

  What the lemmas show. The hash table always returns and conserves its entries, and it answers like a map as long
  as no probe path is cut (\<open>good\<close>): a lookup in such a table is exact, an insertion that does not make the table grow,
  along a probe path without swap and tombstone (\<open>clean_probe\<close>), keeps it so, and so does a deletion that does not make
  it shrink. Where one of these conditions is not met the theorems exhibit what happens: a swap, a tombstone, a resize
  that loses a key or leaves one twice in the table, and a key that is there twice comes back with its old value
  after a restart, or is swept with the expiry time of the old one (\<open>Duplicate_Keys\<close>). The predicates \<open>set_ok\<close> and
  \<open>del_ok\<close> (\<open>HashTable_Map\<close>: the table that results is good) are hypotheses of lemmas on single operations (\<open>Database_Props\<close>,
  \<open>Command_Props\<close>); \<open>set_ok_no_growth\<close>, \<open>del_ok_no_shrink\<close> and \<open>HashTable_Homes\<close> say when they hold. The database
  operations are characterised on every branch over the map view.
  A dump that was saved loads back into the entries that have not expired; of a key that is there twice one entry, not
  always the newer. The sweep removes only expired keys if no key is there twice, and otherwise nothing but keys that
  have an expired entry. On keys with different home slots the layers refine one abstract store: the operations of
  \<open>db.c\<close> (\<open>Database_Spec\<close>), the commands with their replies (\<open>Command_Spec\<close>), and the bytes that each client of
  the event loop is sent (\<open>Server_Spec\<close>, the clock standing still during a round). Without a condition on the keys:
  a command with string arguments cannot fault except by a signed overflow and appends
  exactly one value, unless it is the error for an unknown name, which repeats the name (up to 102 bytes fit its buffer,
  and a carriage return in the name splits the reply); from this the server is shown to survive every round with well-formed input, to
  execute pipelined and fragmented requests exactly once and in order, and to send the replies in order.
  Parsed requests and the database own their memory: nothing is freed twice, and from \<open>db_create\<close> to
  \<open>db_destroy\<close> nothing is lost (\<open>Resp_Memory\<close>, \<open>Memory_History\<close>); nor does the client lose anything of a reply without
  nested arrays (\<open>Cli_Memory\<close>), nor the server a socket or a block, whatever arrives (\<open>Server_Memory_Props\<close>). In the last
  three a block is known by what it holds (\<open>Ledger\<close>), so they say how many copies are live, not which addresses.
  The process keeps its invariants under signals at any moment up to \<open>server_destroy\<close>, and a signal in the loop
  ends it in a bounded number of steps; one that finds it waiting in \<open>select\<close> loses nothing if its save
  succeeds and no key is stored twice, one before the loop is forgotten, and one in the middle of a round loses the writes that follow in it.
  The remaining theorems state what the code does on malformed input and at its limits.

  Loops. \<open>ht_set_loop\<close>, \<open>ht_find_loop\<close> and \<open>grow_cap\<close> have no bound in the code and are partial
  functions (\<open>None\<close> is a loop that does not end); they are proved to return on well-formed tables and
  positive capacities. So is \<open>resp_free\<close>, which follows pointers and returns on every value that was parsed. All other loops terminate by a
  measure. Only \<open>list_destroy\<close> has fuel, the number of nodes, and is proved not to run out of it on a well-formed list
  (\<open>dll\<close>). The loop of the server is
  a recursion over the results of \<open>select\<close>, and \<open>reachable\<close> are its states; in small steps the process is a sequence of
  events, and \<open>proc_reaches\<close> are its states.

  Not modelled. Exhaustion of memory (the program ends then: \<open>Platform\<close>) and of the stack; errors of buffered writes that
  show only at \<open>fclose\<close>, whose result \<open>persist_save\<close> does not look at; socket options; prompts,
  banners and log lines on the console; the start of the Windows sockets; signals within one of the calls of the
  event loop (the work for one client, the sweep, a load or a save); backlogs of 2 GB. The web front end is
  JavaScript and HTML.
\<close>

section \<open>From the line to the display\<close>

lemma line_request_ok:
  assumes "cstr_ok line" "length line < 4096" "tokenize 128 line = name # args" "length name \<le> 102"
  shows "request_ok (RESP_ARRAY (map RESP_BULK_STRING (name # args)))"
proof -
  have "\<forall>s \<in> set (name # args). cstr_ok s"
    using tokenize_bounds [of 128 line] assms(1,3) by (auto simp: cstr_ok_def)
  moreover have "string_args (RESP_ARRAY (map RESP_BULK_STRING ss))" if "\<forall>s \<in> set ss. cstr_ok s" for ss
    using that by (auto simp: string_args_def arg_count_def get_arg_def)
  ultimately have "string_args (RESP_ARRAY (map RESP_BULK_STRING (name # args)))" by blast
  with request_value_ok [OF assms(1,2)] assms(3,4) show ?thesis
    by (simp add: request_ok_def get_arg_def del: value_ok.simps)
qed

lemma line_request_length:
  assumes "length line < 4096"
  shows "length (encode (RESP_ARRAY (map RESP_BULK_STRING (tokenize 128 line)))) \<le> 6000"
  using request_length [of "tokenize 128 line"] tokenize_bounds [of 128 line] assms by (simp del: encode.simps)

lemma piece_length: "x \<in> set xs \<Longrightarrow> length x \<le> length (concat xs)"
  by (induction xs) auto

text \<open>C2: a line typed at the client is executed by the server as the command of its words, in whatever pieces
  the request arrives; what is queued for the client is, byte for byte, the reply of \<open>command_execute\<close> to this command, and it is the
  encoding of a value \<open>v\<close>; and in whatever pieces it arrives, the client receives it and displays the value \<open>v\<close>, if it fits into its buffer
  and can be carried by the protocol (\<open>value_ok\<close>). The line has less than 4096 characters and its first word at most
  102, and the command does not fault, in which case \<open>exec\<close> names its reply.\<close>

theorem typed_command_end_to_end:
  assumes "cstr_ok line" "length line < 4096" "tokenize 128 line = name # args" "length name \<le> 102" "world_ok w"
    and "build_command line BUF_SIZE = Inr out" "concat xs = out" "\<forall>x \<in> set xs. x \<noteq> []"
    and exec: "command_execute clk e w (Some (RESP_ARRAY (map RESP_BULK_STRING (name # args)))) resp_buf_init = Inr (w', reply)"
  shows "\<exists>c' v. feed clk e w (client_create fd) xs = Inr (w', Some c') \<and> world_ok w' \<and>
    pending c' = rb_data reply \<and> rb_data reply = encode v \<and>
    (\<forall>ys buf. value_ok v \<and> length (encode v) \<le> BUF_SIZE \<and> length buf = BUF_SIZE \<and> concat ys = pending c' \<and> (\<forall>y \<in> set ys. y \<noteq> []) \<longrightarrow>
      (\<exists>buf' shown. recv_response buf 0 (map Some ys) = Inr (Some (Some (buf', length (encode v)))) \<and>
         display_reply buf' (length (encode v)) = Inr shown \<and> print_resp (rval_of v) 0 = Inr shown))"
proof -
  let ?cmd = "RESP_ARRAY (map RESP_BULK_STRING (name # args))"
  note req = line_request_ok [OF assms(1-4)]
  have len: "length (encode ?cmd) \<le> 6000" using line_request_length [OF assms(2)] assms(3) by (simp del: encode.simps)
  have out: "concat xs = encode ?cmd"
    using build_encode [of line BUF_SIZE] assms(3,6,7) len by (simp add: Let_def BUF_SIZE_def del: encode.simps)
  have "length x \<le> 6000" if "x \<in> set xs" for x
    using piece_length [OF that] out len by simp
  then have pieces: "\<forall>v \<in> set [?cmd]. \<forall>x \<in> set xs. length (encode v) + length x \<le> CLIENT_BUF_SIZE"
    using len by (fastforce simp: CLIENT_BUF_SIZE_def simp del: encode.simps)
  have run: "exec_all clk (\<lambda>_. e) 0 w [?cmd] = Inr (w', rb_data reply)"
    unfolding exec_all.simps exec by simp
  have stream: "concat (map encode [?cmd]) = encode ?cmd" by (simp only: list.map concat.simps append_Nil2)
  obtain c' where feed: "feed clk e w (client_create fd) xs = Inr (w', Some c')" "pending c' = rb_data reply"
    using feed_stream [of "[?cmd]" xs "client_create fd" clk e w] req out assms(8) pieces fresh_create stream
    by (auto simp: run begins_def encode_nonempty request_ok_def simp del: encode.simps value_ok.simps list.map exec_all.simps)
  have "res_ok {SignedOverflow} (some_reply resp_buf_init) (command_execute clk e w (Some ?cmd) resp_buf_init)"
    by (rule execute_handled) (use req assms(5) in \<open>auto simp: request_ok_def\<close>)
  then obtain v where v: "world_ok w'" "rb_data reply = encode v" unfolding exec by (auto simp: some_reply_def)
  have "\<exists>buf' shown. recv_response buf 0 (map Some ys) = Inr (Some (Some (buf', length (encode v)))) \<and>
      display_reply buf' (length (encode v)) = Inr shown \<and> print_resp (rval_of v) 0 = Inr shown"
    if "value_ok v \<and> length (encode v) \<le> BUF_SIZE \<and> length buf = BUF_SIZE \<and> concat ys = encode v \<and> (\<forall>y \<in> set ys. y \<noteq> [])" for ys buf
    using reply_received [of v ys buf] that by blast
  with feed v show ?thesis by (intro exI [of _ c'] exI [of _ v]) simp
qed

theorem typed_command_end_to_end_witness:
  "\<exists>out w' c' v. build_command ''ping'' BUF_SIZE = Inr out \<and>
     feed (\<lambda>n. 0) fail_io sample_world (client_create 4) [out] = Inr (w', Some c') \<and> world_ok w' \<and>
     pending c' = ''+PONG'' @ CRLF \<and> pending c' = encode v"
proof -
  have t: "tokenize 128 ''ping'' = ''ping'' # []" by code_simp
  have line: "cstr_ok ''ping''" "length ''ping'' < 4096" by (simp_all add: cstr_ok_def NUL_def)
  obtain out where out: "build_command ''ping'' BUF_SIZE = Inr out"
    using build_encode [of "''ping''" BUF_SIZE] line_request_length [OF line(2)] t
    by (simp add: Let_def BUF_SIZE_def del: encode.simps)
  moreover have "out \<noteq> []" using out t by (auto simp: build_command_def Let_def split: if_splits)
  moreover obtain rb where rb: "resp_write_simple_string resp_buf_init ''PONG'' = Inr rb" "rb_data rb = ''+PONG'' @ CRLF"
    using writer_replies(1) [OF rb_ok_init(1), of "''PONG''"] by (auto simp: appends_def)
  have "(''PING'', cmd_ping) \<in> set command_table" "map c_tolower ''ping'' = map c_tolower ''PING''"
    by (simp_all add: command_table_def c_tolower_def)
  from execute_known [OF this(1) line(1) this(2), of "\<lambda>n. 0" fail_io sample_world "[]" resp_buf_init] rb
  have "command_execute (\<lambda>n. 0) fail_io sample_world (Some (RESP_ARRAY (map RESP_BULK_STRING [''ping'']))) resp_buf_init = Inr (sample_world, rb)"
    by (simp add: cmd_ping_def arg_count_def reply_with_def)
  ultimately have exec: "command_execute (\<lambda>n. 0) fail_io sample_world (Some (RESP_ARRAY (map RESP_BULK_STRING (''ping'' # [])))) resp_buf_init =
      Inr (sample_world, rb)" "out \<noteq> []" by simp_all
  have "concat [out] = out" "\<forall>x \<in> set [out]. x \<noteq> []" "length ''ping'' \<le> 102" using exec(2) by simp_all
  from typed_command_end_to_end [OF line t this(3) sample_world_ok out this(1,2) exec(1), of 4] obtain c' v where
    "feed (\<lambda>n. 0) fail_io sample_world (client_create 4) [out] = Inr (sample_world, Some c')" "world_ok sample_world"
    "pending c' = rb_data rb" "rb_data rb = encode v" by (elim exE conjE)
  with out rb(2) show ?thesis by metis
qed

section \<open>Restart\<close>

text \<open>C4: after SHUTDOWN, or a termination signal, the server has stopped and a server started on the same disk at time
  \<open>now\<close> is in its event loop; every entry it has was stored and has not expired, with its value and expiry time; every key
  with an entry that had not expired is there; and if no key was stored twice, exactly the entries that have not
  expired are there. This holds when the save succeeds (the file operations work and there is room for the dump), no
  string is 2^32-1 bytes or longer and no list has 2^32 items (\<open>entry_fits\<close>), no two different stored keys have the same 32-bit
  hash, and the new server gets its socket. Of a key stored twice the entry that is there may be the old one
  (\<open>Duplicate_Keys\<close>).\<close>

theorem data_survives_restart:
  assumes "db_ok (w_db w)" "w_running w \<noteq> None" "rb_ok rb"
    and "\<forall>ke \<in> set (pairs_from (db_ht (w_db w)) 0). entry_fits ke"
    and "inj_on ht_hash (fst ` set_mset (ht_bag (db_ht (w_db w))))"
    and "io_open env" "io_rename env" "length (dump_of (db_ht (w_db w))) \<le> io_room env"
    and "\<And>n. clk1 n = now" "la_socket la \<noteq> INVALID_SOCK" "\<And>port. la_bind la port" "la_listen la"
  shows "\<exists>w1 rb1 w2 srv. cmd_shutdown clk env w cmd rb = Inr (w1, rb1) \<and> signal_handler env w = Inr w2 \<and>
    w_running w1 = Some False \<and> w_running w2 = Some False \<and> w_disk w1 = w_disk w2 \<and>
    server_main clk1 argv (w_disk w1) la [] = Inr srv \<and> running srv \<and>
    (\<forall>(k, e) \<in># ht_bag (db_ht (w_db (srv_world srv))). (k, e) \<in># ht_bag (db_ht (w_db w)) \<and> live now e) \<and>
    (\<forall>(k, e) \<in># ht_bag (db_ht (w_db w)). live now e \<longrightarrow> (\<exists>x. (k, x) \<in># ht_bag (db_ht (w_db (srv_world srv))))) \<and>
    (distinct (map fst (pairs_from (db_ht (w_db w)) 0)) \<longrightarrow>
       ht_bag (db_ht (w_db (srv_world srv))) = {#(k, e) \<in># ht_bag (db_ht (w_db w)). live now e#})"
proof -
  have tmp: "tmp_name dump_name \<noteq> dump_name" by (simp add: tmp_name_def dump_name_def)
  obtain db0 where db0: "db_create clk1 = Inr db0" by (auto simp: db_create_eq)
  from save_then_load [where d = "w_disk w" and clk = clk1 and now = now, OF assms(1,4,5) tmp assms(6-8) db0 assms(9)] obtain d' db1 where
    s: "persist_save env (w_db w) (w_disk w) dump_name = Inr (d', 0)" "persist_load clk1 db0 d' dump_name = Inr (db1, 0)"
      "restored now (db_ht (w_db w)) (db_ht db1)" by auto
  obtain rb1 where "resp_write_simple_string rb ''OK'' = Inr rb1"
    using writer_replies(1) [OF assms(3), of "''OK''"] by (auto simp: appends_def)
  with s assms(2) have "cmd_shutdown clk env w cmd rb = Inr (w\<lparr>w_disk := d', w_running := Some False\<rparr>, rb1)"
    by (auto simp: cmd_shutdown_def)
  moreover have "signal_handler env w = Inr (w\<lparr>w_disk := d', w_running := Some False\<rparr>)"
    using s assms(2) by (cases "w_running w") (simp_all add: signal_handler_def)
  moreover have "\<exists>srv. server_main clk1 argv d' la [] = Inr srv \<and> running srv \<and> db_ht (w_db (srv_world srv)) = db_ht db1"
    using s(2) db0 assms(10-12) by (auto simp: server_main_def server_run_def server_listen_def server_create_def running_def Let_def)
  ultimately show ?thesis using s(3) unfolding restored_def by fastforce
qed

theorem data_survives_restart_witness:
  "\<exists>w1 rb1 srv. cmd_shutdown (\<lambda>n. 0) \<lparr>io_open = True, io_room = length (dump_of (db_ht (sample_db sample_entry))), io_rename = True\<rparr>
      (sample_world\<lparr>w_db := sample_db sample_entry\<rparr>) RESP_NIL resp_buf_init = Inr (w1, rb1) \<and> w_running w1 = Some False \<and>
    server_main (\<lambda>n. 50) [''-p'', ''7000''] (w_disk w1) \<lparr>la_socket = 3, la_bind = (\<lambda>port. True), la_listen = True\<rparr> [] = Inr srv \<and> running srv \<and>
    ht_bag (db_ht (w_db (srv_world srv))) = {#(''a'', sample_entry)#}"
proof -
  have live: "live 50 sample_entry" by (simp add: live_def sample_entry_def)
  show ?thesis
    using data_survives_restart [of "sample_world\<lparr>w_db := sample_db sample_entry\<rparr>" resp_buf_init
        "\<lparr>io_open = True, io_room = length (dump_of (db_ht (sample_db sample_entry))), io_rename = True\<rparr>" "\<lambda>n. 50" 50
        "\<lparr>la_socket = 3, la_bind = (\<lambda>port. True), la_listen = True\<rparr>" "\<lambda>n. 0" RESP_NIL "[''-p'', ''7000'']"]
    by (auto simp: sample_entry_ok sample_db_pairs sample_db_bag sample_world_def INVALID_SOCK_def live)
qed

text \<open>C5: a signal that arrives while the server waits in \<open>select\<close> takes the process through the cleanup to the end of
  \<open>main\<close>, and a process started on the disk that it leaves comes to its event loop at time \<open>now\<close> with entries that were stored and
  have not expired, one at least for every key that had one, and if no key was stored twice, exactly those that have
  not expired. The conditions are those of \<open>data_survives_restart\<close>: the save succeeds, the lengths fit their 32-bit
  fields, different stored keys have different hashes, and the new process gets its socket.\<close>

theorem stop_and_restart_cycle:
  assumes "table_ok srv" "db_ok (w_db (srv_world srv))" "w_running (srv_world srv) \<noteq> None"
    and "\<forall>ke \<in> set (pairs_from (db_ht (w_db (srv_world srv))) 0). entry_fits ke"
    and "inj_on ht_hash (fst ` set_mset (ht_bag (db_ht (w_db (srv_world srv)))))"
    and "io_open env" "io_rename env" "length (dump_of (db_ht (w_db (srv_world srv)))) \<le> io_room env"
    and "\<And>n. clk1 n = now" "la_socket la \<noteq> INVALID_SOCK" "\<And>port. la_bind la port" "la_listen la"
  shows "\<exists>d srv1.
    proc_run clk port (Signal env # Select SelectEINTR # Tick # cleanup_events @ [Tick, Tick]) (Waiting rs ws srv) = Some (Inr (Exited d)) \<and>
    proc_run clk1 port1 [Tick, Tick, Listen la, Tick] (Begun d) = Some (Inr (AtLoop srv1)) \<and> running srv1 \<and>
    (\<forall>(k, e) \<in># ht_bag (db_ht (w_db (srv_world srv1))). (k, e) \<in># ht_bag (db_ht (w_db (srv_world srv))) \<and> live now e) \<and>
    (\<forall>(k, e) \<in># ht_bag (db_ht (w_db (srv_world srv))). live now e \<longrightarrow> (\<exists>x. (k, x) \<in># ht_bag (db_ht (w_db (srv_world srv1))))) \<and>
    (distinct (map fst (pairs_from (db_ht (w_db (srv_world srv))) 0)) \<longrightarrow>
       ht_bag (db_ht (w_db (srv_world srv1))) = {#(k, e) \<in># ht_bag (db_ht (w_db (srv_world srv))). live now e#})"
proof -
  let ?w = "srv_world srv"
  have tmp: "tmp_name dump_name \<noteq> dump_name" by (simp add: tmp_name_def dump_name_def)
  obtain db0 where db0: "db_create clk1 = Inr db0" by (auto simp: db_create_eq)
  from save_then_load [where d = "w_disk ?w" and clk = clk1 and now = now, OF assms(2,4,5) tmp assms(6-8) db0 assms(9)] obtain d db1 where
    s: "persist_save env (w_db ?w) (w_disk ?w) dump_name = Inr (d, 0)" "persist_load clk1 db0 d dump_name = Inr (db1, 0)"
      "restored now (db_ht (w_db ?w)) (db_ht db1)" by auto
  let ?srv = "srv\<lparr>srv_world := ?w\<lparr>w_disk := d, w_running := Some False\<rparr>\<rparr>"
  have signal: "signal_handler env ?w = Inr (?w\<lparr>w_disk := d, w_running := Some False\<rparr>)"
    using s(1) assms(3) by (auto simp: signal_handler_def)
  have "srv_world (server_cleanup ?srv) = srv_world ?srv"
    by (rule server_cleanup_clears) (use assms(1) in \<open>simp add: table_ok_def\<close>)
  with signal have stop: "proc_run clk port (Signal env # Select SelectEINTR # Tick # cleanup_events @ [Tick, Tick]) (Waiting rs ws srv) = Some (Inr (Exited d))"
    by (simp add: proc_run_append running_def)
  let ?on = "(server_create db1 d port1)\<lparr>srv_listen_fd := la_socket la, srv_world := (srv_world (server_create db1 d port1))\<lparr>w_running := Some True\<rparr>\<rparr>"
  have "proc_run clk1 port1 [Tick, Tick, Listen la, Tick] (Begun d) = Some (Inr (AtLoop ?on))"
    using s(2) db0 assms(10-12) by (simp add: server_listen_def Let_def)
  moreover have "running ?on" "restored now (db_ht (w_db ?w)) (db_ht (w_db (srv_world ?on)))"
    by (simp add: running_def, simp add: s(3) server_create_def)
  ultimately show ?thesis using stop unfolding restored_def by blast
qed

theorem stop_and_restart_cycle_witness:
  "\<exists>d srv1.
    proc_run (\<lambda>n. 0) 6399 (Signal \<lparr>io_open = True, io_room = length (dump_of (db_ht (sample_db sample_entry))), io_rename = True\<rparr> #
        Select SelectEINTR # Tick # cleanup_events @ [Tick, Tick])
      (Waiting [4, 3] [] (sample_server\<lparr>srv_world := sample_world\<lparr>w_db := sample_db sample_entry\<rparr>\<rparr>)) = Some (Inr (Exited d)) \<and>
    proc_run (\<lambda>n. 50) 7000 [Tick, Tick, Listen sample_listen, Tick] (Begun d) = Some (Inr (AtLoop srv1)) \<and> running srv1 \<and>
    ht_bag (db_ht (w_db (srv_world srv1))) = {#(''a'', sample_entry)#}"
proof -
  have live: "live 50 sample_entry" by (simp add: live_def sample_entry_def)
  have one: "distinct (map fst (pairs_from (db_ht (w_db (srv_world (sample_server\<lparr>srv_world := sample_world\<lparr>w_db := sample_db sample_entry\<rparr>\<rparr>)))) 0))"
    "{#(k, e) \<in># ht_bag (db_ht (w_db (srv_world (sample_server\<lparr>srv_world := sample_world\<lparr>w_db := sample_db sample_entry\<rparr>\<rparr>)))). live 50 e#} =
      {#(''a'', sample_entry)#}"
    by (simp_all add: sample_db_pairs sample_db_bag live)
  have "table_ok (sample_server\<lparr>srv_world := sample_world\<lparr>w_db := sample_db sample_entry\<rparr>\<rparr>)" by (simp add: sample_table)
  from stop_and_restart_cycle [OF this, where env = "\<lparr>io_open = True, io_room = length (dump_of (db_ht (sample_db sample_entry))), io_rename = True\<rparr>"
      and ?clk1.0 = "\<lambda>n. 50" and now = 50 and la = sample_listen and clk = "\<lambda>n. 0" and port = 6399 and rs = "[4, 3]" and ws = "[]" and ?port1.0 = 7000]
  show ?thesis unfolding one(2) using one(1)
    by (auto simp: sample_entry_ok sample_db_pairs sample_db_bag sample_world_def INVALID_SOCK_def sample_listen_def)
qed

end
